(* ===== verification/Prelude.thy ===== *)
theory Prelude
  imports Main "HOL-Library.Word"
begin

text \<open>
  Shared vocabulary of the development: the machine types of the Rust sources (octets,
  ports, addresses), the crate's error type (\<^verbatim>\<open>src/error.rs\<close>), results as sums, and
  the lemmas on big-endian octet strings, association lists and lists that several
  components use.  Error texts that the sources build with \<^verbatim>\<open>format!\<close> are represented by
  the literal part of the format string.
\<close>

named_theorems octet_simps \<open>octet strings and their lengths\<close>
named_theorems alist_simps \<open>association lists and key removal\<close>

section \<open>Machine types and errors\<close>

type_synonym byte = "8 word"
type_synonym bytes = "8 word list"
type_synonym u16 = "16 word"
type_synonym u32 = "32 word"
type_synonym u128 = "128 word"

datatype io_error_kind =
    NotFound | PermissionDenied | ConnectionRefused | ConnectionReset | ConnectionAborted
  | NotConnected | AddrInUse | AddrNotAvailable | BrokenPipe | AlreadyExists | WouldBlock
  | InvalidInput | InvalidData | TimedOut | WriteZero | Interrupted | Unsupported
  | UnexpectedEof | OutOfMemory | NetworkUnreachable | OtherKind

datatype io_error = IoError (io_kind: io_error_kind) (io_text: string)

datatype error =
    Nul | Io io_error | NixErrno | TryFromInt | AddrParse | Utf8 | TryFromSlice | IpStack
  | DnsProto | Httparse | DigestAuth | Jni | StringError string | IntParseError

type_synonym 'a result = "error + 'a"
type_synonym 'a io_result = "io_error + 'a"

definition rbind :: "'e + 'a \<Rightarrow> ('a \<Rightarrow> 'e + 'b) \<Rightarrow> 'e + 'b" where
  "rbind r f = (case r of Inl e \<Rightarrow> Inl e | Inr x \<Rightarrow> f x)"

definition io_result_error :: "'a io_result \<Rightarrow> 'a result" where
  "io_result_error r = (case r of Inl e \<Rightarrow> Inl (Io e) | Inr x \<Rightarrow> Inr x)"

text \<open>
  The conversion of \<^verbatim>\<open>src/error.rs\<close> into an I/O error.  The texts of the errors of other crates are
  not modelled: their constructors carry no payload here and give an empty text.
\<close>

definition error_into_io :: "error \<Rightarrow> io_error" where
  "error_into_io err = (case err of
     Io e \<Rightarrow> e
   | StringError s \<Rightarrow> IoError OtherKind s
   | _ \<Rightarrow> IoError OtherKind [])"

definition error_into_io_result :: "'a result \<Rightarrow> 'a io_result" where
  "error_into_io_result r = (case r of Inl e \<Rightarrow> Inl (error_into_io e) | Inr x \<Rightarrow> Inr x)"

definition usize_max :: nat where
  "usize_max = 2 ^ 64 - 1"

definition saturating_add :: "nat \<Rightarrow> nat \<Rightarrow> nat" where
  "saturating_add a b = min (a + b) usize_max"

definition saturating_mul :: "nat \<Rightarrow> nat \<Rightarrow> nat" where
  "saturating_mul a b = min (a * b) usize_max"

section \<open>Big-endian octet strings\<close>

primrec be_of_nat :: "nat \<Rightarrow> nat \<Rightarrow> bytes" where
  "be_of_nat 0 n = []"
| "be_of_nat (Suc k) n = be_of_nat k (n div 256) @ [of_nat (n mod 256)]"

definition nat_of_be :: "bytes \<Rightarrow> nat" where
  "nat_of_be bs = foldl (\<lambda>acc b. acc * 256 + unat b) 0 bs"

definition to_be_bytes :: "'a::len word \<Rightarrow> bytes" where
  "to_be_bytes w = be_of_nat (LENGTH('a) div 8) (unat w)"

definition from_be_bytes :: "bytes \<Rightarrow> 'a::len word" where
  "from_be_bytes bs = of_nat (nat_of_be bs)"

section \<open>Addresses\<close>

datatype ip_addr = V4 u32 | V6 u128

definition is_ipv4 :: "ip_addr \<Rightarrow> bool" where
  "is_ipv4 a = (case a of V4 _ \<Rightarrow> True | V6 _ \<Rightarrow> False)"

definition octets :: "ip_addr \<Rightarrow> bytes" where
  "octets a = (case a of V4 w \<Rightarrow> to_be_bytes w | V6 w \<Rightarrow> to_be_bytes w)"

instantiation ip_addr :: linorder
begin

definition less_eq_ip_addr :: "ip_addr \<Rightarrow> ip_addr \<Rightarrow> bool" where
  "less_eq_ip_addr a b = (case a of
       V4 x \<Rightarrow> (case b of V4 y \<Rightarrow> x \<le> y | V6 _ \<Rightarrow> True)
     | V6 x \<Rightarrow> (case b of V4 _ \<Rightarrow> False | V6 y \<Rightarrow> x \<le> y))"

definition less_ip_addr :: "ip_addr \<Rightarrow> ip_addr \<Rightarrow> bool" where
  "less_ip_addr a b = (a \<le> b \<and> a \<noteq> (b::ip_addr))"

instance
  by standard (auto simp: less_eq_ip_addr_def less_ip_addr_def split: ip_addr.splits)

end

definition is_unspecified :: "ip_addr \<Rightarrow> bool" where
  "is_unspecified ip = (case ip of V4 a \<Rightarrow> a = 0 | V6 a \<Rightarrow> a = 0)"

definition is_loopback :: "ip_addr \<Rightarrow> bool" where
  "is_loopback ip = (case ip of V4 a \<Rightarrow> drop_bit 24 a = 127 | V6 a \<Rightarrow> a = 1)"

definition is_multicast :: "ip_addr \<Rightarrow> bool" where
  "is_multicast ip = (case ip of V4 a \<Rightarrow> drop_bit 28 a = 14 | V6 a \<Rightarrow> drop_bit 120 a = 255)"

datatype socket_addr = SocketAddr (sa_ip: ip_addr) (sa_port: u16)

text \<open>A destination by address or by name, as the SOCKS protocols carry it.\<close>

datatype address = SocketAddress socket_addr | DomainAddress string u16

text \<open>What a read of a socket delivers, and the outcome of a call that may have to wait.\<close>

datatype read_event = ReadChunk bytes | ReadTimeout | ReadError io_error

datatype 'a poll = Ready 'a | Pending

text \<open>Reading from a stream: its remaining octets up to the end of the stream.\<close>

definition read_exact :: "nat \<Rightarrow> bytes \<Rightarrow> (bytes \<times> bytes) io_result" where
  "read_exact n s =
     (if length s < n then Inl (IoError UnexpectedEof ''failed to fill whole buffer'')
      else Inr (take n s, drop n s))"

section \<open>Characters of host names\<close>

definition ascii_lower :: "char \<Rightarrow> char" where
  "ascii_lower c = (let n = (of_char c :: nat) in if 65 \<le> n \<and> n \<le> 90 then char_of (n + 32) else c)"

definition to_ascii_lowercase :: "string \<Rightarrow> string" where
  "to_ascii_lowercase s = map ascii_lower s"

definition trim_end_matches :: "char \<Rightarrow> string \<Rightarrow> string" where
  "trim_end_matches c s = rev (dropWhile (\<lambda>d. d = c) (rev s))"

definition ends_with :: "char \<Rightarrow> string \<Rightarrow> bool" where
  "ends_with c s = (s \<noteq> [] \<and> last s = c)"

section \<open>Minimum by a key\<close>

text \<open>\<^verbatim>\<open>Iterator::min_by_key\<close>: the first of the elements with the least key.\<close>

fun first_min :: "('a \<Rightarrow> 'k::linorder) \<Rightarrow> 'a list \<Rightarrow> 'a option" where
  "first_min key [] = None"
| "first_min key (x # xs) = (case first_min key xs of
     None \<Rightarrow> Some x
   | Some y \<Rightarrow> if key y < key x then Some y else Some x)"

section \<open>Shared lemmas\<close>

lemma rbind_simps [simp]:
  "rbind (Inl e) f = Inl e" "rbind (Inr x) f = f x"
  by (simp_all add: rbind_def)

lemma rbind_Inr_iff [simp]: "rbind r f = Inr y \<longleftrightarrow> (\<exists>x. r = Inr x \<and> f x = Inr y)"
  by (cases r) auto

lemma length_be_of_nat [simp, octet_simps]: "length (be_of_nat k n) = k"
  by (induction k arbitrary: n) auto

lemma nat_of_be_snoc [simp]: "nat_of_be (bs @ [b]) = nat_of_be bs * 256 + unat b"
  by (simp add: nat_of_be_def)

lemma nat_of_be_Nil [simp]: "nat_of_be [] = 0"
  by (simp add: nat_of_be_def)

lemma unat_byte_less: "unat (b::byte) < 256"
  using unsigned_less [where ?'a = nat and w = b] by simp

lemma nat_of_be_less: "nat_of_be bs < 256 ^ length bs"
proof (induction bs rule: rev_induct)
  case Nil
  then show ?case by simp
next
  case (snoc b bs)
  from snoc have "nat_of_be bs + 1 \<le> 256 ^ length bs" by simp
  then have "(nat_of_be bs + 1) * 256 \<le> 256 ^ length bs * 256" by (rule mult_le_mono1)
  then show ?case using unat_byte_less [of b] by simp
qed

lemma nat_of_be_of_nat: "nat_of_be (be_of_nat k n) = n mod 256 ^ k"
proof (induction k arbitrary: n)
  case 0
  then show ?case by simp
next
  case (Suc k)
  have "unat (of_nat (n mod 256) :: byte) = n mod 256"
    by (simp add: unat_of_nat)
  then show ?case
    using Suc by (simp add: mod_mult2_eq mult.commute)
qed

lemma be_of_nat_of_be: "be_of_nat (length bs) (nat_of_be bs) = bs"
proof (induction bs rule: rev_induct)
  case Nil
  then show ?case by simp
next
  case (snoc b bs)
  have "(nat_of_be bs * 256 + unat b) div 256 = nat_of_be bs"
    and "(nat_of_be bs * 256 + unat b) mod 256 = unat b"
    using unat_byte_less [of b] by simp_all
  then show ?case using snoc by simp
qed

lemma length_to_be_bytes [octet_simps]:
  "length (to_be_bytes (w :: 'a::len word)) = LENGTH('a) div 8"
  by (simp add: to_be_bytes_def)

lemma length_be16 [simp]: "length (to_be_bytes (w :: u16)) = 2"
  and length_be32 [simp]: "length (to_be_bytes (v :: u32)) = 4"
  and length_be128 [simp]: "length (to_be_bytes (u :: u128)) = 16"
  by (simp_all add: length_to_be_bytes)

lemma be16_pair: obtains a b where "to_be_bytes (w :: u16) = [a, b]"
proof -
  have "length (to_be_bytes w) = Suc (Suc 0)" by simp
  then show thesis using that by (auto simp only: length_Suc_conv length_0_conv)
qed

lemma from_to_be_bytes:
  assumes "8 dvd LENGTH('a::len)"
  shows "from_be_bytes (to_be_bytes (w :: 'a word)) = w"
proof -
  obtain k where k: "LENGTH('a) = 8 * k" using assms by (elim dvdE)
  have "(256::nat) ^ k = 2 ^ (8 * k)" by (simp add: power_mult)
  then have "unat w mod 256 ^ k = unat w" using unsigned_less [where ?'a = nat and w = w] k by simp
  then show ?thesis by (simp add: from_be_bytes_def to_be_bytes_def nat_of_be_of_nat k)
qed

lemma to_from_be_bytes:
  assumes "8 * length bs = LENGTH('a::len)"
  shows "to_be_bytes (from_be_bytes bs :: 'a word) = bs"
proof -
  have "nat_of_be bs < 2 ^ (8 * length bs)"
    using nat_of_be_less [of bs] by (simp add: power_mult)
  then have "unat (of_nat (nat_of_be bs) :: 'a word) = nat_of_be bs"
    using assms by (simp add: unat_of_nat)
  moreover have "LENGTH('a) div 8 = length bs" using assms by simp
  ultimately show ?thesis
    by (simp add: from_be_bytes_def to_be_bytes_def be_of_nat_of_be)
qed

lemma from_to_be16 [simp]: "from_be_bytes (to_be_bytes (w :: u16)) = w"
  and from_to_be32 [simp]: "from_be_bytes (to_be_bytes (v :: u32)) = v"
  and from_to_be128 [simp]: "from_be_bytes (to_be_bytes (u :: u128)) = u"
  by (simp_all add: from_to_be_bytes)

lemma length_octets [octet_simps]: "length (octets a) = (if is_ipv4 a then 4 else 16)"
  by (simp add: octets_def is_ipv4_def split: ip_addr.split)

lemma ip_le_simps [simp]:
  "V4 x \<le> V4 y \<longleftrightarrow> x \<le> y" "V6 u \<le> V6 v \<longleftrightarrow> u \<le> v" "V4 x \<le> V6 v" "\<not> V6 v \<le> V4 x"
  by (simp_all add: less_eq_ip_addr_def)

lemma is_ipv4_simps [simp]: "is_ipv4 (V4 x)" "\<not> is_ipv4 (V6 y)"
  by (simp_all add: is_ipv4_def)

lemma to_ascii_lowercase_idem [simp]:
  "to_ascii_lowercase (to_ascii_lowercase s) = to_ascii_lowercase s"
proof -
  have "ascii_lower (ascii_lower c) = ascii_lower c" for c
    by (simp add: ascii_lower_def Let_def)
  then show ?thesis by (simp add: to_ascii_lowercase_def)
qed

lemma of_char_ascii_lower:
  "(of_char (ascii_lower c) :: nat) = (if 65 \<le> (of_char c :: nat) \<and> (of_char c :: nat) \<le> 90
     then of_char c + 32 else of_char c)"
  by (simp add: ascii_lower_def Let_def of_char_of)

lemma ascii_lower_dot: "ascii_lower c = CHR ''.'' \<longleftrightarrow> c = CHR ''.''"
proof -
  have "ascii_lower c = CHR ''.'' \<longleftrightarrow> (of_char (ascii_lower c) :: nat) = of_char (CHR ''.'')"
    by (simp only: of_char_eq_iff)
  also have "\<dots> \<longleftrightarrow> (of_char c :: nat) = of_char (CHR ''.'')"
    by (simp add: of_char_ascii_lower)
  finally show ?thesis by (simp only: of_char_eq_iff)
qed

lemma map_of_filter_key [alist_simps]:
  "map_of (filter (\<lambda>e. fst e \<noteq> k) xs) = (map_of xs)(k := None)"
  by (induction xs) (auto simp: fun_eq_iff)

lemma distinct_fst_filter [alist_simps]:
  "distinct (map fst xs) \<Longrightarrow> distinct (map fst (filter P xs))"
  by (induction xs) (auto simp: image_iff)

lemma fst_set_filter_key [alist_simps]:
  "fst ` set (filter (\<lambda>e. fst e \<noteq> k) xs) = fst ` set xs - {k}"
  by (auto simp: image_iff)

lemma first_min_None [simp]: "first_min key xs = None \<longleftrightarrow> xs = []"
  by (cases xs) (auto split: option.splits)

lemma first_min_Some:
  assumes "first_min key xs = Some y"
  shows "y \<in> set xs \<and> (\<forall>x \<in> set xs. key y \<le> key x)"
  using assms
proof (induction xs arbitrary: y)
  case (Cons x xs)
  show ?case
  proof (cases "first_min key xs")
    case (Some z)
    have "y = (if key z < key x then z else x)" using Cons.prems Some by (auto split: if_splits)
    then show ?thesis using Cons.IH [OF Some] by fastforce
  qed (use Cons.prems in auto)
qed simp

end
