(* ===== verification/Persistence.thy ===== *)
theory Persistence
  imports Prelude
begin

text \<open>
  The on-disk cache of fake addresses, \<^verbatim>\<open>src/virtual_dns/persistence.rs\<close>: a header line and
  a journal of mapping lines.  The file system is an explicit store together with a
  script that says which of the coming operating-system calls fail, and how much a failing
  write still puts into the file; every theorem is for an arbitrary script.  The JSON
  codec is a third-party crate: its encoder and decoder are arguments, and
  \<^verbatim>\<open>json_codec\<close> is what the code relies on for the records it writes.
\<close>

section \<open>Files and operating-system calls\<close>

datatype fault = Fault (fault_kind: io_error_kind) (fault_written: nat)

record disk =
  files :: "string \<Rightarrow> string option"
  script :: "fault option list"

definition os_call :: "disk \<Rightarrow> fault option \<times> disk" where
  "os_call d = (case script d of [] \<Rightarrow> (None, d) | r # rs \<Rightarrow> (r, d\<lparr>script := rs\<rparr>))"

definition os_error :: "fault \<Rightarrow> io_error" where
  "os_error f = IoError (fault_kind f) ''os error''"

definition newline :: char where
  "newline = CHR 0x0A"

definition carriage_return :: char where
  "carriage_return = CHR 0x0D"

definition utf8_cont :: "nat \<Rightarrow> nat \<Rightarrow> char \<Rightarrow> bool" where
  "utf8_cont lo hi c = (lo \<le> (of_char c :: nat) \<and> of_char c \<le> hi)"

fun valid_utf8 :: "string \<Rightarrow> bool" where
  "valid_utf8 [] = True"
| "valid_utf8 (a # s) = (let n = (of_char a :: nat) in
     if n < 0x80 then valid_utf8 s
     else if 0xC2 \<le> n \<and> n \<le> 0xDF then
       (case s of b # t \<Rightarrow> utf8_cont 0x80 0xBF b \<and> valid_utf8 t | [] \<Rightarrow> False)
     else if 0xE0 \<le> n \<and> n \<le> 0xEF then
       (case s of b # c # t \<Rightarrow>
          utf8_cont (if n = 0xE0 then 0xA0 else 0x80) (if n = 0xED then 0x9F else 0xBF) b
          \<and> utf8_cont 0x80 0xBF c \<and> valid_utf8 t
        | _ \<Rightarrow> False)
     else if 0xF0 \<le> n \<and> n \<le> 0xF4 then
       (case s of b # c # e # t \<Rightarrow>
          utf8_cont (if n = 0xF0 then 0x90 else 0x80) (if n = 0xF4 then 0x8F else 0xBF) b
          \<and> utf8_cont 0x80 0xBF c \<and> utf8_cont 0x80 0xBF e \<and> valid_utf8 t
        | _ \<Rightarrow> False)
     else False)"

text \<open>
  \<^verbatim>\<open>BufRead::lines\<close>: a line ends at a line feed, which is dropped together with a carriage
  return before it; a last line without line feed is returned as it is.
\<close>

definition strip_cr :: "string \<Rightarrow> string" where
  "strip_cr l = (if ends_with carriage_return l then butlast l else l)"

definition line_item :: "string \<Rightarrow> string \<Rightarrow> string io_result" where
  "line_item raw l =
     (if valid_utf8 raw then Inr l else Inl (IoError InvalidData ''stream did not contain valid UTF-8''))"

function buf_lines :: "string \<Rightarrow> string io_result list" where
  "buf_lines s = (if s = [] then [] else
     let l = takeWhile (\<lambda>c. c \<noteq> newline) s in
     case dropWhile (\<lambda>c. c \<noteq> newline) s of
       [] \<Rightarrow> [line_item l l]
     | _ # rest \<Rightarrow> line_item l (strip_cr l) # buf_lines rest)"
  by pat_completeness auto
termination
proof (relation "measure length")
  fix s :: string and x rest
  assume "dropWhile (\<lambda>c. c \<noteq> newline) s = x # rest"
  then have "length (x # rest) \<le> length s"
    by (metis length_dropWhile_le)
  then show "(rest, s) \<in> measure length" by simp
qed simp

declare buf_lines.simps [simp del]

text \<open>The lines a reader gets when reading stops with an error after \<^verbatim>\<open>n\<close> octets.\<close>

definition complete_lines :: "string \<Rightarrow> string" where
  "complete_lines s = rev (dropWhile (\<lambda>c. c \<noteq> newline) (rev s))"

definition read_lines :: "string \<Rightarrow> disk \<Rightarrow> (string io_result list) io_result \<times> disk" where
  "read_lines path d = (case os_call d of
     (Some f, d1) \<Rightarrow> (Inl (os_error f), d1)
   | (None, d1) \<Rightarrow> (case files d1 path of
       None \<Rightarrow> (Inl (IoError NotFound ''os error''), d1)
     | Some text \<Rightarrow> (case os_call d1 of
         (None, d2) \<Rightarrow> (Inr (buf_lines text), d2)
       | (Some f, d2) \<Rightarrow>
           (Inr (buf_lines (complete_lines (take (fault_written f) text)) @ [Inl (os_error f)]), d2))))"

section \<open>Records and the cache\<close>

datatype cache_record =
    Header (hd_version: byte) (hd_network: ip_addr) (hd_broadcast: ip_addr) (hd_cursor: ip_addr)
  | Mapping (mp_ip: ip_addr) (mp_name: string)

datatype load_result =
    Missing
  | Incompatible
  | Loaded (ld_cursor: ip_addr) (ld_mappings: "(ip_addr \<times> string) list") (ld_repair: bool)

record persistent_cache =
  path :: string
  journal_records :: nat
  dirty :: bool

definition CACHE_VERSION :: byte where
  "CACHE_VERSION = 1"

definition COMPACT_STALE_RECORDS :: nat where
  "COMPACT_STALE_RECORDS = 1024"

definition cache_new :: "string \<Rightarrow> persistent_cache" where
  "cache_new p = \<lparr>path = p, journal_records = 0, dirty = False\<rparr>"

definition address_in_pool :: "ip_addr \<Rightarrow> ip_addr \<Rightarrow> ip_addr \<Rightarrow> bool" where
  "address_in_pool ip network broadcast =
     (is_ipv4 ip = is_ipv4 network \<and> ip \<ge> network \<and> ip \<le> broadcast)"

fun load_mappings ::
  "(string \<Rightarrow> cache_record option) \<Rightarrow> string io_result list \<Rightarrow> nat \<Rightarrow> bool \<Rightarrow> (ip_addr \<times> string) list
   \<Rightarrow> nat \<times> bool \<times> (ip_addr \<times> string) list" where
  "load_mappings dec [] n repair maps = (n, repair, maps)"
| "load_mappings dec (Inl e # ls) n repair maps = (n, True, maps)"
| "load_mappings dec (Inr l # ls) n repair maps =
     (if l = [] then load_mappings dec ls n True maps
      else case dec l of
        Some (Mapping ip name) \<Rightarrow>
          load_mappings dec ls (saturating_add n 1) repair (maps @ [(ip, name)])
      | _ \<Rightarrow> load_mappings dec ls n True maps)"

definition load ::
  "(string \<Rightarrow> cache_record option) \<Rightarrow> ip_addr \<Rightarrow> ip_addr \<Rightarrow> persistent_cache \<Rightarrow> disk
   \<Rightarrow> load_result result \<times> persistent_cache \<times> disk" where
  "load dec network broadcast pc0 d0 =
     (let pc = pc0\<lparr>journal_records := 0, dirty := False\<rparr> in
      case read_lines (path pc) d0 of
        (Inl e, d) \<Rightarrow> (if io_kind e = NotFound then Inr Missing else Inl (Io e), pc, d)
      | (Inr [], d) \<Rightarrow> (Inr Incompatible, pc, d)
      | (Inr (Inl e # _), d) \<Rightarrow> (Inr Incompatible, pc, d)
      | (Inr (Inr line # lines), d) \<Rightarrow>
          (case dec line of
             Some (Header version cached_network cached_broadcast cursor) \<Rightarrow>
               if version = CACHE_VERSION \<and> cached_network = network
                  \<and> cached_broadcast = broadcast \<and> address_in_pool cursor network broadcast
               then (case load_mappings dec lines 0 False [] of
                       (n, repair, maps) \<Rightarrow>
                         (Inr (Loaded cursor maps repair), pc\<lparr>journal_records := n\<rparr>, d))
               else (Inr Incompatible, pc, d)
           | _ \<Rightarrow> (Inr Incompatible, pc, d)))"

definition needs_rewrite :: "persistent_cache \<Rightarrow> disk \<Rightarrow> bool result \<times> disk" where
  "needs_rewrite pc d =
     (if dirty pc then (Inr True, d)
      else case os_call d of
        (Some f, d1) \<Rightarrow> (if fault_kind f = NotFound then Inr True else Inl (Io (os_error f)), d1)
      | (None, d1) \<Rightarrow> (case files d1 (path pc) of
          None \<Rightarrow> (Inr True, d1)
        | Some text \<Rightarrow> (Inr (length text = 0), d1)))"

definition write_cache_record :: "(cache_record \<Rightarrow> string) \<Rightarrow> cache_record \<Rightarrow> string" where
  "write_cache_record enc r = enc r @ [newline]"

definition append_mapping ::
  "(cache_record \<Rightarrow> string) \<Rightarrow> ip_addr \<Rightarrow> string \<Rightarrow> persistent_cache \<Rightarrow> disk
   \<Rightarrow> unit result \<times> persistent_cache \<times> disk" where
  "append_mapping enc ip name pc d0 = (case os_call d0 of
     (Some f, d) \<Rightarrow> (Inl (Io (os_error f)), pc, d)
   | (None, d) \<Rightarrow>
       (let old = (case files d (path pc) of None \<Rightarrow> [] | Some t \<Rightarrow> t);
            line = write_cache_record enc (Mapping ip name) in
        case os_call d of
          (Some f, d1) \<Rightarrow>
            (if fault_written f < length (enc (Mapping ip name))
             then Inl (StringError ''os error'') else Inl (Io (os_error f)),
             pc, d1\<lparr>files := (files d1)(path pc \<mapsto> old @ take (fault_written f) (butlast line))\<rparr>)
        | (None, d1) \<Rightarrow>
            (Inr (), pc\<lparr>journal_records := saturating_add (journal_records pc) 1, dirty := False\<rparr>,
             d1\<lparr>files := (files d1)(path pc \<mapsto> old @ line)\<rparr>)))"

definition should_compact :: "nat \<Rightarrow> persistent_cache \<Rightarrow> bool" where
  "should_compact live pc =
     (journal_records pc - live \<ge> COMPACT_STALE_RECORDS
      \<and> journal_records pc \<ge> saturating_mul live 2)"

definition temporary_path :: "string \<Rightarrow> string" where
  "temporary_path p = p @ ''.tmp''"

text \<open>\<^verbatim>\<open>windows\<close> says whether the Windows variant is compiled, which first removes the destination.\<close>

definition replace_file :: "bool \<Rightarrow> string \<Rightarrow> string \<Rightarrow> disk \<Rightarrow> unit io_result \<times> disk" where
  "replace_file windows temporary destination d0 =
     (let rename = (\<lambda>d. case os_call d of
            (Some f, d1) \<Rightarrow> (Inl (os_error f), d1)
          | (None, d1) \<Rightarrow> (case files d1 temporary of
              None \<Rightarrow> (Inl (IoError NotFound ''os error''), d1)
            | Some t \<Rightarrow> (Inr (), d1\<lparr>files := (files d1)(destination \<mapsto> t, temporary := None)\<rparr>)))
      in if windows \<and> files d0 destination \<noteq> None
         then (case os_call d0 of
                 (Some f, d1) \<Rightarrow> (Inl (os_error f), d1)
               | (None, d1) \<Rightarrow> rename (d1\<lparr>files := (files d1)(destination := None)\<rparr>))
         else rename d0)"

definition cache_text ::
  "(cache_record \<Rightarrow> string) \<Rightarrow> ip_addr \<Rightarrow> ip_addr \<Rightarrow> ip_addr \<Rightarrow> (ip_addr \<times> string) list \<Rightarrow> string" where
  "cache_text enc network broadcast cursor maps =
     write_cache_record enc (Header CACHE_VERSION network broadcast cursor)
     @ concat (map (\<lambda>(ip, name). write_cache_record enc (Mapping ip name)) maps)"

definition rewrite ::
  "bool \<Rightarrow> (cache_record \<Rightarrow> string) \<Rightarrow> ip_addr \<Rightarrow> ip_addr \<Rightarrow> ip_addr \<Rightarrow> (ip_addr \<times> string) list
   \<Rightarrow> persistent_cache \<Rightarrow> disk \<Rightarrow> unit result \<times> persistent_cache \<times> disk" where
  "rewrite windows enc network broadcast cursor maps pc d0 = (case os_call d0 of
     (Some f, d1) \<Rightarrow> (Inl (Io (os_error f)), pc, d1)
   | (None, d1) \<Rightarrow> (case os_call d1 of
       (Some f, d2) \<Rightarrow> (Inl (Io (os_error f)), pc, d2)
     | (None, d2) \<Rightarrow>
         (let temporary = temporary_path (path pc);
              text = cache_text enc network broadcast cursor maps in
          case os_call d2 of
            (Some f, d3) \<Rightarrow>
              (Inl (Io (os_error f)), pc,
               d3\<lparr>files := (files d3)(temporary \<mapsto> take (fault_written f) text)\<rparr>)
          | (None, d3) \<Rightarrow>
              (case replace_file windows temporary (path pc)
                      (d3\<lparr>files := (files d3)(temporary \<mapsto> text)\<rparr>) of
                 (Inl e, d4) \<Rightarrow> (Inl (Io e), pc, d4)
               | (Inr _, d4) \<Rightarrow>
                   (Inr (),
                    pc\<lparr>journal_records := foldl (\<lambda>n _. saturating_add n 1) 0 maps, dirty := False\<rparr>,
                    d4)))))"

definition is_dirty :: "persistent_cache \<Rightarrow> bool" where
  "is_dirty pc = dirty pc"

definition mark_dirty :: "persistent_cache \<Rightarrow> persistent_cache" where
  "mark_dirty pc = pc\<lparr>dirty := True\<rparr>"

text \<open>
  What the code relies on of the JSON codec, for the records \<^verbatim>\<open>R\<close> that are written: a record
  is read back, its text is one non-empty line of UTF-8, and a truncated text is no record.
\<close>

definition json_codec ::
  "(cache_record \<Rightarrow> string) \<Rightarrow> (string \<Rightarrow> cache_record option) \<Rightarrow> cache_record set \<Rightarrow> bool" where
  "json_codec enc dec R = (\<forall>r\<in>R. dec (enc r) = Some r \<and> enc r \<noteq> [] \<and> newline \<notin> set (enc r)
      \<and> \<not> ends_with carriage_return (enc r) \<and> valid_utf8 (enc r)
      \<and> (\<forall>n\<in>set [0..<length (enc r)]. dec (take n (enc r)) = None))"

definition cache_records ::
  "ip_addr \<Rightarrow> ip_addr \<Rightarrow> ip_addr \<Rightarrow> (ip_addr \<times> string) list \<Rightarrow> cache_record list" where
  "cache_records network broadcast cursor maps =
     Header CACHE_VERSION network broadcast cursor # map (\<lambda>(ip, name). Mapping ip name) maps"

definition journal_count :: "nat \<Rightarrow> (ip_addr \<times> string) list \<Rightarrow> nat" where
  "journal_count n maps = foldl (\<lambda>n _. saturating_add n 1) n maps"

text \<open>A small codec and disk on which the theorems below are instantiated.\<close>

definition demo_enc :: "cache_record \<Rightarrow> string" where
  "demo_enc r = (case r of Header _ _ _ _ \<Rightarrow> ''{H}'' | Mapping _ _ \<Rightarrow> ''{M}'')"

definition demo_dec :: "string \<Rightarrow> cache_record option" where
  "demo_dec s = (if s = ''{H}'' then Some (Header 1 (V4 16) (V4 31) (V4 24))
     else if s = ''{M}'' then Some (Mapping (V4 24) ''a.example'') else None)"

definition demo_disk :: "string option \<Rightarrow> fault option list \<Rightarrow> disk" where
  "demo_disk content faults =
     \<lparr>files = (\<lambda>p. if p = ''cache'' then content else None), script = faults\<rparr>"

section \<open>Reading back what was written\<close>

lemma takeWhile_line: "newline \<notin> set l \<Longrightarrow> takeWhile (\<lambda>c. c \<noteq> newline) (l @ newline # rest) = l"
  and dropWhile_line: "newline \<notin> set l \<Longrightarrow> dropWhile (\<lambda>c. c \<noteq> newline) (l @ newline # rest) = newline # rest"
  by (induction l) auto

lemma buf_lines_line:
  assumes "newline \<notin> set l"
  shows "buf_lines (l @ newline # rest) = line_item l (strip_cr l) # buf_lines rest"
  using takeWhile_line [OF assms, of rest] dropWhile_line [OF assms, of rest]
  by (subst buf_lines.simps) simp

lemma buf_lines_Nil [simp]: "buf_lines [] = []"
  by (subst buf_lines.simps) simp

lemma buf_lines_last:
  assumes "newline \<notin> set l"
  shows "buf_lines l = (if l = [] then [] else [line_item l l])"
proof -
  have "takeWhile (\<lambda>c. c \<noteq> newline) l = l" "dropWhile (\<lambda>c. c \<noteq> newline) l = []"
    using assms by (auto simp: takeWhile_eq_all_conv dropWhile_eq_Nil_conv)
  then show ?thesis by (subst buf_lines.simps) (simp only: Let_def list.case)
qed

lemma json_codecD:
  assumes "json_codec enc dec R" "r \<in> R"
  shows "dec (enc r) = Some r" "enc r \<noteq> []" "newline \<notin> set (enc r)"
    "\<not> ends_with carriage_return (enc r)" "valid_utf8 (enc r)"
    "n < length (enc r) \<Longrightarrow> dec (take n (enc r)) = None"
  using assms by (auto simp: json_codec_def)

lemma buf_lines_records:
  assumes "json_codec enc dec (set rs)"
  shows "buf_lines (concat (map (write_cache_record enc) rs) @ rest)
           = map (\<lambda>r. Inr (enc r)) rs @ buf_lines rest"
  using assms
proof (induction rs)
  case Nil
  then show ?case by simp
next
  case (Cons r rs)
  then have IH: "buf_lines (concat (map (write_cache_record enc) rs) @ rest)
                  = map (\<lambda>r. Inr (enc r)) rs @ buf_lines rest"
    by (auto simp: json_codec_def)
  note r = json_codecD [OF Cons.prems, of r]
  have "line_item (enc r) (strip_cr (enc r)) = Inr (enc r)"
    using r by (simp add: line_item_def strip_cr_def)
  then show ?case
    using r IH by (simp add: write_cache_record_def [of enc r] buf_lines_line)
qed

lemma cache_text_records:
  "cache_text enc network broadcast cursor maps
     = concat (map (write_cache_record enc) (cache_records network broadcast cursor maps))"
  by (simp add: cache_text_def cache_records_def o_def case_prod_unfold)

lemma cache_text_append:
  "cache_text enc network broadcast cursor (maps @ [(ip, name)])
     = cache_text enc network broadcast cursor maps @ write_cache_record enc (Mapping ip name)"
  by (simp add: cache_text_def)

lemma load_mappings_records:
  assumes "json_codec enc dec (set (map (\<lambda>(ip, name). Mapping ip name) maps))"
  shows "load_mappings dec (map (\<lambda>r. Inr (enc r)) (map (\<lambda>(ip, name). Mapping ip name) maps) @ ls)
            n repair acc = load_mappings dec ls (journal_count n maps) repair (acc @ maps)"
  using assms
proof (induction maps arbitrary: n acc)
  case Nil
  then show ?case by (simp add: journal_count_def)
next
  case (Cons m maps)
  obtain ip name where m: "m = (ip, name)" by (cases m)
  have codec: "dec (enc (Mapping ip name)) = Some (Mapping ip name)" "enc (Mapping ip name) \<noteq> []"
    using json_codecD [OF Cons.prems(1), of "Mapping ip name"] by (simp_all add: m)
  have "json_codec enc dec (set (map (\<lambda>(ip, name). Mapping ip name) maps))"
    using Cons.prems(1) by (simp add: json_codec_def)
  then show ?case
    using Cons.IH [of "saturating_add n 1" "acc @ [m]"] codec
    by (simp add: m journal_count_def)
qed

lemma json_codec_subset: "json_codec enc dec R \<Longrightarrow> S \<subseteq> R \<Longrightarrow> json_codec enc dec S"
  by (auto simp: json_codec_def)

lemma load_records:
  assumes codec: "json_codec enc dec (set (cache_records network broadcast cursor maps))"
    and pool: "address_in_pool cursor network broadcast"
    and content: "files d (path pc) = Some (cache_text enc network broadcast cursor maps @ rest)"
    and quiet: "script d = []"
    and rest: "load_mappings dec (buf_lines rest) (journal_count 0 maps) False maps = (n, repair, all)"
  shows "load dec network broadcast pc d
           = (Inr (Loaded cursor all repair), pc\<lparr>journal_records := n, dirty := False\<rparr>, d)"
proof -
  let ?ms = "map (\<lambda>(ip, name). Mapping ip name) maps"
  have lines: "buf_lines (cache_text enc network broadcast cursor maps @ rest)
     = Inr (enc (Header CACHE_VERSION network broadcast cursor))
       # (map (\<lambda>r. Inr (enc r)) ?ms @ buf_lines rest)"
    using buf_lines_records [OF codec, of rest] by (simp add: cache_text_records cache_records_def)
  have "json_codec enc dec (set ?ms)"
    using codec by (rule json_codec_subset) (auto simp: cache_records_def)
  note body = load_mappings_records [OF this, where n = 0 and repair = False and acc = "[]"
      and ls = "buf_lines rest"]
  have hd: "dec (enc (Header CACHE_VERSION network broadcast cursor))
             = Some (Header CACHE_VERSION network broadcast cursor)"
    using json_codecD(1) [OF codec] by (simp add: cache_records_def)
  have "read_lines (path pc) d = (Inr (Inr (enc (Header CACHE_VERSION network broadcast cursor))
            # (map (\<lambda>r. Inr (enc r)) ?ms @ buf_lines rest)), d)"
    using content quiet lines by (simp add: read_lines_def os_call_def)
  then show ?thesis
    using pool body rest hd by (simp add: load_def)
qed

lemma load_mappings_truncated:
  assumes codec: "json_codec enc dec {r}" and r: "r = Mapping ip name" and n: "n \<le> length (enc r)"
  shows "load_mappings dec (buf_lines (take n (enc r))) m False maps =
    (if n = length (enc r) then (saturating_add m 1, False, maps @ [(ip, name)]) else (m, n \<noteq> 0, maps))"
proof -
  note c = json_codecD [OF codec, of r]
  have "newline \<notin> set (take n (enc r))" using c(3) by (auto dest: in_set_takeD)
  note lines = buf_lines_last [OF this]
  show ?thesis
  proof (cases "n = length (enc r)")
    case True
    then show ?thesis using c lines r by (simp add: line_item_def)
  next
    case False
    then have "dec (take n (enc r)) = None" using c n by simp
    then show ?thesis using False c(2) lines n by (simp add: line_item_def)
  qed
qed

lemma temporary_path_neq [simp]: "temporary_path p \<noteq> p" "p \<noteq> temporary_path p"
  by (simp_all add: temporary_path_def)

lemma files_os_call [simp]: "files (snd (os_call d)) = files d"
  by (simp add: os_call_def split: list.split)

lemma os_call_files: "os_call d = (r, d') \<Longrightarrow> files d' = files d"
  using files_os_call [of d] by simp

lemma replace_file_destination:
  assumes "replace_file windows temporary destination d = (r, d')" "temporary \<noteq> destination"
    and "files d temporary = Some t"
  shows "case r of Inr _ \<Rightarrow> files d' destination = Some t
         | Inl _ \<Rightarrow> files d' destination = files d destination
                   \<or> windows \<and> files d' destination = None"
  using assms
  by (auto simp: replace_file_def Let_def dest!: os_call_files split: if_splits prod.splits option.splits)

lemma rewrite_cases:
  assumes "rewrite windows enc network broadcast cursor maps pc d = (r, pc', d')"
  shows "case r of
      Inr _ \<Rightarrow> files d' (path pc) = Some (cache_text enc network broadcast cursor maps)
               \<and> path pc' = path pc \<and> \<not> dirty pc'
               \<and> journal_records pc' = journal_count 0 maps
    | Inl _ \<Rightarrow> pc' = pc \<and> (files d' (path pc) = files d (path pc)
                          \<or> windows \<and> files d' (path pc) = None)"
  using assms
  by (auto simp: rewrite_def journal_count_def Let_def dest!: os_call_files replace_file_destination
      split: prod.splits option.splits sum.splits)

lemma append_mapping_cases:
  assumes "append_mapping enc ip name pc d = (r, pc', d')" "files d (path pc) = Some old"
  shows "case r of
      Inr _ \<Rightarrow> files d' (path pc) = Some (old @ write_cache_record enc (Mapping ip name))
               \<and> path pc' = path pc \<and> \<not> dirty pc'
               \<and> journal_records pc' = saturating_add (journal_records pc) 1
    | Inl _ \<Rightarrow> pc' = pc \<and> (\<exists>n \<le> length (enc (Mapping ip name)).
                 files d' (path pc) = Some (old @ take n (enc (Mapping ip name))))"
proof -
  have cut: "\<exists>m \<le> length e. take n e = take m e" for n and e :: string
    by (metis nle_le take_all_iff)
  have whole: "\<exists>m \<le> length e. e = take m e" for e :: string
    by (rule exI [of _ "length e"]) simp
  have none: "\<exists>n \<le> length e. t = t @ take n e" for t e :: string
    by (rule exI [of _ 0]) simp
  show ?thesis
    using assms cut whole none
    by (auto simp: append_mapping_def write_cache_record_def Let_def dest!: os_call_files
        split: prod.splits option.splits if_splits)
qed

section \<open>Properties of the journal file\<close>

text \<open>
  A cache written by \<^verbatim>\<open>rewrite\<close> is read back exactly: whenever the rewrite reports success,
  whatever else went wrong before, \<^verbatim>\<open>load\<close> for the same pool returns the allocation cursor and
  the mappings in order, without asking for a repair, and the record count that
  \<^verbatim>\<open>should_compact\<close> uses is the one the writer has.
\<close>

theorem rewrite_then_load:
  assumes codec: "json_codec enc dec (set (cache_records network broadcast cursor maps))"
    and pool: "address_in_pool cursor network broadcast"
    and ok: "rewrite windows enc network broadcast cursor maps pc d = (Inr (), pc', d')"
  shows "load dec network broadcast pc' (d'\<lparr>script := []\<rparr>)
           = (Inr (Loaded cursor maps False), pc', d'\<lparr>script := []\<rparr>)"
proof -
  note r = rewrite_cases [OF ok, simplified]
  have "load_mappings dec (buf_lines []) (journal_count 0 maps) False maps
      = (journal_count 0 maps, False, maps)" by simp
  from load_records [OF codec pool _ _ this, of "d'\<lparr>script := []\<rparr>" pc'] r
  have "load dec network broadcast pc' (d'\<lparr>script := []\<rparr>)
     = (Inr (Loaded cursor maps False), pc'\<lparr>journal_records := journal_count 0 maps, dirty := False\<rparr>,
        d'\<lparr>script := []\<rparr>)"
    by simp
  moreover have "pc'\<lparr>journal_records := journal_count 0 maps, dirty := False\<rparr> = pc'"
    using r by (cases pc') simp
  ultimately show ?thesis by simp
qed

lemma demo_codec:
  "json_codec demo_enc demo_dec
     (set (cache_records (V4 16) (V4 31) (V4 24) [(V4 24, ''a.example'')]))"
  by code_simp

theorem rewrite_then_load_witness:
  "case rewrite True demo_enc (V4 16) (V4 31) (V4 24) [(V4 24, ''a.example'')] (cache_new ''cache'')
          (demo_disk (Some ''stale'') []) of (r, pc, d) \<Rightarrow>
     r = Inr () \<and> load demo_dec (V4 16) (V4 31) pc (d\<lparr>script := []\<rparr>)
        = (Inr (Loaded (V4 24) [(V4 24, ''a.example'')] False), pc, d\<lparr>script := []\<rparr>)"
proof -
  obtain r pc d where rw: "rewrite True demo_enc (V4 16) (V4 31) (V4 24) [(V4 24, ''a.example'')]
      (cache_new ''cache'') (demo_disk (Some ''stale'') []) = (r, pc, d)"
    by (metis prod_cases3)
  then have r: "r = Inr ()"
    by (auto simp: rewrite_def demo_disk_def os_call_def replace_file_def cache_new_def
        temporary_path_def Let_def)
  have "address_in_pool (V4 24) (V4 16) (V4 31)" by (simp add: address_in_pool_def)
  then show ?thesis
    using rewrite_then_load [OF demo_codec _ rw [unfolded r]] rw r by simp
qed

text \<open>
  C38. An append that is interrupted at any octet never loses a recorded mapping: after
  \<^verbatim>\<open>append_mapping\<close> on a journal with the mappings \<^verbatim>\<open>maps\<close>, the next \<^verbatim>\<open>load\<close> returns \<^verbatim>\<open>maps\<close>, with
  the new mapping when the append reported success, and either without it or, when only
  the final line feed is missing, with it when the append failed.
\<close>

theorem append_then_load:
  assumes codec: "json_codec enc dec
            (set (cache_records network broadcast cursor (maps @ [(ip, name)])))"
    and pool: "address_in_pool cursor network broadcast"
    and content: "files d (path pc) = Some (cache_text enc network broadcast cursor maps)"
    and app: "append_mapping enc ip name pc d = (r, pc', d')"
  shows "\<exists>all repair pc''. load dec network broadcast pc' (d'\<lparr>script := []\<rparr>)
             = (Inr (Loaded cursor all repair), pc'', d'\<lparr>script := []\<rparr>)
           \<and> (case r of Inr _ \<Rightarrow> all = maps @ [(ip, name)] \<and> \<not> repair
              | Inl _ \<Rightarrow> all = maps \<or> all = maps @ [(ip, name)])"
proof (cases r)
  case (Inr u)
  from append_mapping_cases [OF app content] Inr
  have f: "files d' (path pc') = Some (cache_text enc network broadcast cursor (maps @ [(ip, name)]))"
    by (simp add: cache_text_append)
  have "load_mappings dec (buf_lines []) (journal_count 0 (maps @ [(ip, name)])) False
      (maps @ [(ip, name)]) = (journal_count 0 (maps @ [(ip, name)]), False, maps @ [(ip, name)])"
    by simp
  from load_records [OF codec pool _ _ this, of "d'\<lparr>script := []\<rparr>" pc'] f Inr
  show ?thesis by auto
next
  case (Inl e)
  from append_mapping_cases [OF app content] Inl obtain n where
    n: "n \<le> length (enc (Mapping ip name))" and pc': "pc' = pc" and
    f: "files d' (path pc) = Some (cache_text enc network broadcast cursor maps
                                    @ take n (enc (Mapping ip name)))" by auto
  have old: "json_codec enc dec (set (cache_records network broadcast cursor maps))"
    and new: "json_codec enc dec {Mapping ip name}"
    using codec by (auto elim!: json_codec_subset simp: cache_records_def)
  show ?thesis
    using load_mappings_truncated [OF new refl n, of "journal_count 0 maps" maps] f Inl pc'
      load_records [OF old pool, of "d'\<lparr>script := []\<rparr>" pc "take n (enc (Mapping ip name))"]
    by (cases "n = length (enc (Mapping ip name))") auto
qed

theorem append_then_load_witness:
  "case append_mapping demo_enc (V4 24) ''a.example'' (cache_new ''cache'')
          (demo_disk (Some (cache_text demo_enc (V4 16) (V4 31) (V4 24) []))
             [None, Some (Fault OtherKind 2)]) of (r, pc, d) \<Rightarrow>
     r \<noteq> Inr () \<and> (\<exists>all repair pc'. load demo_dec (V4 16) (V4 31) pc (d\<lparr>script := []\<rparr>)
          = (Inr (Loaded (V4 24) all repair), pc', d\<lparr>script := []\<rparr>)
        \<and> (all = [] \<or> all = [(V4 24, ''a.example'')]))"
proof -
  let ?d = "demo_disk (Some (cache_text demo_enc (V4 16) (V4 31) (V4 24) []))
              [None, Some (Fault OtherKind 2)]"
  obtain r pc d where ap: "append_mapping demo_enc (V4 24) ''a.example'' (cache_new ''cache'') ?d
      = (r, pc, d)" by (metis prod_cases3)
  then have r: "r = Inl (StringError ''os error'')"
    by (auto simp: append_mapping_def demo_disk_def os_call_def demo_enc_def Let_def)
  have f: "files ?d (path (cache_new ''cache'')) = Some (cache_text demo_enc (V4 16) (V4 31) (V4 24) [])"
    by (simp add: demo_disk_def cache_new_def)
  have "address_in_pool (V4 24) (V4 16) (V4 31)" by (simp add: address_in_pool_def)
  then show ?thesis
    using append_then_load [OF _ _ f ap, of demo_dec] demo_codec ap r by simp
qed

text \<open>
  Replacing the journal is atomic where the platform renames over the old file: unless
  \<^verbatim>\<open>rewrite\<close> reports success, the journal is exactly the old one and the in-memory counters
  are untouched, at whichever call the failure happens.
\<close>

theorem rewrite_failure_atomic:
  assumes "rewrite False enc network broadcast cursor maps pc d = (Inl e, pc', d')"
  shows "pc' = pc \<and> files d' (path pc) = files d (path pc)"
  using rewrite_cases [OF assms] by simp

theorem rewrite_failure_atomic_witness:
  "case rewrite False demo_enc (V4 16) (V4 31) (V4 24) [(V4 24, ''a.example'')] (cache_new ''cache'')
          (demo_disk (Some ''old'') [None, None, Some (Fault OtherKind 2)]) of (r, pc, d) \<Rightarrow>
     r \<noteq> Inr () \<and> pc = cache_new ''cache'' \<and> files d ''cache'' = Some ''old''"
proof -
  let ?d = "demo_disk (Some ''old'') [None, None, Some (Fault OtherKind 2)]"
  obtain r pc d where rw: "rewrite False demo_enc (V4 16) (V4 31) (V4 24) [(V4 24, ''a.example'')]
      (cache_new ''cache'') ?d = (r, pc, d)" by (metis prod_cases3)
  then have r: "r = Inl (Io (os_error (Fault OtherKind 2)))"
    by (auto simp: rewrite_def demo_disk_def os_call_def Let_def)
  show ?thesis
    using rewrite_failure_atomic [OF rw [unfolded r]] rw r
    by (simp add: cache_new_def demo_disk_def)
qed

end
