(* ===== verification/Dns.thy ===== *)
theory Dns
  imports Prelude
begin

text \<open>
  DNS messages as the proxy handles them, \<^verbatim>\<open>src/dns.rs\<close>: validation of queries and replies, the
  synthetic answer of the virtual resolver, following CNAME chains in an answer, and the
  two-octet framing of DNS over TCP.  The message codec and the operations on domain names
  belong to a third-party crate.  They are the fields of the argument \<^verbatim>\<open>H\<close> of type
  \<^verbatim>\<open>hickory\<close>; the message records below have the public fields the sources read and write.
\<close>

section \<open>Messages\<close>

datatype record_type = TypeA | TypeAAAA | TypeCNAME | TypeOther u16

datatype 'n rdata = RData_A u32 | RData_AAAA u128 | RData_CNAME 'n | RData_Other bytes

datatype message_type = QueryMessage | ResponseMessage

datatype op_code = OpQuery | OpOther byte

datatype response_code = NoError | FormErr | ServFail | NXDomain | NotImp | Refused | OtherCode u16

record 'n query =
  q_name :: 'n
  q_type :: record_type
  q_class :: u16

record 'n dns_record =
  r_name :: 'n
  r_class :: u16
  r_ttl :: u32
  r_data :: "'n rdata"

record 'n message =
  msg_id :: u16
  message_type :: message_type
  op_code :: op_code
  authoritative :: bool
  truncation :: bool
  recursion_desired :: bool
  recursion_available :: bool
  authentic_data :: bool
  response_code :: response_code
  queries :: "'n query list"
  answers :: "'n dns_record list"
  authorities :: "'n dns_record list"
  additionals :: "'n dns_record list"
  signature :: "'n dns_record option"

record 'n hickory =
  from_vec :: "bytes \<Rightarrow> string + 'n message"
  to_vec :: "'n message \<Rightarrow> error + bytes"
  into_response :: "'n message \<Rightarrow> 'n message"
  eq_ignore_root :: "'n \<Rightarrow> 'n \<Rightarrow> bool"
  to_ascii :: "'n \<Rightarrow> string"

datatype address_lookup = Address ip_addr | Cname string

definition DNS_TCP_PREFIX_SIZE :: nat where
  "DNS_TCP_PREFIX_SIZE = 2"

definition MAX_CNAME_DEPTH :: nat where
  "MAX_CNAME_DEPTH = 8"

section \<open>Queries and responses\<close>

definition validate_dns_query :: "'n message \<Rightarrow> string + 'n query" where
  "validate_dns_query m =
     (if message_type m \<noteq> QueryMessage then Inl ''DNS request is not a query''
      else if op_code m \<noteq> OpQuery then Inl ''unsupported DNS opcode''
      else if length (queries m) \<noteq> 1
        then Inl ''DNS request must contain exactly one question''
      else Inr (queries m ! 0))"

definition names_equal :: "'n hickory \<Rightarrow> 'n \<Rightarrow> 'n \<Rightarrow> bool" where
  "names_equal H left right = eq_ignore_root H left right"

definition validate_dns_response ::
  "'n hickory \<Rightarrow> 'n message \<Rightarrow> u16 \<Rightarrow> 'n query \<Rightarrow> string + unit" where
  "validate_dns_response H m request_id expected =
     (if message_type m \<noteq> ResponseMessage then Inl ''DNS reply has the query bit set''
      else if op_code m \<noteq> OpQuery then Inl ''DNS reply has unexpected opcode''
      else if msg_id m \<noteq> request_id then Inl ''DNS response ID mismatch''
      else case queries m of
        [] \<Rightarrow> Inl ''DNS response has no question''
      | actual # _ \<Rightarrow>
          if length (queries m) \<noteq> 1 \<or> \<not> names_equal H (q_name actual) (q_name expected)
             \<or> q_type actual \<noteq> q_type expected \<or> q_class actual \<noteq> q_class expected
          then Inl ''DNS response question does not match the request''
          else Inr ())"

definition CLASS_IN :: u16 where
  "CLASS_IN = 1"

definition answer_record :: "'n query \<Rightarrow> ip_addr option \<Rightarrow> u32 \<Rightarrow> 'n dns_record option" where
  "answer_record q ip ttl = map_option (\<lambda>r. r\<lparr>r_class := q_class q\<rparr>)
     (case (q_type q, ip) of
        (TypeA, Some (V4 a)) \<Rightarrow>
          Some \<lparr>r_name = q_name q, r_class = CLASS_IN, r_ttl = ttl, r_data = RData_A a\<rparr>
      | (TypeAAAA, Some (V6 a)) \<Rightarrow>
          Some \<lparr>r_name = q_name q, r_class = CLASS_IN, r_ttl = ttl, r_data = RData_AAAA a\<rparr>
      | _ \<Rightarrow> None)"

definition build_dns_response ::
  "'n hickory \<Rightarrow> 'n message \<Rightarrow> ip_addr option \<Rightarrow> u32 \<Rightarrow> string + 'n message" where
  "build_dns_response H request ip ttl = rbind (validate_dns_query request) (\<lambda>q.
     let m = (into_response H request)\<lparr>
               authoritative := False, truncation := False, recursion_available := True,
               authentic_data := False, response_code := NoError,
               answers := [], authorities := [], additionals := [], signature := None\<rparr>
     in Inr (case answer_record q ip ttl of
               Some r \<Rightarrow> m\<lparr>answers := answers m @ [r]\<rparr>
             | None \<Rightarrow> m))"

definition is_AAAA :: "'n dns_record \<Rightarrow> bool" where
  "is_AAAA r = (case r_data r of RData_AAAA _ \<Rightarrow> True | _ \<Rightarrow> False)"

definition remove_ipv6_entries :: "'n message \<Rightarrow> 'n message" where
  "remove_ipv6_entries m = m\<lparr>
     answers := filter (\<lambda>r. \<not> is_AAAA r) (answers m),
     authorities := filter (\<lambda>r. \<not> is_AAAA r) (authorities m),
     additionals := filter (\<lambda>r. \<not> is_AAAA r) (additionals m),
     authentic_data := False, signature := None\<rparr>"

section \<open>Addresses in an answer\<close>

text \<open>
  The inner loop over the answers of one owner name: an address of the wanted family is
  returned at once (\<^verbatim>\<open>Inl\<close>), otherwise the last CNAME seen is the result.
\<close>

fun scan_answers :: "bool \<Rightarrow> 'n dns_record list \<Rightarrow> 'n option \<Rightarrow> ip_addr + 'n option" where
  "scan_answers want_ipv6 [] cname = Inr cname"
| "scan_answers want_ipv6 (r # rs) cname = (case r_data r of
     RData_A a \<Rightarrow> if \<not> want_ipv6 then Inl (V4 a) else scan_answers want_ipv6 rs cname
   | RData_AAAA a \<Rightarrow> if want_ipv6 then Inl (V6 a) else scan_answers want_ipv6 rs cname
   | RData_CNAME n \<Rightarrow> scan_answers want_ipv6 rs (Some n)
   | RData_Other _ \<Rightarrow> scan_answers want_ipv6 rs cname)"

fun follow_cnames ::
  "'n hickory \<Rightarrow> 'n message \<Rightarrow> 'n query \<Rightarrow> nat \<Rightarrow> 'n \<Rightarrow> bool \<Rightarrow> string + address_lookup" where
  "follow_cnames H m q 0 current followed =
     Inl (''DNS CNAME chain exceeded 8 records: '' @ to_ascii H (q_name q))"
| "follow_cnames H m q (Suc n) current followed =
     (case scan_answers (q_type q = TypeAAAA)
             (filter (\<lambda>r. names_equal H (r_name r) current) (answers m)) None of
        Inl ip \<Rightarrow> Inr (Address ip)
      | Inr (Some name) \<Rightarrow>
          if names_equal H name current
          then Inl (''DNS CNAME loop at '' @ to_ascii H current)
          else follow_cnames H m q n name True
      | Inr None \<Rightarrow>
          if followed then Inr (Cname (to_ascii H current))
          else Inl (''DNS response contained no address for '' @ to_ascii H current))"

definition extract_address_or_cname ::
  "'n hickory \<Rightarrow> 'n message \<Rightarrow> 'n query \<Rightarrow> string + address_lookup" where
  "extract_address_or_cname H m q =
     (if response_code m \<noteq> NoError then Inl ''response code''
      else follow_cnames H m q MAX_CNAME_DEPTH (q_name q) False)"

definition extract_ipaddr_from_dns_message :: "'n hickory \<Rightarrow> 'n message \<Rightarrow> string + ip_addr" where
  "extract_ipaddr_from_dns_message H m = (case queries m of
     [] \<Rightarrow> Inl ''DNS response has no question''
   | q # _ \<Rightarrow> rbind (extract_address_or_cname H m q) (\<lambda>l.
       case l of Address ip \<Rightarrow> Inr ip | Cname name \<Rightarrow> Inl name))"

definition extract_domain_from_dns_message :: "'n hickory \<Rightarrow> 'n message \<Rightarrow> string + string" where
  "extract_domain_from_dns_message H m = (case queries m of
     [] \<Rightarrow> Inl ''DnsRequest no query body''
   | q # _ \<Rightarrow> Inr (to_ascii H (q_name q)))"

section \<open>Octets and frames\<close>

definition parse_data_to_dns_message ::
  "'n hickory \<Rightarrow> bytes \<Rightarrow> bool \<Rightarrow> string + 'n message" where
  "parse_data_to_dns_message H data used_by_tcp =
     (if used_by_tcp then
        if length data < DNS_TCP_PREFIX_SIZE then Inl ''invalid dns data''
        else if length data \<noteq> nat_of_be [data ! 0, data ! 1] + DNS_TCP_PREFIX_SIZE
          then Inl ''DNS-over-TCP frame length mismatch''
        else from_vec H (drop DNS_TCP_PREFIX_SIZE data)
      else from_vec H data)"

function drain_loop ::
  "'n hickory \<Rightarrow> bytes \<Rightarrow> nat \<Rightarrow> 'n message list \<Rightarrow> string + (nat \<times> 'n message list)" where
  "drain_loop H buffer consumed messages =
     (let remaining = drop consumed buffer in
      if length remaining < DNS_TCP_PREFIX_SIZE then Inr (consumed, messages)
      else
        let message_len = nat_of_be [remaining ! 0, remaining ! 1];
            frame_len = DNS_TCP_PREFIX_SIZE + message_len in
        if message_len = 0 then Inl ''empty DNS-over-TCP frame''
        else if length remaining < frame_len then Inr (consumed, messages)
        else case parse_data_to_dns_message H
                    (take message_len (drop DNS_TCP_PREFIX_SIZE remaining)) False of
               Inl e \<Rightarrow> Inl e
             | Inr m \<Rightarrow> drain_loop H buffer (consumed + frame_len) (messages @ [m]))"
  by pat_completeness auto
termination
  by (relation "measure (\<lambda>(H, buffer, consumed, messages). length buffer - consumed)")
     (auto simp: DNS_TCP_PREFIX_SIZE_def)

declare drain_loop.simps [simp del]

definition drain_tcp_messages ::
  "'n hickory \<Rightarrow> bytes \<Rightarrow> (string + 'n message list) \<times> bytes" where
  "drain_tcp_messages H buffer = (case drain_loop H buffer 0 [] of
     Inl e \<Rightarrow> (Inl e, buffer)
   | Inr (consumed, messages) \<Rightarrow>
       (Inr messages, if consumed \<noteq> 0 then drop consumed buffer else buffer))"

text \<open>The frame in which a DNS message travels over TCP.\<close>

definition tcp_frame :: "bytes \<Rightarrow> bytes" where
  "tcp_frame payload = to_be_bytes (of_nat (length payload) :: u16) @ payload"

text \<open>
  What an answer proves: a chain of \<^verbatim>\<open>n\<close> CNAME records of the message from one name to another,
  and the addresses the message gives for a name.
\<close>

inductive cname_path :: "'n hickory \<Rightarrow> 'n message \<Rightarrow> nat \<Rightarrow> 'n \<Rightarrow> 'n \<Rightarrow> bool" for H m where
  cname_done: "cname_path H m 0 a a"
| cname_hop: "r \<in> set (answers m) \<Longrightarrow> names_equal H (r_name r) a \<Longrightarrow> r_data r = RData_CNAME b
    \<Longrightarrow> cname_path H m n b c \<Longrightarrow> cname_path H m (Suc n) a c"

definition answers_address :: "'n hickory \<Rightarrow> 'n message \<Rightarrow> bool \<Rightarrow> 'n \<Rightarrow> ip_addr \<Rightarrow> bool" where
  "answers_address H m want_ipv6 name ip = list_ex (\<lambda>r. names_equal H (r_name r) name
     \<and> (case r_data r of RData_A a \<Rightarrow> \<not> want_ipv6 \<and> ip = V4 a
        | RData_AAAA a \<Rightarrow> want_ipv6 \<and> ip = V6 a | _ \<Rightarrow> False)) (answers m)"

text \<open>
  What the code relies on of the message type: turning a request into a response keeps its
  identifier, opcode and question, and name comparison is reflexive.
\<close>

definition into_response_ok :: "'n hickory \<Rightarrow> 'n message \<Rightarrow> bool" where
  "into_response_ok H m =
     (message_type (into_response H m) = ResponseMessage \<and> op_code (into_response H m) = op_code m
      \<and> msg_id (into_response H m) = msg_id m \<and> queries (into_response H m) = queries m
      \<and> list_all (\<lambda>q. eq_ignore_root H (q_name q) (q_name q)) (queries m))"

text \<open>A message type whose names are strings, for concrete instances of the theorems.\<close>

definition demo_query :: "u16 \<Rightarrow> record_type \<Rightarrow> string message" where
  "demo_query i t = \<lparr>msg_id = i, message_type = QueryMessage, op_code = OpQuery,
     authoritative = False, truncation = False, recursion_desired = True,
     recursion_available = False, authentic_data = False, response_code = NoError,
     queries = [\<lparr>q_name = ''a.example'', q_type = t, q_class = 1\<rparr>], answers = [],
     authorities = [], additionals = [], signature = None\<rparr>"

definition demo_hickory :: "string hickory" where
  "demo_hickory = \<lparr>
     from_vec = (\<lambda>bs. if length bs < 3 then Inl ''short'' else
        Inr (demo_query (from_be_bytes (take 2 bs)) (if bs ! 2 = 1 then TypeA else TypeAAAA))),
     to_vec = (\<lambda>m. Inr (to_be_bytes (msg_id m))),
     into_response = (\<lambda>m. m\<lparr>message_type := ResponseMessage\<rparr>),
     eq_ignore_root = (\<lambda>a b. to_ascii_lowercase (trim_end_matches CHR ''.'' a)
                              = to_ascii_lowercase (trim_end_matches CHR ''.'' b)),
     to_ascii = (\<lambda>n. n)\<rparr>"

definition demo_answer :: "string message" where
  "demo_answer = (demo_query 7 TypeA)\<lparr>message_type := ResponseMessage,
     answers := [\<lparr>r_name = ''A.example.'', r_class = 1, r_ttl = 5, r_data = RData_CNAME ''b.example''\<rparr>,
                 \<lparr>r_name = ''b.example'', r_class = 1, r_ttl = 5, r_data = RData_AAAA 9\<rparr>,
                 \<lparr>r_name = ''b.example'', r_class = 1, r_ttl = 5, r_data = RData_A 3232235777\<rparr>]\<rparr>"

section \<open>Lemmas\<close>

lemma scan_answers_cases:
  "case scan_answers want rs cname of
     Inl ip \<Rightarrow> (\<exists>r\<in>set rs. case r_data r of RData_A a \<Rightarrow> \<not> want \<and> ip = V4 a
                  | RData_AAAA a \<Rightarrow> want \<and> ip = V6 a | _ \<Rightarrow> False)
   | Inr None \<Rightarrow> cname = None \<and> (\<forall>r\<in>set rs. case r_data r of RData_A a \<Rightarrow> want
                  | RData_AAAA a \<Rightarrow> \<not> want | RData_CNAME n \<Rightarrow> False | _ \<Rightarrow> True)
   | Inr (Some n) \<Rightarrow> cname = Some n \<or> (\<exists>r\<in>set rs. r_data r = RData_CNAME n)"
proof (induction rs arbitrary: cname)
  case Nil
  then show ?case by (simp split: option.split)
next
  case (Cons r rs)
  show ?case
  proof (cases "r_data r")
    case (RData_CNAME n)
    then show ?thesis using Cons.IH [of "Some n"] by (auto split: sum.splits option.splits)
  qed (use Cons.IH [of cname] in \<open>auto split: sum.splits option.splits\<close>)
qed

lemma answers_address_family: "answers_address H m w name ip \<Longrightarrow> is_ipv4 ip = (\<not> w)"
proof -
  assume "answers_address H m w name ip"
  then obtain r where "r \<in> set (answers m)" and "case r_data r of RData_A a \<Rightarrow> \<not> w \<and> ip = V4 a
      | RData_AAAA a \<Rightarrow> w \<and> ip = V6 a | _ \<Rightarrow> False"
    by (auto simp: answers_address_def list_ex_iff)
  then show ?thesis by (cases "r_data r") auto
qed

lemma follow_cnames_sound:
  "follow_cnames H m q d current followed = Inr res \<Longrightarrow>
   (\<exists>n name. n < d \<and> cname_path H m n current name \<and>
     (case res of
        Address ip \<Rightarrow> answers_address H m (q_type q = TypeAAAA) name ip
      | Cname s \<Rightarrow> s = to_ascii H name \<and> (followed \<or> n \<noteq> 0)
          \<and> (\<forall>ip. \<not> answers_address H m (q_type q = TypeAAAA) name ip)))"
proof (induction d arbitrary: current followed)
  case 0
  then show ?case by simp
next
  case (Suc d)
  let ?want = "q_type q = TypeAAAA"
  let ?rs = "filter (\<lambda>r. names_equal H (r_name r) current) (answers m)"
  note sc = scan_answers_cases [where want = ?want and rs = ?rs and cname = None]
  consider (addr) ip where "scan_answers ?want ?rs None = Inl ip"
    | (cname) n where "scan_answers ?want ?rs None = Inr (Some n)"
    | (none) "scan_answers ?want ?rs None = Inr None"
    by (metis not_Some_eq sum.exhaust)
  then show ?case
  proof cases
    case addr
    then have "answers_address H m ?want current ip" and "res = Address ip"
      using sc Suc.prems by (auto simp: answers_address_def list_ex_iff)
    then show ?thesis by (intro exI [of _ 0] exI [of _ current]) (auto intro: cname_done)
  next
    case cname
    then obtain r where r: "r \<in> set (answers m)" "names_equal H (r_name r) current"
        "r_data r = RData_CNAME n" using sc by auto
    have "follow_cnames H m q d n True = Inr res" using Suc.prems cname by (auto split: if_splits)
    from Suc.IH [OF this] obtain k name where k: "k < d" "cname_path H m k n name"
      and res: "case res of Address ip \<Rightarrow> answers_address H m ?want name ip
        | Cname s \<Rightarrow> s = to_ascii H name \<and> (True \<or> k \<noteq> 0)
            \<and> (\<forall>ip. \<not> answers_address H m ?want name ip)"
      by blast
    show ?thesis
      using cname_hop [OF r k(2)] k(1) res
      by (intro exI [of _ "Suc k"] exI [of _ name]) (auto split: address_lookup.splits)
  next
    case none
    then have "followed" and "res = Cname (to_ascii H current)"
      using Suc.prems by (auto split: if_splits)
    moreover have "\<forall>r\<in>set ?rs. case r_data r of RData_A a \<Rightarrow> ?want | RData_AAAA a \<Rightarrow> \<not> ?want
        | RData_CNAME n \<Rightarrow> False | RData_Other d \<Rightarrow> True"
      using sc none by simp
    then have "\<not> answers_address H m ?want current ip" for ip
      by (auto simp: answers_address_def list_ex_iff split: rdata.splits)
    ultimately show ?thesis
      by (intro exI [of _ 0] exI [of _ current]) (auto intro: cname_done)
  qed
qed

lemma follow_cnames_direct:
  "scan_answers (q_type q = TypeAAAA)
     (filter (\<lambda>r. names_equal H (r_name r) current) (answers m)) None = Inl ip
   \<Longrightarrow> follow_cnames H m q MAX_CNAME_DEPTH current followed = Inr (Address ip)"
  by (simp add: MAX_CNAME_DEPTH_def eval_nat_numeral)

lemma validate_dns_queryD:
  "validate_dns_query m = Inr q \<Longrightarrow> queries m = [q] \<and> op_code m = OpQuery"
  by (auto simp: validate_dns_query_def length_Suc_conv split: if_splits)

lemma build_dns_response_reply:
  assumes query: "validate_dns_query request = Inr q" and lib: "into_response_ok H request"
  shows "\<exists>m. build_dns_response H request ip ttl = Inr m
     \<and> validate_dns_response H m (msg_id request) q = Inr ()
     \<and> response_code m = NoError \<and> queries m = [q]
     \<and> answers m = (case answer_record q ip ttl of None \<Rightarrow> [] | Some r \<Rightarrow> [r])"
  using query lib validate_dns_queryD [OF query]
  by (cases "answer_record q ip ttl")
     (auto simp: build_dns_response_def validate_dns_response_def into_response_ok_def names_equal_def)

lemma build_dns_response_address:
  assumes query: "validate_dns_query request = Inr q" and lib: "into_response_ok H request"
    and built: "build_dns_response H request ip ttl = Inr m"
  shows "case (q_type q, ip) of
          (TypeA, Some (V4 a)) \<Rightarrow> extract_ipaddr_from_dns_message H m = Inr (V4 a)
        | (TypeAAAA, Some (V6 a)) \<Rightarrow> extract_ipaddr_from_dns_message H m = Inr (V6 a)
        | _ \<Rightarrow> answers m = []"
proof -
  have m: "response_code m = NoError" "queries m = [q]"
    "answers m = (case answer_record q ip ttl of None \<Rightarrow> [] | Some r \<Rightarrow> [r])"
    using build_dns_response_reply [OF query lib, of ip ttl] built by auto
  have "eq_ignore_root H (q_name q) (q_name q)"
    using lib validate_dns_queryD [OF query] by (simp add: into_response_ok_def)
  then show ?thesis
    using m
    by (auto simp: extract_ipaddr_from_dns_message_def extract_address_or_cname_def
        follow_cnames_direct answer_record_def names_equal_def
        split: record_type.split option.split ip_addr.split)
qed

lemma drain_loop_shift:
  "drain_loop H buffer consumed messages = (case drain_loop H (drop consumed buffer) 0 [] of
     Inl e \<Rightarrow> Inl e | Inr (c, ms) \<Rightarrow> Inr (consumed + c, messages @ ms))"
proof (induction "length buffer - consumed" arbitrary: buffer consumed messages rule: less_induct)
  case less
  let ?r = "drop consumed buffer"
  let ?len = "nat_of_be [?r ! 0, ?r ! 1]"
  show ?case
  proof (cases "length ?r < 2 \<or> ?len = 0 \<or> length ?r < 2 + ?len")
    case True
    then show ?thesis
      by (subst (1 2) drain_loop.simps) (auto simp: Let_def DNS_TCP_PREFIX_SIZE_def)
  next
    case False
    let ?k = "2 + ?len"
    have small: "length buffer - (consumed + ?k) < length buffer - consumed"
      "length ?r - ?k < length buffer - consumed" using False by auto
    have IH: "drain_loop H buffer (consumed + ?k) (messages @ [m])
        = (case drain_loop H (drop (consumed + ?k) buffer) 0 [] of
             Inl e \<Rightarrow> Inl e | Inr (c, ms) \<Rightarrow> Inr (consumed + ?k + c, (messages @ [m]) @ ms))" for m
      by (rule less(1) [OF small(1)])
    have IH2: "drain_loop H ?r ?k [m] = (case drain_loop H (drop ?k ?r) 0 [] of
             Inl e \<Rightarrow> Inl e | Inr (c, ms) \<Rightarrow> Inr (?k + c, [m] @ ms))" for m
      by (rule less(1) [OF small(2)])
    have drop_eq: "drop ?k ?r = drop (consumed + ?k) buffer" by (simp add: add.commute)
    show ?thesis
      using False IH IH2 unfolding drop_eq
      by (subst (1 2) drain_loop.simps)
         (auto simp: Let_def DNS_TCP_PREFIX_SIZE_def drop_eq split: sum.splits prod.splits)
  qed
qed

lemma drain_loop_extend:
  "drain_loop H b1 k ms = Inr (c, ms') \<Longrightarrow> drain_loop H (b1 @ b2) k ms = drain_loop H (b1 @ b2) c ms'"
proof (induction H b1 k ms rule: drain_loop.induct)
  case (1 H b1 k ms)
  let ?r = "drop k b1"
  let ?len = "nat_of_be [?r ! 0, ?r ! 1]"
  show ?case
  proof (cases "length ?r < 2 \<or> ?len = 0 \<or> length ?r < 2 + ?len")
    case True
    then show ?thesis
      using "1.prems" by (subst (asm) drain_loop.simps) (auto simp: Let_def DNS_TCP_PREFIX_SIZE_def split: if_splits)
  next
    case False
    let ?p = "parse_data_to_dns_message H (take ?len (drop 2 ?r)) False"
    obtain m where m: "?p = Inr m"
      and rec: "drain_loop H b1 (k + (2 + ?len)) (ms @ [m]) = Inr (c, ms')"
      using False "1.prems"
      by (subst (asm) drain_loop.simps) (auto simp: Let_def DNS_TCP_PREFIX_SIZE_def split: sum.splits)
    have "drain_loop H (b1 @ b2) k ms = drain_loop H (b1 @ b2) (k + (2 + ?len)) (ms @ [m])"
      using False m
      by (subst drain_loop.simps) (auto simp: Let_def DNS_TCP_PREFIX_SIZE_def nth_append)
    moreover have "k \<le> length b1" using False by auto
    ultimately show ?thesis
      using "1.IH" [OF refl _ refl refl] False m rec by (simp add: DNS_TCP_PREFIX_SIZE_def)
  qed
qed

lemma drain_loop_consumed:
  "drain_loop H b k ms = Inr (c, ms') \<Longrightarrow> k \<le> c \<and> (c \<le> length b \<or> c = k)"
proof (induction H b k ms rule: drain_loop.induct)
  case (1 H b k ms)
  let ?r = "drop k b"
  let ?len = "nat_of_be [?r ! 0, ?r ! 1]"
  show ?case
  proof (cases "length ?r < 2 \<or> ?len = 0 \<or> length ?r < 2 + ?len")
    case True
    then show ?thesis
      using "1.prems" by (subst (asm) drain_loop.simps) (auto simp: Let_def DNS_TCP_PREFIX_SIZE_def split: if_splits)
  next
    case False
    then obtain m where "parse_data_to_dns_message H (take ?len (drop 2 ?r)) False = Inr m"
      and rec: "drain_loop H b (k + (2 + ?len)) (ms @ [m]) = Inr (c, ms')"
      using "1.prems"
      by (subst (asm) drain_loop.simps) (auto simp: Let_def DNS_TCP_PREFIX_SIZE_def split: sum.splits)
    moreover have "k \<le> length b" using False by auto
    ultimately have "k + (2 + ?len) \<le> c \<and> (c \<le> length b \<or> c = k + (2 + ?len))"
      using "1.IH" [OF refl _ refl refl, of m] False by (simp add: DNS_TCP_PREFIX_SIZE_def)
    moreover have "k + (2 + ?len) \<le> length b" using False \<open>k \<le> length b\<close> by auto
    ultimately show ?thesis by linarith
  qed
qed

lemma nat_of_be16: "length p < 65536 \<Longrightarrow> nat_of_be (to_be_bytes (of_nat (length p) :: u16)) = length p"
  by (simp add: to_be_bytes_def nat_of_be_of_nat unat_of_nat)

lemma two_octets: "length bs = 2 \<Longrightarrow> [bs ! 0, bs ! 1] = bs"
  by (cases bs; cases "tl bs") auto

lemma drain_loop_frame:
  assumes "p \<noteq> []" "length p < 65536" "from_vec H p = Inr m"
  shows "drain_loop H (tcp_frame p @ rest) 0 [] = (case drain_loop H rest 0 [] of
     Inl e \<Rightarrow> Inl e | Inr (c, ms) \<Rightarrow> Inr (length (tcp_frame p) + c, m # ms))"
proof -
  let ?b = "tcp_frame p @ rest"
  let ?h = "to_be_bytes (of_nat (length p) :: u16)"
  have h: "[?b ! 0, ?b ! 1] = ?h"
    using two_octets [of ?h] by (simp add: tcp_frame_def nth_append)
  have "drain_loop H ?b 0 [] = drain_loop H ?b (2 + length p) [m]"
    using assms h nat_of_be16 [OF assms(2)]
    by (subst drain_loop.simps)
       (simp add: Let_def DNS_TCP_PREFIX_SIZE_def parse_data_to_dns_message_def tcp_frame_def)
  also have "\<dots> = (case drain_loop H (drop (2 + length p) ?b) 0 [] of
     Inl e \<Rightarrow> Inl e | Inr (c, ms) \<Rightarrow> Inr (2 + length p + c, [m] @ ms))"
    by (rule drain_loop_shift)
  finally show ?thesis by (simp add: tcp_frame_def split: sum.split prod.split)
qed

section \<open>Properties\<close>

text \<open>
  An address is only taken from an answer that supports it: when
  \<^verbatim>\<open>extract_address_or_cname\<close> returns an address, the response code is NoError and the message
  has a chain of fewer than \<^verbatim>\<open>MAX_CNAME_DEPTH\<close> CNAME records from the question to a name with that
  address, of the family that was asked for; when it returns a name to look up next, that
  name ends such a chain of at least one record and has no address in the message.
\<close>

theorem extract_address_or_cname_sound:
  assumes "extract_address_or_cname H m q = Inr res"
  shows "response_code m = NoError \<and>
    (\<exists>n name. n < MAX_CNAME_DEPTH \<and> cname_path H m n (q_name q) name \<and>
       (case res of
          Address ip \<Rightarrow> answers_address H m (q_type q = TypeAAAA) name ip
            \<and> is_ipv4 ip = (q_type q \<noteq> TypeAAAA)
        | Cname s \<Rightarrow> s = to_ascii H name \<and> n \<noteq> 0
            \<and> (\<forall>ip. \<not> answers_address H m (q_type q = TypeAAAA) name ip)))"
proof -
  have ok: "response_code m = NoError"
    and run: "follow_cnames H m q MAX_CNAME_DEPTH (q_name q) False = Inr res"
    using assms by (auto simp: extract_address_or_cname_def split: if_splits)
  from follow_cnames_sound [OF run] obtain n name where n: "n < MAX_CNAME_DEPTH"
    "cname_path H m n (q_name q) name"
    and res: "case res of Address ip \<Rightarrow> answers_address H m (q_type q = TypeAAAA) name ip
        | Cname s \<Rightarrow> s = to_ascii H name \<and> (False \<or> n \<noteq> 0)
            \<and> (\<forall>ip. \<not> answers_address H m (q_type q = TypeAAAA) name ip)" by blast
  show ?thesis
  proof (cases res)
    case (Address ip)
    with n res ok answers_address_family [of H m "q_type q = TypeAAAA" name ip] show ?thesis by auto
  next
    case (Cname s)
    with n res ok show ?thesis by auto
  qed
qed

theorem extract_address_or_cname_sound_witness:
  "\<exists>n name. n < MAX_CNAME_DEPTH \<and> cname_path demo_hickory demo_answer n ''a.example'' name
      \<and> answers_address demo_hickory demo_answer False name (V4 3232235777)"
proof -
  have "extract_address_or_cname demo_hickory demo_answer (queries demo_answer ! 0)
      = Inr (Address (V4 3232235777))" by code_simp
  from extract_address_or_cname_sound [OF this] show ?thesis
    by (simp add: demo_answer_def demo_query_def)
qed

text \<open>
  The synthetic answer is a valid reply: for a well-formed query \<^verbatim>\<open>build_dns_response\<close>
  succeeds, a client that checks the reply with \<^verbatim>\<open>validate_dns_response\<close> against its question and
  identifier accepts it, and extracting the address from it gives back exactly the fake
  address when the record type asks for its family, and no answer record otherwise.
\<close>

theorem build_dns_response_accepted:
  assumes query: "validate_dns_query request = Inr q" and lib: "into_response_ok H request"
  shows "\<exists>m. build_dns_response H request ip ttl = Inr m
     \<and> validate_dns_response H m (msg_id request) q = Inr ()
     \<and> (case (q_type q, ip) of
          (TypeA, Some (V4 a)) \<Rightarrow> extract_ipaddr_from_dns_message H m = Inr (V4 a)
        | (TypeAAAA, Some (V6 a)) \<Rightarrow> extract_ipaddr_from_dns_message H m = Inr (V6 a)
        | _ \<Rightarrow> answers m = [])"
proof -
  obtain m where b: "build_dns_response H request ip ttl = Inr m"
    "validate_dns_response H m (msg_id request) q = Inr ()"
    using build_dns_response_reply [OF assms, of ip ttl] by blast
  with build_dns_response_address [OF assms b(1)] show ?thesis by blast
qed

theorem build_dns_response_accepted_witness:
  "\<exists>m. build_dns_response demo_hickory (demo_query 7 TypeA) (Some (V4 3323068417)) 5 = Inr m
     \<and> extract_ipaddr_from_dns_message demo_hickory m = Inr (V4 3323068417)"
proof -
  have "validate_dns_query (demo_query 7 TypeA) = Inr (queries (demo_query 7 TypeA) ! 0)"
    and "into_response_ok demo_hickory (demo_query 7 TypeA)"
    by code_simp+
  from build_dns_response_accepted [OF this, of "Some (V4 3323068417)" 5] show ?thesis
    by (auto simp: demo_query_def)
qed

text \<open>
  Draining frames from a TCP buffer does not depend on how the octets arrive: if
  \<^verbatim>\<open>drain_tcp_messages\<close> takes some messages from a first part and keeps a rest, then draining
  that rest followed by more octets gives the same messages and the same remaining buffer
  as draining everything at once, and an invalid frame is reported in both cases.
\<close>

theorem drain_tcp_messages_chunks:
  assumes "drain_tcp_messages H b1 = (Inr ms1, rest)"
  shows "drain_tcp_messages H (b1 @ b2) = (case drain_tcp_messages H (rest @ b2) of
     (Inr ms2, rest2) \<Rightarrow> (Inr (ms1 @ ms2), rest2)
   | (Inl e, _) \<Rightarrow> (Inl e, b1 @ b2))"
proof -
  obtain c where c: "drain_loop H b1 0 [] = Inr (c, ms1)" and rest: "rest = drop c b1"
    using assms by (auto simp: drain_tcp_messages_def split: sum.splits prod.splits if_splits)
  have le: "c \<le> length b1"
    using drain_loop_consumed [OF c] by auto
  have "drain_loop H (b1 @ b2) 0 [] = drain_loop H (b1 @ b2) c ms1"
    by (rule drain_loop_extend [OF c])
  also have "\<dots> = (case drain_loop H (rest @ b2) 0 [] of
      Inl e \<Rightarrow> Inl e | Inr (k, ms) \<Rightarrow> Inr (c + k, ms1 @ ms))"
    using drain_loop_shift [of H "b1 @ b2" c ms1] le rest by simp
  finally show ?thesis
    using le rest by (simp add: drain_tcp_messages_def add.commute split: sum.split prod.split)
qed

theorem drain_tcp_messages_chunks_witness:
  "drain_tcp_messages demo_hickory ([0, 3, 0, 7, 1, 0, 3, 0, 8] @ [1, 0])
     = (Inr [demo_query 7 TypeA, demo_query 8 TypeA], [0])"
proof -
  have "drain_tcp_messages demo_hickory [0, 3, 0, 7, 1, 0, 3, 0, 8]
      = (Inr [demo_query 7 TypeA], [0, 3, 0, 8])"
    and "drain_tcp_messages demo_hickory ([0, 3, 0, 8] @ [1, 0]) = (Inr [demo_query 8 TypeA], [0])"
    by code_simp+
  with drain_tcp_messages_chunks [of demo_hickory "[0, 3, 0, 7, 1, 0, 3, 0, 8]" _ _ "[1, 0]"]
  show ?thesis by (simp only: prod.case sum.case append.simps)
qed

text \<open>
  Frames are recovered exactly: a buffer that holds the frames of well-formed messages
  and then an incomplete frame gives these messages in order and keeps the incomplete
  frame, octet for octet.
\<close>

theorem drain_tcp_messages_frames:
  assumes "list_all (\<lambda>(p, m). p \<noteq> [] \<and> length p < 65536 \<and> from_vec H p = Inr m) pms"
    and "length tail < 2 \<or>
         nat_of_be (take 2 tail) \<noteq> 0 \<and> length tail < 2 + nat_of_be (take 2 tail)"
  shows "drain_tcp_messages H (concat (map (tcp_frame \<circ> fst) pms) @ tail) = (Inr (map snd pms), tail)"
proof -
  have "drain_loop H tail 0 [] = Inr (0, [])"
  proof (cases "length tail < 2")
    case False
    then have "take 2 tail = [tail ! 0, tail ! 1]"
      by (cases tail; cases "tl tail") auto
    with assms(2) False show ?thesis
      by (subst drain_loop.simps) (auto simp: Let_def DNS_TCP_PREFIX_SIZE_def)
  qed (subst drain_loop.simps, simp add: DNS_TCP_PREFIX_SIZE_def)
  with assms(1) have "drain_loop H (concat (map (tcp_frame \<circ> fst) pms) @ tail) 0 []
      = Inr (length (concat (map (tcp_frame \<circ> fst) pms)), map snd pms)"
    by (induction pms) (auto simp: drain_loop_frame)
  then show ?thesis by (simp add: drain_tcp_messages_def)
qed

theorem drain_tcp_messages_frames_witness:
  "drain_tcp_messages demo_hickory ([0, 3, 0, 7, 1] @ [0, 3, 9])
     = (Inr [demo_query 7 TypeA], [0, 3, 9])"
proof -
  let ?pms = "[([0, 7, 1], demo_query 7 TypeA)]"
  have "from_vec demo_hickory [0, 7, 1] = Inr (demo_query 7 TypeA)"
    and "nat_of_be (take 2 [0, 3, 9]) \<noteq> 0 \<and> length [0, 3, 9::byte] < 2 + nat_of_be (take 2 [0, 3, 9])"
    and "concat (map (tcp_frame \<circ> fst) ?pms) = [0, 3, 0, 7, 1]"
    by code_simp+
  with drain_tcp_messages_frames [of demo_hickory ?pms "[0, 3, 9]"] show ?thesis by simp
qed

end
