(* ===== verification/VirtualDns.thy ===== *)
theory VirtualDns
  imports Persistence Dns
begin

text \<open>
  The virtual resolver of \<^verbatim>\<open>src/virtual_dns.rs\<close>: it answers queries with fake addresses of a
  pool and remembers which name an address stands for.  The resolver's state is the record
  \<^verbatim>\<open>virtual_dns\<close>; each method is one definition on the state and the disk of \<^verbatim>\<open>Persistence\<close>.
  The LRU cache is a third-party container: its operations are the fields of
  \<^verbatim>\<open>lru_ops\<close>, and \<^verbatim>\<open>lru_laws\<close> states its documented behaviour in terms of the entries in
  iteration order, least recently used first.
\<close>

section \<open>State\<close>

record 'c lru_ops =
  l_iter :: "'c \<Rightarrow> (ip_addr \<times> string) list"
  l_new :: 'c
  l_clear :: "'c \<Rightarrow> 'c"
  l_get :: "'c \<Rightarrow> ip_addr \<Rightarrow> string option \<times> 'c"
  l_contains :: "'c \<Rightarrow> ip_addr \<Rightarrow> bool"
  l_insert :: "'c \<Rightarrow> ip_addr \<Rightarrow> string \<Rightarrow> 'c"
  l_remove :: "'c \<Rightarrow> ip_addr \<Rightarrow> string option \<times> 'c"
  l_remove_lru :: "'c \<Rightarrow> (ip_addr \<times> string) option \<times> 'c"
  l_len :: "'c \<Rightarrow> nat"

definition alist_drop :: "'k \<Rightarrow> ('k \<times> 'v) list \<Rightarrow> ('k \<times> 'v) list" where
  "alist_drop k xs = filter (\<lambda>e. fst e \<noteq> k) xs"

definition lru_laws :: "'c lru_ops \<Rightarrow> bool" where
  "lru_laws L = (
     l_iter L (l_new L) = []
     \<and> (\<forall>c. l_iter L (l_clear L c) = [] \<and> l_len L c = length (l_iter L c))
     \<and> (\<forall>c k. l_contains L c k = (map_of (l_iter L c) k \<noteq> None))
     \<and> (\<forall>c k. fst (l_get L c k) = map_of (l_iter L c) k
          \<and> l_iter L (snd (l_get L c k)) = (case map_of (l_iter L c) k of
              None \<Rightarrow> l_iter L c | Some v \<Rightarrow> alist_drop k (l_iter L c) @ [(k, v)]))
     \<and> (\<forall>c k v. l_iter L (l_insert L c k v) = alist_drop k (l_iter L c) @ [(k, v)])
     \<and> (\<forall>c k. fst (l_remove L c k) = map_of (l_iter L c) k
          \<and> l_iter L (snd (l_remove L c k)) = alist_drop k (l_iter L c))
     \<and> (\<forall>c. case l_iter L c of
          [] \<Rightarrow> fst (l_remove_lru L c) = None \<and> l_iter L (snd (l_remove_lru L c)) = []
        | e # es \<Rightarrow> fst (l_remove_lru L c) = Some e \<and> l_iter L (snd (l_remove_lru L c)) = es))"

record 'c virtual_dns =
  trailing_dot :: bool
  lru_cache :: 'c
  name_to_ip :: "string \<Rightarrow> ip_addr option"
  network_addr :: ip_addr
  broadcast_addr :: ip_addr
  next_addr :: ip_addr
  persistence :: "persistent_cache option"

text \<open>The third-party operations and the compilation target a resolver runs with.\<close>

record 'c vd_env =
  ve_lru :: "'c lru_ops"
  ve_windows :: bool
  ve_enc :: "cache_record \<Rightarrow> string"
  ve_dec :: "string \<Rightarrow> cache_record option"

section \<open>Operations\<close>

definition virtual_dns_new :: "'c vd_env \<Rightarrow> ip_addr \<Rightarrow> ip_addr \<Rightarrow> 'c virtual_dns" where
  "virtual_dns_new E first_address last_address =
     \<lparr>trailing_dot = False, lru_cache = l_new (ve_lru E), name_to_ip = (\<lambda>_. None),
      network_addr = first_address, broadcast_addr = last_address, next_addr = first_address,
      persistence = None\<rparr>"

definition clear_mappings :: "'c vd_env \<Rightarrow> 'c virtual_dns \<Rightarrow> 'c virtual_dns" where
  "clear_mappings E vd = vd\<lparr>lru_cache := l_clear (ve_lru E) (lru_cache vd),
     name_to_ip := (\<lambda>_. None), next_addr := network_addr vd\<rparr>"

definition canonical_name :: "'c virtual_dns \<Rightarrow> string \<Rightarrow> string" where
  "canonical_name vd name = to_ascii_lowercase
     (if ends_with CHR ''.'' name \<and> \<not> trailing_dot vd then trim_end_matches CHR ''.'' name else name)"

definition vd_address_in_pool :: "'c virtual_dns \<Rightarrow> ip_addr \<Rightarrow> bool" where
  "vd_address_in_pool vd ip = (is_ipv4 ip = is_ipv4 (network_addr vd)
     \<and> ip \<ge> network_addr vd \<and> ip \<le> broadcast_addr vd)"

definition restore_mapping ::
  "'c vd_env \<Rightarrow> ip_addr \<Rightarrow> string \<Rightarrow> 'c virtual_dns \<Rightarrow> bool \<times> 'c virtual_dns" where
  "restore_mapping E ip name0 vd =
     (let L = ve_lru E; name = canonical_name vd name0 in
      if name = [] \<or> length name > 253 \<or> \<not> vd_address_in_pool vd ip then (False, vd)
      else
        let vd1 = (case name_to_ip vd name of
              Some old_ip \<Rightarrow> vd\<lparr>name_to_ip := (name_to_ip vd)(name := None),
                              lru_cache := snd (l_remove L (lru_cache vd) old_ip)\<rparr>
            | None \<Rightarrow> vd);
            vd2 = (case l_remove L (lru_cache vd1) ip of
              (Some old_name, c) \<Rightarrow> vd1\<lparr>lru_cache := c,
                                       name_to_ip := (name_to_ip vd1)(old_name := None)\<rparr>
            | (None, c) \<Rightarrow> vd1\<lparr>lru_cache := c\<rparr>)
        in (True, vd2\<lparr>lru_cache := l_insert L (lru_cache vd2) ip name,
                      name_to_ip := (name_to_ip vd2)(name \<mapsto> ip)\<rparr>))"

definition rewrite_persistence ::
  "'c vd_env \<Rightarrow> 'c virtual_dns \<Rightarrow> disk \<Rightarrow> unit result \<times> 'c virtual_dns \<times> disk" where
  "rewrite_persistence E vd d = (case persistence vd of
     None \<Rightarrow> (Inr (), vd, d)
   | Some pc \<Rightarrow> (case rewrite (ve_windows E) (ve_enc E) (network_addr vd) (broadcast_addr vd)
                      (next_addr vd) (l_iter (ve_lru E) (lru_cache vd)) pc d of
       (r, pc', d') \<Rightarrow> (r, vd\<lparr>persistence := Some pc'\<rparr>, d')))"

definition persist_mapping ::
  "'c vd_env \<Rightarrow> ip_addr \<Rightarrow> string \<Rightarrow> 'c virtual_dns \<Rightarrow> disk \<Rightarrow> 'c virtual_dns \<times> disk" where
  "persist_mapping E ip name vd d = (case persistence vd of
     None \<Rightarrow> (vd, d)
   | Some pc \<Rightarrow>
       (let (result, vd2, d2) = (case needs_rewrite pc d of
            (Inr True, d1) \<Rightarrow> rewrite_persistence E vd d1
          | (Inr False, d1) \<Rightarrow> (case append_mapping (ve_enc E) ip name pc d1 of
               (Inl e, pc', d2) \<Rightarrow> (Inl e, vd\<lparr>persistence := Some pc'\<rparr>, d2)
             | (Inr _, pc', d2) \<Rightarrow>
                 (let vd' = vd\<lparr>persistence := Some pc'\<rparr> in
                  if should_compact (l_len (ve_lru E) (lru_cache vd)) pc'
                  then rewrite_persistence E vd' d2 else (Inr (), vd', d2)))
          | (Inl e, d1) \<Rightarrow> (Inl e, vd, d1))
        in case result of
             Inr _ \<Rightarrow> (vd2, d2)
           | Inl _ \<Rightarrow> snd (rewrite_persistence E
               (vd2\<lparr>persistence := map_option mark_dirty (persistence vd2)\<rparr>) d2)))"

definition retry_dirty_persistence ::
  "'c vd_env \<Rightarrow> 'c virtual_dns \<Rightarrow> disk \<Rightarrow> 'c virtual_dns \<times> disk" where
  "retry_dirty_persistence E vd d = (case persistence vd of
     None \<Rightarrow> (vd, d)
   | Some pc \<Rightarrow> if is_dirty pc then snd (rewrite_persistence E vd d) else (vd, d))"

definition touch_ip :: "'c vd_env \<Rightarrow> ip_addr \<Rightarrow> 'c virtual_dns \<Rightarrow> 'c virtual_dns" where
  "touch_ip E ip vd = vd\<lparr>lru_cache := snd (l_get (ve_lru E) (lru_cache vd) ip)\<rparr>"

definition resolve_ip ::
  "'c vd_env \<Rightarrow> ip_addr \<Rightarrow> 'c virtual_dns \<Rightarrow> string option \<times> 'c virtual_dns" where
  "resolve_ip E ip vd = (case l_get (ve_lru E) (lru_cache vd) ip of
     (r, c) \<Rightarrow> (r, vd\<lparr>lru_cache := c\<rparr>))"

definition contains_address :: "'c virtual_dns \<Rightarrow> ip_addr \<Rightarrow> bool" where
  "contains_address vd ip = vd_address_in_pool vd ip"

text \<open>
  \<^verbatim>\<open>increment_ip\<close> adds one octet by octet from the right; \<^verbatim>\<open>increment_octets\<close> is its loop, on the
  octets in reverse order.
\<close>

fun increment_octets :: "bytes \<Rightarrow> bytes" where
  "increment_octets [] = []"
| "increment_octets (b # bs) = (if b \<noteq> 255 then (b + 1) # bs else 0 # increment_octets bs)"

definition increment_ip :: "ip_addr \<Rightarrow> ip_addr result" where
  "increment_ip addr =
     (let ip_bytes = rev (increment_octets (rev (octets addr))) in
      if is_ipv4 addr
      then (if length ip_bytes = 4 then Inr (V4 (from_be_bytes ip_bytes)) else Inl TryFromSlice)
      else (if length ip_bytes = 16 then Inr (V6 (from_be_bytes ip_bytes)) else Inl TryFromSlice))"

partial_function (option) allocate_loop ::
  "'c vd_env \<Rightarrow> ip_addr \<Rightarrow> string \<Rightarrow> 'c virtual_dns \<Rightarrow> disk
   \<Rightarrow> (ip_addr result \<times> 'c virtual_dns \<times> disk) option" where
  "allocate_loop E started_at name vd d =
     (let L = ve_lru E; next = next_addr vd in
      if \<not> l_contains L (lru_cache vd) next then
        (case persist_mapping E next name
                (vd\<lparr>lru_cache := l_insert L (lru_cache vd) next name,
                    name_to_ip := (name_to_ip vd)(name \<mapsto> next)\<rparr>) d of
           (vd', d') \<Rightarrow> Some (Inr (next_addr vd'), vd', d'))
      else case (if next = broadcast_addr vd then Inr (network_addr vd) else increment_ip next) of
        Inl e \<Rightarrow> Some (Inl e, vd, d)
      | Inr next' \<Rightarrow>
          (let vd1 = vd\<lparr>next_addr := next'\<rparr> in
           if next' = started_at then
             (case l_remove_lru L (lru_cache vd1) of
                (None, c) \<Rightarrow> Some (Inl (StringError ''Virtual IP space for DNS exhausted''),
                                  vd1\<lparr>lru_cache := c\<rparr>, d)
              | (Some (ip, old_name), c) \<Rightarrow>
                  (case persist_mapping E ip name
                          (vd1\<lparr>lru_cache := l_insert L c ip name,
                               name_to_ip := ((name_to_ip vd1)(old_name := None))(name \<mapsto> ip)\<rparr>) d of
                     (vd', d') \<Rightarrow> Some (Inr ip, vd', d')))
           else allocate_loop E started_at name vd1 d))"

declare allocate_loop.simps [code]

definition find_or_allocate_ip ::
  "'c vd_env \<Rightarrow> string \<Rightarrow> 'c virtual_dns \<Rightarrow> disk
   \<Rightarrow> (ip_addr result \<times> 'c virtual_dns \<times> disk) option" where
  "find_or_allocate_ip E name vd d =
     (let insert_name = canonical_name vd name in
      case name_to_ip vd insert_name of
        Some ip \<Rightarrow> (case retry_dirty_persistence E (touch_ip E ip vd) d of
                     (vd', d') \<Rightarrow> Some (Inr ip, vd', d'))
      | None \<Rightarrow> allocate_loop E (next_addr vd) insert_name vd d)"

definition upper_half_start :: "ip_addr \<Rightarrow> ip_addr \<Rightarrow> ip_addr" where
  "upper_half_start network broadcast = (case (network, broadcast) of
     (V4 n, V4 b) \<Rightarrow> (let distance = b - n in V4 (n + distance div 2 + distance mod 2))
   | (V6 n, V6 b) \<Rightarrow> (let distance = b - n in V6 (n + distance div 2 + distance mod 2))
   | _ \<Rightarrow> network)"

fun restore_all ::
  "'c vd_env \<Rightarrow> (ip_addr \<times> string) list \<Rightarrow> bool \<Rightarrow> 'c virtual_dns \<Rightarrow> bool \<times> 'c virtual_dns" where
  "restore_all E [] repair vd = (repair, vd)"
| "restore_all E ((ip, name) # maps) repair vd = (case restore_mapping E ip name vd of
     (ok, vd') \<Rightarrow> restore_all E maps (repair \<or> \<not> ok) vd')"

definition enable_persistence ::
  "'c vd_env \<Rightarrow> string \<Rightarrow> 'c virtual_dns \<Rightarrow> disk \<Rightarrow> nat result \<times> 'c virtual_dns \<times> disk" where
  "enable_persistence E path0 vd d =
     (let L = ve_lru E;
          finish = (\<lambda>(r, vd', d'). (case r of Inl e \<Rightarrow> Inl e | Inr _ \<Rightarrow> Inr (l_len L (lru_cache vd')),
                                    vd', d')) in
      case load (ve_dec E) (network_addr vd) (broadcast_addr vd) (cache_new path0) d of
        (Inl e, pc, d1) \<Rightarrow> (Inl e, vd, d1)
      | (Inr Missing, pc, d1) \<Rightarrow>
          (let vd1 = (if l_len L (lru_cache vd) = 0
                      then vd\<lparr>next_addr := upper_half_start (network_addr vd) (broadcast_addr vd)\<rparr>
                      else vd)
           in finish (rewrite_persistence E (vd1\<lparr>persistence := Some pc\<rparr>) d1))
      | (Inr Incompatible, pc, d1) \<Rightarrow>
          (let vd1 = (clear_mappings E vd)\<lparr>
                 next_addr := upper_half_start (network_addr vd) (broadcast_addr vd)\<rparr>
           in finish (rewrite_persistence E (vd1\<lparr>persistence := Some pc\<rparr>) d1))
      | (Inr (Loaded cursor maps repair), pc, d1) \<Rightarrow>
          (case restore_all E maps repair ((clear_mappings E vd)\<lparr>next_addr := cursor\<rparr>) of
             (repair', vd1) \<Rightarrow>
               if repair' then finish (rewrite_persistence E (vd1\<lparr>persistence := Some pc\<rparr>) d1)
               else finish (Inr (), vd1\<lparr>persistence := Some pc\<rparr>, d1)))"

definition generate_query ::
  "'c vd_env \<Rightarrow> 'n hickory \<Rightarrow> bytes \<Rightarrow> 'c virtual_dns \<Rightarrow> disk
   \<Rightarrow> ((bytes \<times> string \<times> ip_addr option) result \<times> 'c virtual_dns \<times> disk) option" where
  "generate_query E H data vd d = (case parse_data_to_dns_message H data False of
     Inl e \<Rightarrow> Some (Inl (StringError e), vd, d)
   | Inr message \<Rightarrow> (case validate_dns_query message of
       Inl e \<Rightarrow> Some (Inl (StringError e), vd, d)
     | Inr q \<Rightarrow> (case extract_domain_from_dns_message H message of
         Inl e \<Rightarrow> Some (Inl (StringError e), vd, d)
       | Inr qname \<Rightarrow>
           (let answer = (\<lambda>ip vd' d'. case build_dns_response H message ip 5 of
                  Inl e \<Rightarrow> Some (Inl (StringError e), vd', d')
                | Inr m \<Rightarrow> (case to_vec H m of
                    Inl e \<Rightarrow> Some (Inl e, vd', d')
                  | Inr out \<Rightarrow> Some (Inr (out, qname, ip), vd', d')))
            in if q_type q = TypeA \<and> is_ipv4 (network_addr vd)
                  \<or> q_type q = TypeAAAA \<and> \<not> is_ipv4 (network_addr vd)
               then (case find_or_allocate_ip E qname vd d of
                       None \<Rightarrow> None
                     | Some (Inl e, vd', d') \<Rightarrow> Some (Inl e, vd', d')
                     | Some (Inr ip, vd', d') \<Rightarrow> answer (Some ip) vd' d')
               else answer None vd d))))"

text \<open>\<^verbatim>\<open>resolve_virtual_domain\<close> of \<^verbatim>\<open>src/lib.rs\<close>, which every session's destination goes through.\<close>

definition resolve_virtual_domain ::
  "'c vd_env \<Rightarrow> ip_addr \<Rightarrow> 'c virtual_dns option \<Rightarrow> string option io_result \<times> 'c virtual_dns option" where
  "resolve_virtual_domain E destination vdo = (case vdo of
     None \<Rightarrow> (Inr None, None)
   | Some vd0 \<Rightarrow> (case resolve_ip E destination (touch_ip E destination vd0) of
       (Some domain, vd) \<Rightarrow> (Inr (Some domain), Some vd)
     | (None, vd) \<Rightarrow>
         if contains_address vd destination
         then (Inl (IoError NotFound ''stale virtual DNS address; reconnect after refreshing DNS''), Some vd)
         else (Inr None, Some vd)))"

section \<open>Invariant and vocabulary of the proofs\<close>

definition vd_entries :: "'c vd_env \<Rightarrow> 'c virtual_dns \<Rightarrow> (ip_addr \<times> string) list" where
  "vd_entries E vd = l_iter (ve_lru E) (lru_cache vd)"

definition pool_ok :: "'c virtual_dns \<Rightarrow> bool" where
  "pool_ok vd = (is_ipv4 (network_addr vd) = is_ipv4 (broadcast_addr vd)
     \<and> network_addr vd \<le> broadcast_addr vd)"

text \<open>
  The forward and the reverse map agree, every fake address lies in the pool, names are in
  canonical form and the allocation cursor stays in the pool.
\<close>

definition vd_inv :: "'c vd_env \<Rightarrow> 'c virtual_dns \<Rightarrow> bool" where
  "vd_inv E vd = (pool_ok vd \<and> vd_address_in_pool vd (next_addr vd)
     \<and> distinct (map fst (vd_entries E vd))
     \<and> (\<forall>(ip, name) \<in> set (vd_entries E vd).
          vd_address_in_pool vd ip \<and> canonical_name vd name = name)
     \<and> (\<forall>name ip. name_to_ip vd name = Some ip \<longleftrightarrow> (ip, name) \<in> set (vd_entries E vd)))"

definition consistent :: "(ip_addr \<times> string) list \<Rightarrow> (string \<Rightarrow> ip_addr option) \<Rightarrow> bool" where
  "consistent es m = (distinct (map fst es) \<and> (\<forall>name ip. m name = Some ip \<longleftrightarrow> (ip, name) \<in> set es))"

definition ip_num :: "ip_addr \<Rightarrow> nat" where
  "ip_num a = (case a of V4 w \<Rightarrow> unat w | V6 w \<Rightarrow> unat w)"

text \<open>
  What an allocation of the canonical name \<^verbatim>\<open>n\<close> may do: keep the address the name already has,
  or add an unused one, or, when every address of the pool is taken, give the name the
  address of the least recently used entry; the entry moves to the most recently used end.
\<close>

definition alloc_effect ::
  "'c vd_env \<Rightarrow> string \<Rightarrow> 'c virtual_dns \<Rightarrow> ip_addr \<Rightarrow> 'c virtual_dns \<Rightarrow> bool" where
  "alloc_effect E n vd ip vd' = (
     (case name_to_ip vd n of
        Some ip0 \<Rightarrow> ip = ip0 \<and> vd_entries E vd' = alist_drop ip (vd_entries E vd) @ [(ip, n)]
      | None \<Rightarrow>
          if length (vd_entries E vd) < ip_num (broadcast_addr vd) - ip_num (network_addr vd) + 1
          then ip \<notin> fst ` set (vd_entries E vd) \<and> vd_entries E vd' = vd_entries E vd @ [(ip, n)]
          else ip = fst (hd (vd_entries E vd)) \<and> vd_entries E vd' = tl (vd_entries E vd) @ [(ip, n)])
     \<and> trailing_dot vd' = trailing_dot vd \<and> network_addr vd' = network_addr vd
     \<and> broadcast_addr vd' = broadcast_addr vd)"

definition ip_plus :: "ip_addr \<Rightarrow> nat \<Rightarrow> ip_addr" where
  "ip_plus a i = (case a of V4 w \<Rightarrow> V4 (w + of_nat i) | V6 w \<Rightarrow> V6 (w + of_nat i))"

definition pool_size :: "'c virtual_dns \<Rightarrow> nat" where
  "pool_size vd = ip_num (broadcast_addr vd) - ip_num (network_addr vd) + 1"

definition pool_addr :: "'c virtual_dns \<Rightarrow> nat \<Rightarrow> ip_addr" where
  "pool_addr vd i = ip_plus (network_addr vd) i"

definition claim_at ::
  "'c vd_env \<Rightarrow> ip_addr \<Rightarrow> string \<Rightarrow> 'c virtual_dns \<Rightarrow> disk \<Rightarrow> ip_addr result \<times> 'c virtual_dns \<times> disk" where
  "claim_at E a name vd d = (case persist_mapping E a name
       (vd\<lparr>next_addr := a, lru_cache := l_insert (ve_lru E) (lru_cache vd) a name,
           name_to_ip := (name_to_ip vd)(name \<mapsto> a)\<rparr>) d of
     (vd', d') \<Rightarrow> (Inr (next_addr vd'), vd', d'))"

definition recycle ::
  "'c vd_env \<Rightarrow> ip_addr \<Rightarrow> string \<Rightarrow> 'c virtual_dns \<Rightarrow> disk \<Rightarrow> ip_addr result \<times> 'c virtual_dns \<times> disk" where
  "recycle E started_at name vd d =
     (let vd1 = vd\<lparr>next_addr := started_at\<rparr> in
      case l_remove_lru (ve_lru E) (lru_cache vd1) of
        (None, c) \<Rightarrow> (Inl (StringError ''Virtual IP space for DNS exhausted''), vd1\<lparr>lru_cache := c\<rparr>, d)
      | (Some (ip, old_name), c) \<Rightarrow>
          (case persist_mapping E ip name
                  (vd1\<lparr>lru_cache := l_insert (ve_lru E) c ip name,
                       name_to_ip := ((name_to_ip vd1)(old_name := None))(name \<mapsto> ip)\<rparr>) d of
             (vd', d') \<Rightarrow> (Inr ip, vd', d')))"

text \<open>Client operations on the resolver: a DNS query for a name, a connection to an address.\<close>

datatype vd_op = QueryName string | ConnectTo ip_addr

fun vd_run :: "'c vd_env \<Rightarrow> vd_op list \<Rightarrow> 'c virtual_dns \<Rightarrow> disk \<Rightarrow> ('c virtual_dns \<times> disk) option" where
  "vd_run E [] vd d = Some (vd, d)"
| "vd_run E (QueryName name # ops) vd d = (case find_or_allocate_ip E name vd d of
     None \<Rightarrow> None | Some (_, vd', d') \<Rightarrow> vd_run E ops vd' d')"
| "vd_run E (ConnectTo ip # ops) vd d = (case resolve_virtual_domain E ip (Some vd) of
     (_, None) \<Rightarrow> None | (_, Some vd') \<Rightarrow> vd_run E ops vd' d)"

definition young :: "'c vd_env \<Rightarrow> 'c virtual_dns \<Rightarrow> ip_addr \<Rightarrow> string \<Rightarrow> nat \<Rightarrow> bool" where
  "young E vd ip n k = (\<exists>xs ys. vd_entries E vd = xs @ (ip, n) # ys \<and> length ys \<le> k)"

text \<open>A cache and a resolver for concrete instances of the theorems.\<close>

definition list_lru :: "(ip_addr \<times> string) list lru_ops" where
  "list_lru = \<lparr>l_iter = (\<lambda>c. c), l_new = [], l_clear = (\<lambda>_. []),
     l_get = (\<lambda>c k. case map_of c k of None \<Rightarrow> (None, c) | Some v \<Rightarrow> (Some v, alist_drop k c @ [(k, v)])),
     l_contains = (\<lambda>c k. map_of c k \<noteq> None),
     l_insert = (\<lambda>c k v. alist_drop k c @ [(k, v)]),
     l_remove = (\<lambda>c k. (map_of c k, alist_drop k c)),
     l_remove_lru = (\<lambda>c. case c of [] \<Rightarrow> (None, []) | e # es \<Rightarrow> (Some e, es)),
     l_len = length\<rparr>"

definition demo_env :: "(ip_addr \<times> string) list vd_env" where
  "demo_env = \<lparr>ve_lru = list_lru, ve_windows = False, ve_enc = demo_enc, ve_dec = demo_dec\<rparr>"

definition demo_vd :: "(ip_addr \<times> string) list virtual_dns" where
  "demo_vd = virtual_dns_new demo_env (V4 16) (V4 31)"

section \<open>Addresses of the pool\<close>

lemma unat_byte_255: "unat (255::byte) = 255"
  by (simp add: take_bit_eq_mod)

lemma unat_byte_Suc: "(b::byte) \<noteq> 255 \<Longrightarrow> unat (b + 1) = Suc (unat b)"
proof -
  assume "b \<noteq> 255"
  then have "unat b \<noteq> 255" using unat_byte_255 word_unat_eq_iff [of b 255] by simp
  then show ?thesis using unat_byte_less [of b] by (simp add: unat_word_ariths)
qed

lemma length_increment_octets [simp]: "length (increment_octets bs) = length bs"
  by (induction bs) auto

lemma nat_of_be_increment:
  "nat_of_be (rev (increment_octets bs)) = (nat_of_be (rev bs) + 1) mod 256 ^ length bs"
proof (induction bs)
  case Nil
  then show ?case by simp
next
  case (Cons b bs)
  show ?case
  proof (cases "b = 255")
    case True
    have "(nat_of_be (rev bs) + 1) mod 256 ^ length bs * 256
        = ((nat_of_be (rev bs) + 1) * 256) mod (256 ^ length bs * 256)"
      by (simp add: mult_mod_left)
    then show ?thesis using True Cons unat_byte_255 by (simp add: algebra_simps)
  next
    case False
    have "nat_of_be (rev bs @ [b + 1]) < 256 ^ Suc (length bs)"
      using nat_of_be_less [of "rev bs @ [b + 1]"] by simp
    then show ?thesis using False by (simp add: unat_byte_Suc)
  qed
qed

lemma from_be_increment:
  assumes "8 * n = LENGTH('a::len)" "n = LENGTH('a) div 8"
  shows "from_be_bytes (rev (increment_octets (rev (to_be_bytes (w :: 'a word))))) = w + 1"
proof -
  have "(256::nat) ^ n = 2 ^ LENGTH('a)" using assms(1) by (simp add: power_mult flip: assms(1))
  moreover have "nat_of_be (to_be_bytes w) = unat w"
    using calculation assms unsigned_less [where ?'a = nat and w = w]
    by (simp add: to_be_bytes_def nat_of_be_of_nat)
  ultimately have "nat_of_be (rev (increment_octets (rev (to_be_bytes w))))
      = (unat w + 1) mod 2 ^ LENGTH('a)"
    using nat_of_be_increment [of "rev (to_be_bytes w)"] assms by (simp add: length_to_be_bytes)
  then show ?thesis
    by (simp add: from_be_bytes_def word_unat_eq_iff unat_of_nat unat_word_ariths)
qed

lemma increment_ip_V4: "increment_ip (V4 w) = Inr (V4 (w + 1))"
  and increment_ip_V6: "increment_ip (V6 v) = Inr (V6 (v + 1))"
  by (simp_all add: increment_ip_def octets_def from_be_increment [where n = 4]
      from_be_increment [where n = 16])

lemma ip_num_ip_plus:
  "is_ipv4 a \<Longrightarrow> ip_num a + i < 2 ^ 32 \<Longrightarrow> ip_num (ip_plus a i) = ip_num a + i"
  "\<not> is_ipv4 a \<Longrightarrow> ip_num a + i < 2 ^ 128 \<Longrightarrow> ip_num (ip_plus a i) = ip_num a + i"
  by (auto simp: ip_num_def ip_plus_def is_ipv4_def unat_word_ariths unat_of_nat split: ip_addr.splits)

lemma ip_num_less: "ip_num a < (if is_ipv4 a then 2 ^ 32 else 2 ^ 128)"
proof (cases a)
  case (V4 w)
  then show ?thesis using unsigned_less [where ?'a = nat and w = w] by (simp add: ip_num_def)
next
  case (V6 w)
  then show ?thesis using unsigned_less [where ?'a = nat and w = w] by (simp add: ip_num_def)
qed

lemma is_ipv4_ip_plus [simp]: "is_ipv4 (ip_plus a i) = is_ipv4 a"
  by (simp add: ip_plus_def is_ipv4_def split: ip_addr.split)

lemma ip_num_inject: "is_ipv4 a = is_ipv4 b \<Longrightarrow> ip_num a = ip_num b \<longleftrightarrow> a = b"
  by (auto simp: ip_num_def is_ipv4_def word_unat_eq_iff split: ip_addr.splits)

lemma ip_num_le: "is_ipv4 a = is_ipv4 b \<Longrightarrow> a \<le> b \<longleftrightarrow> ip_num a \<le> ip_num b"
  by (auto simp: ip_num_def is_ipv4_def word_le_nat_alt split: ip_addr.splits)

lemma pool_ok_num:
  assumes "pool_ok vd"
  shows "ip_num (network_addr vd) \<le> ip_num (broadcast_addr vd)"
    "is_ipv4 (network_addr vd) = is_ipv4 (broadcast_addr vd)"
  using assms ip_num_le [of "network_addr vd" "broadcast_addr vd"] by (auto simp: pool_ok_def)

lemma vd_address_in_pool_num:
  assumes "pool_ok vd"
  shows "vd_address_in_pool vd a \<longleftrightarrow> is_ipv4 a = is_ipv4 (network_addr vd)
    \<and> ip_num (network_addr vd) \<le> ip_num a \<and> ip_num a \<le> ip_num (broadcast_addr vd)"
  using pool_ok_num [OF assms] ip_num_le [of "network_addr vd" a] ip_num_le [of a "broadcast_addr vd"]
  by (auto simp: vd_address_in_pool_def)

lemma ip_num_pool_addr:
  assumes "pool_ok vd" "i < pool_size vd"
  shows "ip_num (pool_addr vd i) = ip_num (network_addr vd) + i"
proof -
  have "ip_num (network_addr vd) + i \<le> ip_num (broadcast_addr vd)"
    using assms(2) pool_ok_num [OF assms(1)] by (simp add: pool_size_def)
  then have "ip_num (network_addr vd) + i < (if is_ipv4 (network_addr vd) then 2 ^ 32 else 2 ^ 128)"
    using ip_num_less [of "broadcast_addr vd"] pool_ok_num(2) [OF assms(1)] by auto
  then show ?thesis
    by (auto simp: pool_addr_def ip_num_ip_plus split: if_splits)
qed

lemma pool_addr_in_pool: "pool_ok vd \<Longrightarrow> i < pool_size vd \<Longrightarrow> vd_address_in_pool vd (pool_addr vd i)"
  using ip_num_pool_addr [of vd i] pool_ok_num [of vd]
  by (simp add: vd_address_in_pool_num pool_size_def) (simp add: pool_addr_def)

lemma in_pool_addr:
  assumes "pool_ok vd" "vd_address_in_pool vd a"
  obtains i where "i < pool_size vd" "a = pool_addr vd i"
proof
  let ?i = "ip_num a - ip_num (network_addr vd)"
  have fam: "is_ipv4 a = is_ipv4 (network_addr vd)"
    and le: "ip_num (network_addr vd) \<le> ip_num a" "ip_num a \<le> ip_num (broadcast_addr vd)"
    using assms(2) vd_address_in_pool_num [OF assms(1)] by auto
  then show i: "?i < pool_size vd" by (simp add: pool_size_def)
  from ip_num_pool_addr [OF assms(1) i] le have "ip_num a = ip_num (pool_addr vd ?i)" by simp
  then show "a = pool_addr vd ?i"
    using ip_num_inject [of a "pool_addr vd ?i"] fam by (simp add: pool_addr_def)
qed

lemma pool_addr_inject:
  "pool_ok vd \<Longrightarrow> i < pool_size vd \<Longrightarrow> j < pool_size vd \<Longrightarrow> pool_addr vd i = pool_addr vd j \<longleftrightarrow> i = j"
  by (metis add_left_cancel ip_num_pool_addr)

lemma broadcast_pool_addr:
  assumes "pool_ok vd"
  shows "broadcast_addr vd = pool_addr vd (pool_size vd - 1)"
proof -
  have "ip_num (broadcast_addr vd) = ip_num (pool_addr vd (pool_size vd - 1))"
    using ip_num_pool_addr [OF assms, of "pool_size vd - 1"] pool_ok_num [OF assms]
    by (simp add: pool_size_def)
  then show ?thesis
    using ip_num_inject [of "broadcast_addr vd" "pool_addr vd (pool_size vd - 1)"]
      pool_ok_num [OF assms] by (simp add: pool_addr_def)
qed

lemma pool_addr_0 [simp]: "pool_addr vd 0 = network_addr vd"
  by (simp add: pool_addr_def ip_plus_def split: ip_addr.split)

lemma increment_ip_plus: "increment_ip a = Inr (ip_plus a 1)"
  by (cases a) (simp_all add: increment_ip_V4 increment_ip_V6 ip_plus_def)

text \<open>One turn of the scan goes to the next address of the pool, cyclically.\<close>

lemma scan_step:
  assumes "pool_ok vd" "i < pool_size vd"
  shows "(if pool_addr vd i = broadcast_addr vd then Inr (network_addr vd)
          else increment_ip (pool_addr vd i)) = Inr (pool_addr vd (Suc i mod pool_size vd))"
proof (cases "Suc i = pool_size vd")
  case True
  then have "pool_addr vd i = broadcast_addr vd"
    using broadcast_pool_addr [OF assms(1)] by (simp flip: True)
  then show ?thesis using True by simp
next
  case False
  then have lt: "Suc i < pool_size vd" using assms(2) by simp
  have "pool_addr vd i \<noteq> broadcast_addr vd"
    using pool_addr_inject [OF assms(1,2), of "pool_size vd - 1"] lt
    by (simp add: broadcast_pool_addr [OF assms(1)])
  moreover have "increment_ip (pool_addr vd i) = Inr (pool_addr vd (Suc i))"
    by (simp add: increment_ip_plus pool_addr_def ip_plus_def add.assoc add.commute split: ip_addr.split)
  ultimately show ?thesis using lt by simp
qed

section \<open>The allocation loop\<close>

lemma lru_lawsD:
  assumes "lru_laws L"
  shows "l_iter L (l_new L) = []" "l_iter L (l_clear L c) = []" "l_len L c = length (l_iter L c)"
    "l_contains L c k \<longleftrightarrow> k \<in> fst ` set (l_iter L c)"
    "fst (l_get L c k) = map_of (l_iter L c) k"
    "l_iter L (snd (l_get L c k)) = (case map_of (l_iter L c) k of
        None \<Rightarrow> l_iter L c | Some v \<Rightarrow> alist_drop k (l_iter L c) @ [(k, v)])"
    "l_iter L (l_insert L c k v) = alist_drop k (l_iter L c) @ [(k, v)]"
    "fst (l_remove L c k) = map_of (l_iter L c) k"
    "l_iter L (snd (l_remove L c k)) = alist_drop k (l_iter L c)"
    "l_iter L c = [] \<Longrightarrow> fst (l_remove_lru L c) = None"
    "l_iter L c = e # es \<Longrightarrow> fst (l_remove_lru L c) = Some e"
    "l_iter L c = e # es \<Longrightarrow> l_iter L (snd (l_remove_lru L c)) = es"
proof -
  note l = assms [unfolded lru_laws_def]
  show "l_iter L (l_new L) = []" "l_iter L (l_clear L c) = []" "l_len L c = length (l_iter L c)"
    "fst (l_get L c k) = map_of (l_iter L c) k"
    "l_iter L (snd (l_get L c k)) = (case map_of (l_iter L c) k of
        None \<Rightarrow> l_iter L c | Some v \<Rightarrow> alist_drop k (l_iter L c) @ [(k, v)])"
    "l_iter L (l_insert L c k v) = alist_drop k (l_iter L c) @ [(k, v)]"
    "fst (l_remove L c k) = map_of (l_iter L c) k"
    "l_iter L (snd (l_remove L c k)) = alist_drop k (l_iter L c)"
    using l by blast+
  show "l_contains L c k \<longleftrightarrow> k \<in> fst ` set (l_iter L c)"
    using l by (simp add: map_of_eq_None_iff)
  have "case l_iter L c of
          [] \<Rightarrow> fst (l_remove_lru L c) = None \<and> l_iter L (snd (l_remove_lru L c)) = []
        | e # es \<Rightarrow> fst (l_remove_lru L c) = Some e \<and> l_iter L (snd (l_remove_lru L c)) = es"
    using l by blast
  then show "l_iter L c = [] \<Longrightarrow> fst (l_remove_lru L c) = None"
    "l_iter L c = e # es \<Longrightarrow> fst (l_remove_lru L c) = Some e"
    "l_iter L c = e # es \<Longrightarrow> l_iter L (snd (l_remove_lru L c)) = es" by simp_all
qed

lemma rewrite_persistence_frame:
  "rewrite_persistence E vd d = (r, vd', d') \<Longrightarrow> \<exists>p. vd' = vd\<lparr>persistence := p\<rparr>"
  by (cases vd) (auto simp: rewrite_persistence_def split: option.splits prod.splits)

lemma persist_mapping_frame:
  assumes "persist_mapping E ip name vd d = (vd', d')"
  shows "\<exists>p. vd' = vd\<lparr>persistence := p\<rparr>"
proof (cases "persistence vd")
  case None
  then show ?thesis using assms by (cases vd) (auto simp: persist_mapping_def)
next
  case (Some pc)
  define step where "step = (case needs_rewrite pc d of
            (Inr True, d1) \<Rightarrow> rewrite_persistence E vd d1
          | (Inr False, d1) \<Rightarrow> (case append_mapping (ve_enc E) ip name pc d1 of
               (Inl e, pc', d2) \<Rightarrow> (Inl e, vd\<lparr>persistence := Some pc'\<rparr>, d2)
             | (Inr _, pc', d2) \<Rightarrow>
                 (let vd' = vd\<lparr>persistence := Some pc'\<rparr> in
                  if should_compact (l_len (ve_lru E) (lru_cache vd)) pc'
                  then rewrite_persistence E vd' d2 else (Inr (), vd', d2)))
          | (Inl e, d1) \<Rightarrow> (Inl e, vd, d1))"
  obtain r vd2 d2 where st: "step = (r, vd2, d2)" by (metis prod_cases3)
  then obtain p where p: "vd2 = vd\<lparr>persistence := p\<rparr>"
    unfolding step_def by (cases vd)
      (auto simp: Let_def dest!: rewrite_persistence_frame
        split: prod.splits sum.splits bool.splits if_splits)
  show ?thesis
  proof (cases r)
    case (Inr u)
    then show ?thesis using assms Some st p by (auto simp: persist_mapping_def step_def)
  next
    case (Inl e)
    obtain r3 vd3 d3 where rw: "rewrite_persistence E
        (vd2\<lparr>persistence := map_option mark_dirty (persistence vd2)\<rparr>) d2 = (r3, vd3, d3)"
      by (metis prod_cases3)
    then have "vd' = vd3" using assms Some st Inl by (simp add: persist_mapping_def step_def)
    then show ?thesis using rewrite_persistence_frame [OF rw] p by auto
  qed
qed

lemma retry_dirty_persistence_frame:
  "retry_dirty_persistence E vd d = (vd', d') \<Longrightarrow> \<exists>p. vd' = vd\<lparr>persistence := p\<rparr>"
proof -
  assume run: "retry_dirty_persistence E vd d = (vd', d')"
  obtain r vd2 d2 where rw: "rewrite_persistence E vd d = (r, vd2, d2)" by (metis prod_cases3)
  have "\<exists>p. v = v\<lparr>persistence := p\<rparr>" for v :: "'a virtual_dns"
    by (rule exI [of _ "persistence v"]) simp
  then show ?thesis
    using run rw rewrite_persistence_frame [OF rw]
    by (auto simp: retry_dirty_persistence_def split: option.splits if_splits)
qed

lemma cyclic_return:
  assumes "s < (n::nat)" "0 < j" "j \<le> n"
  shows "(s + j) mod n = s \<longleftrightarrow> j = n"
proof (cases "s + j < n")
  case False
  then have "(s + j) mod n = s + j - n" using assms by (simp add: mod_if)
  then show ?thesis using False assms by auto
qed (use assms in auto)

lemma cyclic_cover:
  assumes "s < n" "i < (n::nat)"
  obtains j where "j < n" "(s + j) mod n = i"
proof (cases "s \<le> i")
  case True
  then show ?thesis using that [of "i - s"] assms by simp
next
  case False
  then have "(s + (n - s + i)) mod n = i" using assms by simp
  then show ?thesis using that [of "n - s + i"] False assms by simp
qed

text \<open>
  The loop returns: it either claims the first vacant address after the cursor, or has seen
  every address of the pool and recycles.
\<close>

lemma allocate_loop_search:
  assumes pool: "pool_ok vd" and s: "s < pool_size vd" and k: "k < pool_size vd"
    and cur: "next_addr vd = pool_addr vd ((s + k) mod pool_size vd)"
    and seen: "\<forall>j<k. l_contains (ve_lru E) (lru_cache vd) (pool_addr vd ((s + j) mod pool_size vd))"
  shows "(\<exists>j<pool_size vd. \<not> l_contains (ve_lru E) (lru_cache vd) (pool_addr vd ((s + j) mod pool_size vd))
            \<and> allocate_loop E (pool_addr vd s) name vd d
                = Some (claim_at E (pool_addr vd ((s + j) mod pool_size vd)) name vd d))
       \<or> (\<forall>j<pool_size vd. l_contains (ve_lru E) (lru_cache vd) (pool_addr vd ((s + j) mod pool_size vd)))
            \<and> allocate_loop E (pool_addr vd s) name vd d = Some (recycle E (pool_addr vd s) name vd d)"
  using assms
proof (induction "pool_size vd - k" arbitrary: k vd rule: less_induct)
  case less
  let ?N = "pool_size vd" and ?c = "l_contains (ve_lru E) (lru_cache vd)"
  let ?i = "(s + k) mod ?N"
  have i: "?i < ?N" using less.prems(3) by simp
  show ?case
  proof (cases "?c (next_addr vd)")
    case False
    have upd: "vd\<lparr>next_addr := next_addr vd, lru_cache := c, name_to_ip := m\<rparr>
        = vd\<lparr>lru_cache := c, name_to_ip := m\<rparr>" for c m by (cases vd) simp
    have "allocate_loop E (pool_addr vd s) name vd d = Some (claim_at E (next_addr vd) name vd d)"
      using False unfolding claim_at_def upd
      by (subst allocate_loop.simps) (simp add: Let_def split: prod.split)
    then show ?thesis using False less.prems(3,4) by auto
  next
    case True
    let ?nx = "pool_addr vd (Suc ?i mod ?N)"
    let ?vd1 = "vd\<lparr>next_addr := ?nx\<rparr>"
    have next_eq: "Suc ?i mod ?N = (s + Suc k) mod ?N" by (simp add: mod_Suc_eq)
    have seen: "\<forall>j<Suc k. ?c (pool_addr vd ((s + j) mod ?N))"
      using less.prems(4,5) True by (auto simp: less_Suc_eq)
    have turn: "?nx = pool_addr vd s \<longleftrightarrow> Suc k = ?N"
      using cyclic_return [OF less.prems(2), of "Suc k"] less.prems(1-3)
        pool_addr_inject [OF less.prems(1), of "Suc ?i mod ?N" s] next_eq by auto
    have step: "(if next_addr vd = broadcast_addr vd then Inr (network_addr vd)
          else increment_ip (next_addr vd)) = Inr ?nx"
      unfolding less.prems(4) by (rule scan_step [OF less.prems(1) i])
    show ?thesis
    proof (cases "Suc k = ?N")
      case True
      have "allocate_loop E (pool_addr vd s) name vd d = Some (recycle E (pool_addr vd s) name vd d)"
        using \<open>?c (next_addr vd)\<close> step turn True
        by (subst allocate_loop.simps) (simp add: recycle_def Let_def split: prod.split option.split)
      then show ?thesis using seen True by simp
    next
      case False
      have pool1: "pool_size ?vd1 = ?N" "pool_addr ?vd1 = pool_addr vd" "pool_ok ?vd1"
        using less.prems(1) by (auto simp: pool_size_def pool_addr_def pool_ok_def)
      have run: "allocate_loop E (pool_addr vd s) name vd d
               = allocate_loop E (pool_addr vd s) name ?vd1 d"
        using \<open>?c (next_addr vd)\<close> step turn False
        by (subst allocate_loop.simps) (simp add: Let_def)
      have same: "claim_at E a name (vd\<lparr>next_addr := x\<rparr>) d = claim_at E a name vd d"
        "recycle E a name (vd\<lparr>next_addr := x\<rparr>) d = recycle E a name vd d" for a x
        by (simp_all add: claim_at_def recycle_def)
      have "?N - Suc k < ?N - k" using less.prems(3) by simp
      from less.hyps [of "?vd1" "Suc k"] this less.prems False seen next_eq pool1
      show ?thesis by (simp add: run same)
    qed
  qed
qed

section \<open>The two maps agree\<close>

lemma consistent_key: "consistent es m \<Longrightarrow> (ip, a) \<in> set es \<Longrightarrow> (ip, b) \<in> set es \<Longrightarrow> a = b"
  unfolding consistent_def by (metis eq_key_imp_eq_value)

lemma consistent_name: "consistent es m \<Longrightarrow> (i, n) \<in> set es \<Longrightarrow> (j, n) \<in> set es \<Longrightarrow> i = j"
  unfolding consistent_def by (metis option.inject)

lemma set_alist_drop [simp]: "set (alist_drop k es) = {e \<in> set es. fst e \<noteq> k}"
  by (simp add: alist_drop_def)

lemma distinct_alist_drop: "distinct (map fst es) \<Longrightarrow> distinct (map fst (alist_drop k es))"
  by (simp add: alist_drop_def distinct_fst_filter)

lemma alist_drop_id: "k \<notin> fst ` set es \<Longrightarrow> alist_drop k es = es"
  by (auto simp: alist_drop_def filter_id_conv image_iff)

lemma consistent_add:
  "consistent es m \<Longrightarrow> m n = None \<Longrightarrow> ip \<notin> fst ` set es \<Longrightarrow> consistent (es @ [(ip, n)]) (m(n \<mapsto> ip))"
  unfolding consistent_def by (auto simp: image_iff) (metis option.distinct(1))

lemma consistent_drop:
  assumes c: "consistent es m" and e: "(ip, n) \<in> set es"
  shows "consistent (alist_drop ip es) (m(n := None))"
proof -
  have "distinct (map fst (alist_drop ip es))"
    using c by (simp add: consistent_def distinct_alist_drop)
  moreover have "(m(n := None)) a = Some i \<longleftrightarrow> (i, a) \<in> set (alist_drop ip es)" for a i
  proof -
    have "m a = Some i \<longleftrightarrow> (i, a) \<in> set es" using c by (simp add: consistent_def)
    moreover have "(i, a) \<in> set es \<Longrightarrow> a = n \<longleftrightarrow> i = ip"
      using consistent_key [OF c e, of a] consistent_name [OF c e, of i] by blast
    ultimately show ?thesis by auto
  qed
  ultimately show ?thesis by (simp add: consistent_def)
qed

lemma consistent_touch:
  assumes "consistent es m" "(ip, n) \<in> set es"
  shows "consistent (alist_drop ip es @ [(ip, n)]) m"
proof -
  have "consistent (alist_drop ip es @ [(ip, n)]) ((m(n := None))(n \<mapsto> ip))"
    by (rule consistent_add [OF consistent_drop [OF assms]]) auto
  moreover have "m n = Some ip" using assms by (simp add: consistent_def)
  ultimately show ?thesis by (simp add: fun_upd_idem)
qed

lemma consistent_tl:
  assumes "consistent ((ip, n) # es) m"
  shows "consistent es (m(n := None))"
proof -
  have "alist_drop ip ((ip, n) # es) = es"
    using assms alist_drop_id [of ip es] by (simp add: consistent_def alist_drop_def)
  then show ?thesis using consistent_drop [OF assms, of ip n] by simp
qed

lemma vd_inv_consistent:
  "vd_inv E vd \<longleftrightarrow> pool_ok vd \<and> vd_address_in_pool vd (next_addr vd)
     \<and> consistent (vd_entries E vd) (name_to_ip vd)
     \<and> (\<forall>(ip, name) \<in> set (vd_entries E vd). vd_address_in_pool vd ip \<and> canonical_name vd name = name)"
  by (auto simp: vd_inv_def consistent_def)

lemma canonical_name_idem [simp]: "canonical_name vd (canonical_name vd name) = canonical_name vd name"
proof -
  have trim: "\<not> ends_with c (trim_end_matches c s)" for c s
    by (induction s rule: rev_induct) (auto simp: ends_with_def trim_end_matches_def)
  have ends: "ends_with CHR ''.'' (to_ascii_lowercase s) = ends_with CHR ''.'' s" for s
    by (cases s rule: rev_cases) (auto simp: ends_with_def to_ascii_lowercase_def ascii_lower_dot)
  show ?thesis by (auto simp: canonical_name_def ends trim)
qed

text \<open>The virtual resolver is full exactly when every pool address has a name.\<close>

lemma entries_pool:
  assumes "vd_inv E vd"
  shows "length (vd_entries E vd) \<le> pool_size vd"
    and "length (vd_entries E vd) = pool_size vd
         \<longleftrightarrow> (\<forall>i<pool_size vd. pool_addr vd i \<in> fst ` set (vd_entries E vd))"
proof -
  let ?K = "fst ` set (vd_entries E vd)" and ?P = "pool_addr vd ` {..<pool_size vd}"
  have pool: "pool_ok vd" using assms by (simp add: vd_inv_def)
  have sub: "?K \<subseteq> ?P"
    using assms by (auto simp: vd_inv_def elim!: in_pool_addr [OF pool])
  have card_K: "card ?K = length (vd_entries E vd)"
    using assms distinct_card [of "map fst (vd_entries E vd)"] by (simp add: vd_inv_def)
  have card_P: "card ?P = pool_size vd"
    by (subst card_image) (auto simp: inj_on_def pool_addr_inject [OF pool])
  show "length (vd_entries E vd) \<le> pool_size vd"
    using card_mono [OF _ sub] card_K card_P by simp
  have "length (vd_entries E vd) = pool_size vd \<longleftrightarrow> ?K = ?P"
    using card_subset_eq [OF _ sub] card_K card_P by auto
  also have "\<dots> \<longleftrightarrow> (\<forall>i<pool_size vd. pool_addr vd i \<in> ?K)" using sub by auto
  finally show "length (vd_entries E vd) = pool_size vd
      \<longleftrightarrow> (\<forall>i<pool_size vd. pool_addr vd i \<in> ?K)" .
qed

lemma vd_simps [simp]:
  "vd_entries E (vd\<lparr>persistence := p\<rparr>) = vd_entries E vd"
  "vd_entries E (vd\<lparr>next_addr := a\<rparr>) = vd_entries E vd"
  "vd_entries E (vd\<lparr>name_to_ip := m\<rparr>) = vd_entries E vd"
  "vd_entries E (vd\<lparr>lru_cache := c\<rparr>) = l_iter (ve_lru E) c"
  "canonical_name (vd\<lparr>persistence := p\<rparr>) = canonical_name vd"
  "canonical_name (vd\<lparr>next_addr := a\<rparr>) = canonical_name vd"
  "canonical_name (vd\<lparr>name_to_ip := m\<rparr>) = canonical_name vd"
  "canonical_name (vd\<lparr>lru_cache := c\<rparr>) = canonical_name vd"
  "vd_address_in_pool (vd\<lparr>persistence := p\<rparr>) = vd_address_in_pool vd"
  "vd_address_in_pool (vd\<lparr>next_addr := a\<rparr>) = vd_address_in_pool vd"
  "vd_address_in_pool (vd\<lparr>name_to_ip := m\<rparr>) = vd_address_in_pool vd"
  "vd_address_in_pool (vd\<lparr>lru_cache := c\<rparr>) = vd_address_in_pool vd"
  "pool_ok (vd\<lparr>persistence := p\<rparr>) = pool_ok vd"
  "pool_ok (vd\<lparr>next_addr := a\<rparr>) = pool_ok vd"
  "pool_ok (vd\<lparr>name_to_ip := m\<rparr>) = pool_ok vd"
  "pool_ok (vd\<lparr>lru_cache := c\<rparr>) = pool_ok vd"
  by (simp_all add: vd_entries_def canonical_name_def vd_address_in_pool_def pool_ok_def fun_eq_iff)

lemma vd_inv_persistence [simp]: "vd_inv E (vd\<lparr>persistence := p\<rparr>) = vd_inv E vd"
  by (simp add: vd_inv_consistent)

lemma touch_ip_entries:
  assumes "lru_laws (ve_lru E)" "vd_inv E vd" "(ip, n) \<in> set (vd_entries E vd)"
  shows "vd_entries E (touch_ip E ip vd) = alist_drop ip (vd_entries E vd) @ [(ip, n)]"
proof -
  have "map_of (vd_entries E vd) ip = Some n" using assms(2,3) by (simp add: vd_inv_def)
  then show ?thesis using lru_lawsD(6) [OF assms(1)] by (simp add: touch_ip_def vd_entries_def)
qed

lemma touch_ip_absent:
  assumes "lru_laws (ve_lru E)" "ip \<notin> fst ` set (vd_entries E vd)"
  shows "vd_entries E (touch_ip E ip vd) = vd_entries E vd"
proof -
  have "map_of (vd_entries E vd) ip = None" using assms(2) by (simp add: map_of_eq_None_iff)
  then show ?thesis using lru_lawsD(6) [OF assms(1)] by (simp add: touch_ip_def vd_entries_def)
qed

lemma touch_ip_inv:
  assumes "lru_laws (ve_lru E)" "vd_inv E vd"
  shows "vd_inv E (touch_ip E ip vd)"
proof (cases "ip \<in> fst ` set (vd_entries E vd)")
  case True
  then obtain n where n: "(ip, n) \<in> set (vd_entries E vd)" by auto
  have "consistent (vd_entries E (touch_ip E ip vd)) (name_to_ip vd)"
    using consistent_touch [OF _ n] assms touch_ip_entries [OF assms n] by (simp add: vd_inv_consistent)
  then show ?thesis
    using assms(2) n touch_ip_entries [OF assms n]
    by (auto simp: vd_inv_consistent) (auto simp: touch_ip_def)
next
  case False
  then show ?thesis
    using assms touch_ip_absent [OF assms(1) False]
    by (auto simp: vd_inv_consistent) (auto simp: touch_ip_def)
qed

lemma find_or_allocate_hit:
  assumes laws: "lru_laws (ve_lru E)" and inv: "vd_inv E vd"
    and hit: "name_to_ip vd (canonical_name vd name) = Some ip"
  shows "\<exists>vd' d'. find_or_allocate_ip E name vd d = Some (Inr ip, vd', d') \<and> vd_inv E vd'
     \<and> alloc_effect E (canonical_name vd name) vd ip vd'"
proof -
  let ?n = "canonical_name vd name"
  obtain vd' d' where run: "retry_dirty_persistence E (touch_ip E ip vd) d = (vd', d')" by fastforce
  from retry_dirty_persistence_frame [OF run] obtain p where
    vd': "vd' = (touch_ip E ip vd)\<lparr>persistence := p\<rparr>" by blast
  have mem: "(ip, ?n) \<in> set (vd_entries E vd)" using inv hit by (simp add: vd_inv_def)
  have "alloc_effect E ?n vd ip vd'"
    using hit touch_ip_entries [OF laws inv mem] by (simp add: alloc_effect_def vd' touch_ip_def)
  then show ?thesis
    using run hit touch_ip_inv [OF laws inv] by (simp add: find_or_allocate_ip_def vd')
qed

text \<open>
  A new name is first entered into the two maps and then recorded: the state \<^verbatim>\<open>vd1\<close> below is
  the one handed to \<^verbatim>\<open>persist_mapping\<close>.
\<close>

lemma claim_at_effect:
  assumes laws: "lru_laws (ve_lru E)" and inv: "vd_inv E vd" and miss: "name_to_ip vd n = None"
    and canon: "canonical_name vd n = n" and a: "vd_address_in_pool vd a"
    and vacant: "a \<notin> fst ` set (vd_entries E vd)"
  shows "\<exists>vd1 vd' d'. claim_at E a n vd d = (Inr a, vd', d') \<and> persist_mapping E a n vd1 d = (vd', d')
     \<and> vd_inv E vd1 \<and> alloc_effect E n vd a vd1 \<and> persistence vd1 = persistence vd"
proof -
  let ?vd1 = "vd\<lparr>next_addr := a, lru_cache := l_insert (ve_lru E) (lru_cache vd) a n,
                name_to_ip := (name_to_ip vd)(n \<mapsto> a)\<rparr>"
  obtain vd' d' where run: "persist_mapping E a n ?vd1 d = (vd', d')" by fastforce
  from persist_mapping_frame [OF run] have next': "next_addr vd' = a" by auto
  have es: "vd_entries E ?vd1 = vd_entries E vd @ [(a, n)]"
    using alist_drop_id [OF vacant] by (simp add: vd_entries_def lru_lawsD(7) [OF laws])
  have cons: "consistent (vd_entries E vd @ [(a, n)]) ((name_to_ip vd)(n \<mapsto> a))"
    using inv miss vacant by (intro consistent_add) (simp_all add: vd_inv_consistent)
  have inv': "vd_inv E ?vd1"
    using inv a canon cons unfolding vd_inv_consistent es by auto
  have "length (vd_entries E vd) < pool_size vd"
  proof -
    obtain i where "i < pool_size vd" "a = pool_addr vd i"
      using in_pool_addr a inv unfolding vd_inv_def by blast
    then show ?thesis using entries_pool [OF inv] vacant by force
  qed
  then have "alloc_effect E n vd a ?vd1"
    using vacant miss es unfolding alloc_effect_def by (simp add: pool_size_def)
  moreover have "claim_at E a n vd d = (Inr a, vd', d')"
    using run next' by (simp add: claim_at_def)
  ultimately show ?thesis
    using inv' run by (intro exI [of _ ?vd1] exI [of _ vd'] exI [of _ d']) simp
qed

lemma recycle_effect:
  assumes laws: "lru_laws (ve_lru E)" and inv: "vd_inv E vd" and miss: "name_to_ip vd n = None"
    and canon: "canonical_name vd n = n" and a: "vd_address_in_pool vd a"
    and full: "length (vd_entries E vd) = pool_size vd"
  shows "\<exists>ip vd1 vd' d'. recycle E a n vd d = (Inr ip, vd', d') \<and> persist_mapping E ip n vd1 d = (vd', d')
     \<and> vd_inv E vd1 \<and> alloc_effect E n vd ip vd1 \<and> persistence vd1 = persistence vd"
proof -
  have "vd_entries E vd \<noteq> []" using full by (auto simp: pool_size_def)
  then obtain ip old es where es: "vd_entries E vd = (ip, old) # es" by (metis list.exhaust surj_pair)
  obtain r c where rm: "l_remove_lru (ve_lru E) (lru_cache vd) = (r, c)" by fastforce
  have r: "r = Some (ip, old)" and c: "l_iter (ve_lru E) c = es"
    using lru_lawsD(11,12) [OF laws, of "lru_cache vd" "(ip, old)" es] es rm
    by (simp_all add: vd_entries_def)
  let ?vd1 = "vd\<lparr>next_addr := a, lru_cache := l_insert (ve_lru E) c ip n,
                name_to_ip := ((name_to_ip vd)(old := None))(n \<mapsto> ip)\<rparr>"
  obtain vd' d' where run: "persist_mapping E ip n ?vd1 d = (vd', d')" by fastforce
  have cons: "consistent ((ip, old) # es) (name_to_ip vd)" using inv es by (simp add: vd_inv_consistent)
  have ip: "ip \<notin> fst ` set es" using cons by (simp add: consistent_def)
  have es': "vd_entries E ?vd1 = es @ [(ip, n)]"
    using alist_drop_id [OF ip] by (simp add: lru_lawsD(7) [OF laws] c)
  have "consistent (es @ [(ip, n)]) (((name_to_ip vd)(old := None))(n \<mapsto> ip))"
    by (rule consistent_add [OF consistent_tl [OF cons] _ ip]) (simp add: miss)
  then have inv': "vd_inv E ?vd1"
    using inv a canon es unfolding vd_inv_consistent es' by auto
  have "alloc_effect E n vd ip ?vd1"
    using miss full es es' unfolding alloc_effect_def by (simp add: pool_size_def)
  then show ?thesis
    using inv' run rm r
    by (intro exI [of _ ip] exI [of _ ?vd1] exI [of _ vd'] exI [of _ d']) (simp add: recycle_def)
qed

lemma find_or_allocate_miss:
  assumes laws: "lru_laws (ve_lru E)" and inv: "vd_inv E vd"
    and miss: "name_to_ip vd (canonical_name vd name) = None"
  shows "\<exists>ip vd1 vd' d'. find_or_allocate_ip E name vd d = Some (Inr ip, vd', d')
     \<and> persist_mapping E ip (canonical_name vd name) vd1 d = (vd', d')
     \<and> vd_inv E vd1 \<and> alloc_effect E (canonical_name vd name) vd ip vd1 \<and> persistence vd1 = persistence vd"
proof -
  let ?n = "canonical_name vd name" and ?N = "pool_size vd"
  have pool: "pool_ok vd" and nx: "vd_address_in_pool vd (next_addr vd)"
    using inv by (simp_all add: vd_inv_def)
  from in_pool_addr [OF pool nx] obtain s where s: "s < ?N" "next_addr vd = pool_addr vd s" .
  have run: "find_or_allocate_ip E name vd d = allocate_loop E (pool_addr vd s) ?n vd d"
    using miss s by (simp add: find_or_allocate_ip_def)
  have contains: "l_contains (ve_lru E) (lru_cache vd) a \<longleftrightarrow> a \<in> fst ` set (vd_entries E vd)" for a
    using lru_lawsD(4) [OF laws] by (simp add: vd_entries_def)
  have "0 < ?N" by (simp add: pool_size_def)
  from allocate_loop_search [OF pool s(1) this, of E ?n d] s
  consider (claim) j where "j < ?N" "pool_addr vd ((s + j) mod ?N) \<notin> fst ` set (vd_entries E vd)"
      "allocate_loop E (pool_addr vd s) ?n vd d
         = Some (claim_at E (pool_addr vd ((s + j) mod ?N)) ?n vd d)"
    | (full) "\<forall>j<?N. pool_addr vd ((s + j) mod ?N) \<in> fst ` set (vd_entries E vd)"
      "allocate_loop E (pool_addr vd s) ?n vd d = Some (recycle E (pool_addr vd s) ?n vd d)"
    by (auto simp: contains)
  then show ?thesis
  proof cases
    case claim
    have "vd_address_in_pool vd (pool_addr vd ((s + j) mod ?N))"
      using \<open>0 < ?N\<close> by (intro pool_addr_in_pool [OF pool]) simp
    from claim_at_effect [OF laws inv miss canonical_name_idem this claim(2), of d] claim(3) run
    show ?thesis by (metis (no_types, lifting))
  next
    case full
    have "pool_addr vd i \<in> fst ` set (vd_entries E vd)" if "i < ?N" for i
      using cyclic_cover [OF s(1) that] full(1) by metis
    then have "length (vd_entries E vd) = ?N" using entries_pool(2) [OF inv] by blast
    from recycle_effect [OF laws inv miss canonical_name_idem _ this, of "pool_addr vd s" d] full(2) run nx s
    show ?thesis by (metis (no_types, lifting))
  qed
qed

lemma alloc_effect_persistence [simp]:
  "alloc_effect E n vd ip (vd'\<lparr>persistence := p\<rparr>) = alloc_effect E n vd ip vd'"
  by (simp add: alloc_effect_def split: option.split)

lemma find_or_allocate_effect:
  assumes "lru_laws (ve_lru E)" "vd_inv E vd"
  shows "\<exists>ip vd' d'. find_or_allocate_ip E name vd d = Some (Inr ip, vd', d') \<and> vd_inv E vd'
     \<and> alloc_effect E (canonical_name vd name) vd ip vd'"
proof (cases "name_to_ip vd (canonical_name vd name)")
  case None
  from find_or_allocate_miss [OF assms None, of d] obtain ip vd1 vd' d' where
    run: "find_or_allocate_ip E name vd d = Some (Inr ip, vd', d')"
    and p: "persist_mapping E ip (canonical_name vd name) vd1 d = (vd', d')"
    and vd1: "vd_inv E vd1" "alloc_effect E (canonical_name vd name) vd ip vd1" by blast
  from persist_mapping_frame [OF p] vd1 run show ?thesis by auto
next
  case (Some ip)
  then show ?thesis using find_or_allocate_hit [OF assms] by blast
qed

lemma resolve_virtual_domain_Some:
  assumes laws: "lru_laws (ve_lru E)" and inv: "vd_inv E vd"
  shows "\<exists>vd'. resolve_virtual_domain E ip (Some vd) =
      (case map_of (vd_entries E vd) ip of
         Some n \<Rightarrow> (Inr (Some n), Some vd')
       | None \<Rightarrow> (if vd_address_in_pool vd ip
                 then Inl (IoError NotFound ''stale virtual DNS address; reconnect after refreshing DNS'')
                 else Inr None, Some vd'))
     \<and> vd_inv E vd'
     \<and> vd_entries E vd' = (case map_of (vd_entries E vd) ip of
          None \<Rightarrow> vd_entries E vd | Some n \<Rightarrow> alist_drop ip (vd_entries E vd) @ [(ip, n)])
     \<and> network_addr vd' = network_addr vd \<and> broadcast_addr vd' = broadcast_addr vd
     \<and> name_to_ip vd' = name_to_ip vd \<and> trailing_dot vd' = trailing_dot vd"
proof -
  let ?t = "touch_ip E ip vd"
  let ?r = "touch_ip E ip ?t"
  have inv': "vd_inv E ?r" using laws inv by (simp add: touch_ip_inv)
  have res: "resolve_ip E ip ?t = (map_of (vd_entries E ?t) ip, ?r)"
    using lru_lawsD(5) [OF laws] by (auto simp: resolve_ip_def touch_ip_def vd_entries_def split: prod.split)
       (metis fst_conv)
  show ?thesis
  proof (cases "map_of (vd_entries E vd) ip")
    case None
    then have no: "ip \<notin> fst ` set (vd_entries E vd)" by (simp add: map_of_eq_None_iff)
    have t: "vd_entries E ?t = vd_entries E vd" by (rule touch_ip_absent [OF laws no])
    with no have "vd_entries E ?r = vd_entries E vd" using touch_ip_absent [OF laws, of ip ?t] by simp
    then show ?thesis
      using None t inv' res
      by (intro exI [of _ ?r]) (simp add: resolve_virtual_domain_def contains_address_def touch_ip_def)
  next
    case (Some n)
    then have mem: "(ip, n) \<in> set (vd_entries E vd)" by (rule map_of_SomeD)
    note t = touch_ip_entries [OF laws inv mem]
    have mem': "(ip, n) \<in> set (vd_entries E ?t)" by (simp add: t)
    note r = touch_ip_entries [OF laws touch_ip_inv [OF laws inv] mem']
    have drop: "alist_drop ip (alist_drop ip es @ [(ip, n)]) @ [(ip, n)] = alist_drop ip es @ [(ip, n)]" for es
      by (simp add: alist_drop_def)
    have "map_of (vd_entries E ?t) ip = Some n"
      using mem' touch_ip_inv [OF laws inv, of ip] by (simp add: vd_inv_def)
    then show ?thesis
      using Some inv' res r
      by (intro exI [of _ ?r]) (simp add: resolve_virtual_domain_def t drop, simp add: touch_ip_def)
  qed
qed

lemma young_lookup:
  assumes "vd_inv E vd" "young E vd ip n k"
  shows "map_of (vd_entries E vd) ip = Some n"
proof -
  have "(ip, n) \<in> set (vd_entries E vd)" using assms(2) by (auto simp: young_def)
  then show ?thesis using assms(1) by (simp add: vd_inv_def)
qed

lemma young_moved:
  assumes "young E vd ip n k" "vd_entries E vd' = alist_drop a (vd_entries E vd) @ [(a, b)]"
    and "a = ip \<Longrightarrow> b = n"
  shows "young E vd' ip n (Suc k)"
proof (cases "a = ip")
  case True
  then show ?thesis using assms(2,3) unfolding young_def by (metis le0 list.size(3))
next
  case False
  obtain xs ys where es: "vd_entries E vd = xs @ (ip, n) # ys" "length ys \<le> k"
    using assms(1) by (auto simp: young_def)
  have "vd_entries E vd' = alist_drop a xs @ (ip, n) # (alist_drop a ys @ [(a, b)])"
    using assms(2) es False by (simp add: alist_drop_def)
  moreover have "length (alist_drop a ys @ [(a, b)]) \<le> Suc k"
    using es(2) by (simp add: alist_drop_def) (metis le_trans length_filter_le)
  ultimately show ?thesis unfolding young_def by blast
qed

lemma young_alloc:
  assumes inv: "vd_inv E vd" and y: "young E vd ip n k" and k: "k < pool_size vd - 1"
    and eff: "alloc_effect E m vd a vd'"
  shows "young E vd' ip n (Suc k)"
proof (cases "name_to_ip vd m")
  case (Some ip0)
  then have eff': "vd_entries E vd' = alist_drop a (vd_entries E vd) @ [(a, m)]"
    and a: "a = ip0" using eff by (simp_all add: alloc_effect_def)
  have "(ip, n) \<in> set (vd_entries E vd)" using y by (auto simp: young_def)
  moreover have "(ip0, m) \<in> set (vd_entries E vd)" using Some inv by (simp add: vd_inv_def)
  ultimately have "a = ip \<Longrightarrow> m = n"
    using inv a consistent_key [of "vd_entries E vd"] by (auto simp: vd_inv_consistent)
  then show ?thesis by (rule young_moved [OF y eff'])
next
  case None
  obtain xs ys where es: "vd_entries E vd = xs @ (ip, n) # ys" "length ys \<le> k"
    using y by (auto simp: young_def)
  have "\<exists>xs'. vd_entries E vd' = xs' @ (ip, n) # (ys @ [(a, m)])"
  proof (cases "length (vd_entries E vd) < pool_size vd")
    case True
    then show ?thesis using None eff es by (simp add: alloc_effect_def pool_size_def)
  next
    case False
    then have full: "vd_entries E vd' = tl (vd_entries E vd) @ [(a, m)]"
      using None eff by (simp add: alloc_effect_def pool_size_def)
    have "xs \<noteq> []" using False es k by auto
    then show ?thesis using full es by (auto simp: neq_Nil_conv)
  qed
  then show ?thesis using es(2) unfolding young_def by force
qed

lemma vd_run_young:
  assumes "lru_laws (ve_lru E)" "vd_inv E vd" "young E vd ip n k" "k + length ops < pool_size vd"
  shows "\<exists>vd' d'. vd_run E ops vd d = Some (vd', d') \<and> vd_inv E vd'
           \<and> young E vd' ip n (k + length ops)"
  using assms(2-4)
proof (induction ops arbitrary: vd d k)
  case Nil
  then show ?case by simp
next
  case (Cons op ops)
  show ?case
  proof (cases op)
    case (QueryName name)
    obtain a vd1 d1 where run: "find_or_allocate_ip E name vd d = Some (Inr a, vd1, d1)"
      and inv: "vd_inv E vd1" and eff: "alloc_effect E (canonical_name vd name) vd a vd1"
      using find_or_allocate_effect [OF assms(1) Cons.prems(1), of name d] by blast
    have "young E vd1 ip n (Suc k)"
      using Cons.prems by (intro young_alloc [OF Cons.prems(1,2) _ eff]) simp
    moreover have "pool_size vd1 = pool_size vd" using eff by (simp add: alloc_effect_def pool_size_def)
    ultimately show ?thesis
      using Cons.IH [OF inv, of "Suc k" d1] Cons.prems(3) run QueryName by simp
  next
    case (ConnectTo a)
    from resolve_virtual_domain_Some [OF assms(1) Cons.prems(1), of a]
    obtain vd1 r where run: "resolve_virtual_domain E a (Some vd) = (r, Some vd1)"
      and inv: "vd_inv E vd1"
      and es: "vd_entries E vd1 = (case map_of (vd_entries E vd) a of
          None \<Rightarrow> vd_entries E vd | Some n \<Rightarrow> alist_drop a (vd_entries E vd) @ [(a, n)])"
      and same: "pool_size vd1 = pool_size vd"
      by (auto simp: pool_size_def split: option.splits)
    have "young E vd1 ip n (Suc k)"
    proof (cases "map_of (vd_entries E vd) a")
      case None
      then show ?thesis using es Cons.prems(2) by (auto simp: young_def) (metis le_SucI)
    next
      case (Some b)
      have "a = ip \<Longrightarrow> b = n"
        using Some young_lookup [OF Cons.prems(1,2)] by simp
      then show ?thesis using young_moved [OF Cons.prems(2), of vd1 a b] es Some by simp
    qed
    then show ?thesis
      using Cons.IH [OF inv, of "Suc k" d] Cons.prems(3) run ConnectTo same by simp
  qed
qed

lemma list_lru_laws: "lru_laws list_lru"
  by (auto simp: lru_laws_def list_lru_def split: option.split list.split)

lemma virtual_dns_new_inv:
  assumes "lru_laws (ve_lru E)" "is_ipv4 lo = is_ipv4 hi" "lo \<le> hi"
  shows "vd_inv E (virtual_dns_new E lo hi)"
  using assms lru_lawsD(1) [OF assms(1)]
  by (simp add: vd_inv_def virtual_dns_new_def vd_entries_def pool_ok_def vd_address_in_pool_def)

lemma demo_vd_inv: "lru_laws (ve_lru demo_env)" "vd_inv demo_env demo_vd"
  using virtual_dns_new_inv [of demo_env "V4 16" "V4 31"] list_lru_laws
  by (simp_all add: demo_env_def demo_vd_def)

section \<open>Properties of the resolver\<close>

text \<open>
  C1. Allocation is total and correct on every branch: from a consistent resolver,
  \<^verbatim>\<open>find_or_allocate_ip\<close> returns, for any name and any behaviour of the disk, and its address is
  in the pool.  It keeps the invariant, gives a known name the address it already has, gives a
  new name an unused address while there is one, and otherwise takes over exactly the address of
  the least recently used entry, leaving every other entry as it is.
\<close>

theorem find_or_allocate_ip_correct:
  assumes "lru_laws (ve_lru E)" "vd_inv E vd"
  shows "\<exists>ip vd' d'. find_or_allocate_ip E name vd d = Some (Inr ip, vd', d')
     \<and> vd_inv E vd' \<and> vd_address_in_pool vd ip
     \<and> alloc_effect E (canonical_name vd name) vd ip vd'"
proof -
  obtain ip vd' d' where run: "find_or_allocate_ip E name vd d = Some (Inr ip, vd', d')"
    and inv: "vd_inv E vd'" and eff: "alloc_effect E (canonical_name vd name) vd ip vd'"
    using find_or_allocate_effect [OF assms, of name d] by blast
  have "(ip, canonical_name vd name) \<in> set (vd_entries E vd')"
    using eff by (auto simp: alloc_effect_def split: option.splits if_splits)
  moreover have "vd_address_in_pool vd' = vd_address_in_pool vd"
    using eff by (simp add: alloc_effect_def vd_address_in_pool_def fun_eq_iff)
  ultimately have "vd_address_in_pool vd ip" using inv by (auto simp: vd_inv_def)
  then show ?thesis using run inv eff by blast
qed

theorem find_or_allocate_ip_correct_witness:
  "\<exists>ip vd' d'. find_or_allocate_ip demo_env ''A.Example.'' demo_vd (demo_disk None [])
       = Some (Inr ip, vd', d')
     \<and> vd_inv demo_env vd' \<and> vd_entries demo_env vd' = [(ip, ''a.example'')]"
proof -
  have "canonical_name demo_vd ''A.Example.'' = ''a.example''" by code_simp
  moreover have "vd_entries demo_env demo_vd = []" "name_to_ip demo_vd = (\<lambda>_. None)"
    "broadcast_addr demo_vd = V4 31" "network_addr demo_vd = V4 16"
    by (simp_all add: demo_vd_def virtual_dns_new_def vd_entries_def demo_env_def list_lru_def)
  ultimately show ?thesis
    using find_or_allocate_ip_correct [OF demo_vd_inv, of "''A.Example.''" "demo_disk None []"]
    by (auto simp: alloc_effect_def ip_num_def)
qed

text \<open>
  C34. A fake address stays valid while it is in use: the address just given to a name still
  leads back to this name after any sequence of fewer operations than the pool has
  addresses, queries for other names and connections alike, whatever the disk does.
\<close>

theorem allocation_survives:
  assumes laws: "lru_laws (ve_lru E)" and inv: "vd_inv E vd"
    and alloc: "find_or_allocate_ip E name vd d = Some (Inr ip, vd1, d1)"
    and few: "length ops < pool_size vd"
  shows "\<exists>vd2 d2 vd3. vd_run E ops vd1 d1 = Some (vd2, d2)
     \<and> resolve_virtual_domain E ip (Some vd2) = (Inr (Some (canonical_name vd name)), Some vd3)"
proof -
  let ?n = "canonical_name vd name"
  have inv1: "vd_inv E vd1" and eff: "alloc_effect E ?n vd ip vd1"
    using find_or_allocate_effect [OF laws inv, of name d] alloc by auto
  have "\<exists>xs. vd_entries E vd1 = xs @ [(ip, ?n)]"
    using eff by (auto simp: alloc_effect_def split: option.splits if_splits)
  then have "young E vd1 ip ?n 0" by (auto simp: young_def)
  moreover have "pool_size vd1 = pool_size vd" using eff by (simp add: alloc_effect_def pool_size_def)
  ultimately obtain vd2 d2 where run: "vd_run E ops vd1 d1 = Some (vd2, d2)" and inv2: "vd_inv E vd2"
    and y: "young E vd2 ip ?n (length ops)"
    using vd_run_young [OF laws inv1, of ip ?n 0 ops d1] few by auto
  from young_lookup [OF inv2 y] have "map_of (vd_entries E vd2) ip = Some ?n" .
  then show ?thesis using resolve_virtual_domain_Some [OF laws inv2, of ip] run by auto
qed

theorem allocation_survives_witness:
  "\<exists>ip vd1 d1 vd2 d2 vd3. find_or_allocate_ip demo_env ''A.Example.'' demo_vd (demo_disk None [])
       = Some (Inr ip, vd1, d1)
     \<and> vd_run demo_env [QueryName ''b.example'', ConnectTo (V4 16), QueryName ''c.example''] vd1 d1
       = Some (vd2, d2)
     \<and> resolve_virtual_domain demo_env ip (Some vd2) = (Inr (Some ''a.example''), Some vd3)"
proof -
  obtain ip vd1 d1 where run: "find_or_allocate_ip demo_env ''A.Example.'' demo_vd (demo_disk None [])
      = Some (Inr ip, vd1, d1)"
    using find_or_allocate_effect [OF demo_vd_inv, of "''A.Example.''" "demo_disk None []"] by blast
  have "pool_size demo_vd = 16" by (simp add: pool_size_def demo_vd_def virtual_dns_new_def ip_num_def)
  moreover have "canonical_name demo_vd ''A.Example.'' = ''a.example''" by code_simp
  ultimately show ?thesis
    using allocation_survives [OF demo_vd_inv run,
        of "[QueryName ''b.example'', ConnectTo (V4 16), QueryName ''c.example'']"] run by auto
qed

text \<open>
  A stale fake address is never forwarded: a destination in the pool without a name is
  rejected with NotFound, a destination with a name gives exactly that name, and a
  destination outside the pool passes unchanged; the lookup keeps the invariant.
\<close>

theorem resolve_virtual_domain_classifies:
  assumes "lru_laws (ve_lru E)" "vd_inv E vd"
  shows "\<exists>vd'. vd_inv E vd' \<and> resolve_virtual_domain E ip (Some vd) =
     (if vd_address_in_pool vd ip
      then (case map_of (vd_entries E vd) ip of
              Some n \<Rightarrow> Inr (Some n)
            | None \<Rightarrow> Inl (IoError NotFound ''stale virtual DNS address; reconnect after refreshing DNS''))
      else Inr None, Some vd')"
proof -
  have "map_of (vd_entries E vd) ip = Some n \<Longrightarrow> vd_address_in_pool vd ip" for n
    using assms(2) by (auto simp: vd_inv_def dest!: map_of_SomeD)
  then show ?thesis
    using resolve_virtual_domain_Some [OF assms, of ip] by (auto split: option.splits)
qed

theorem resolve_virtual_domain_classifies_witness:
  "\<exists>vd'. resolve_virtual_domain demo_env (V4 20) (Some demo_vd)
     = (Inl (IoError NotFound ''stale virtual DNS address; reconnect after refreshing DNS''), Some vd')"
proof -
  have "vd_address_in_pool demo_vd (V4 20)" "map_of (vd_entries demo_env demo_vd) (V4 20) = None"
    by code_simp+
  then show ?thesis using resolve_virtual_domain_classifies [OF demo_vd_inv, of "V4 20"] by auto
qed

end
