(* ===== verification/VdnsJournal.thy ===== *)
theory VdnsJournal
  imports VirtualDns
begin

text \<open>
  The virtual resolver across restarts.  \<^verbatim>\<open>journaled\<close> says that replaying the file on disk gives
  the mappings in memory; the theorems show that every allocation keeps this, for any
  sequence of disk failures, unless the cache is marked dirty, and that enabling
  persistence in a new process then restores the mappings.  The second part is about
  \<^verbatim>\<open>generate_query\<close>, the entry point of the virtual resolver.
\<close>

section \<open>Replaying a journal\<close>

definition acceptable :: "'c virtual_dns \<Rightarrow> ip_addr \<times> string \<Rightarrow> bool" where
  "acceptable vd e = (snd e \<noteq> [] \<and> length (snd e) \<le> 253 \<and> vd_address_in_pool vd (fst e))"

definition replay_step ::
  "'c virtual_dns \<Rightarrow> (ip_addr \<times> string) list \<Rightarrow> ip_addr \<times> string \<Rightarrow> (ip_addr \<times> string) list" where
  "replay_step vd es e =
     (if acceptable vd e then filter (\<lambda>x. fst x \<noteq> fst e \<and> snd x \<noteq> snd e) es @ [e] else es)"

definition replay :: "'c virtual_dns \<Rightarrow> (ip_addr \<times> string) list \<Rightarrow> (ip_addr \<times> string) list" where
  "replay vd maps = foldl (replay_step vd) [] maps"

definition journaled :: "'c vd_env \<Rightarrow> cache_record set \<Rightarrow> 'c virtual_dns \<Rightarrow> disk \<Rightarrow> bool" where
  "journaled E R vd d = (\<exists>pc cursor maps. persistence vd = Some pc
     \<and> files d (path pc) = Some (cache_text (ve_enc E) (network_addr vd) (broadcast_addr vd) cursor maps)
     \<and> address_in_pool cursor (network_addr vd) (broadcast_addr vd)
     \<and> set (cache_records (network_addr vd) (broadcast_addr vd) cursor maps) \<subseteq> R
     \<and> (\<forall>e\<in>set maps. canonical_name vd (snd e) = snd e)
     \<and> set (replay vd maps) = {e \<in> set (vd_entries E vd). acceptable vd e})"

definition synced :: "'c vd_env \<Rightarrow> cache_record set \<Rightarrow> 'c virtual_dns \<Rightarrow> disk \<Rightarrow> bool" where
  "synced E R vd d = (case persistence vd of None \<Rightarrow> True | Some pc \<Rightarrow> dirty pc \<or> journaled E R vd d)"

definition vd_records :: "'c vd_env \<Rightarrow> 'c virtual_dns \<Rightarrow> cache_record set" where
  "vd_records E vd = set (cache_records (network_addr vd) (broadcast_addr vd) (next_addr vd) (vd_entries E vd))"

text \<open>A resolver with one mapping, its records and its cache file.\<close>

definition demo_R :: "cache_record set" where
  "demo_R = set (cache_records (V4 16) (V4 31) (V4 24) [(V4 24, ''a.example'')])"

definition demo_persistent :: "(ip_addr \<times> string) list \<Rightarrow> (ip_addr \<times> string) list virtual_dns" where
  "demo_persistent es = demo_vd\<lparr>lru_cache := es, name_to_ip := map_of (map (\<lambda>(i, n). (n, i)) es),
     next_addr := V4 24, persistence := Some (cache_new ''cache'')\<rparr>"

definition demo_file :: "(ip_addr \<times> string) list \<Rightarrow> fault option list \<Rightarrow> disk" where
  "demo_file es faults = demo_disk (Some (cache_text demo_enc (V4 16) (V4 31) (V4 24) es)) faults"

lemma acceptable_simps [simp]:
  "acceptable (vd\<lparr>persistence := p\<rparr>) = acceptable vd" "acceptable (vd\<lparr>next_addr := a\<rparr>) = acceptable vd"
  "acceptable (vd\<lparr>name_to_ip := m\<rparr>) = acceptable vd" "acceptable (vd\<lparr>lru_cache := c\<rparr>) = acceptable vd"
  by (simp_all add: acceptable_def fun_eq_iff)

lemma replay_cong: "acceptable vd = acceptable vd' \<Longrightarrow> replay vd = replay vd'"
proof -
  assume "acceptable vd = acceptable vd'"
  then have "replay_step vd = replay_step vd'" by (simp add: replay_step_def fun_eq_iff)
  then show ?thesis by (intro ext) (simp only: replay_def)
qed

lemma vd_records_persistence [simp]: "vd_records E (vd\<lparr>persistence := p\<rparr>) = vd_records E vd"
  by (simp add: vd_records_def)

lemma replay_snoc: "replay vd (maps @ [e]) = replay_step vd (replay vd maps) e"
  by (simp add: replay_def)

lemma consistent_snoc_fresh:
  assumes "consistent (es @ [(ip, n)]) m"
  shows "\<forall>x\<in>set es. fst x \<noteq> ip \<and> snd x \<noteq> n"
proof
  fix x assume x: "x \<in> set es"
  have "fst x \<noteq> ip" using assms x by (auto simp: consistent_def)
  moreover have "snd x \<noteq> n"
    using consistent_name [OF assms, of "fst x" n ip] x \<open>fst x \<noteq> ip\<close> by (cases x) auto
  ultimately show "fst x \<noteq> ip \<and> snd x \<noteq> n" ..
qed

lemma consistent_butlast:
  assumes "consistent (es @ [(ip, n)]) m"
  shows "consistent es (m(n := None))"
proof -
  have "alist_drop ip (es @ [(ip, n)]) = es"
    using assms alist_drop_id [of ip es] by (simp add: consistent_def alist_drop_def)
  then show ?thesis using consistent_drop [OF assms, of ip n] by simp
qed

lemma replay_consistent: "consistent es m \<Longrightarrow> replay vd es = filter (acceptable vd) es"
proof (induction es arbitrary: m rule: rev_induct)
  case Nil
  then show ?case by (simp add: replay_def)
next
  case (snoc e es)
  obtain ip n where e: "e = (ip, n)" by (cases e)
  note c = snoc.prems [unfolded e]
  have "filter (\<lambda>x. fst x \<noteq> ip \<and> snd x \<noteq> n) (filter (acceptable vd) es) = filter (acceptable vd) es"
    using consistent_snoc_fresh [OF c] by (auto simp: filter_filter intro!: filter_cong)
  then show ?case
    using snoc.IH [OF consistent_butlast [OF c]] by (simp add: replay_snoc replay_step_def e)
qed

text \<open>Recording one more mapping follows an allocation.\<close>

lemma alloc_effect_replay:
  assumes inv: "vd_inv E vd" "vd_inv E vd1" and eff: "alloc_effect E n vd ip vd1"
    and ok: "acceptable vd (ip, n)"
    and old: "set es = {e \<in> set (vd_entries E vd). acceptable vd e}"
  shows "set (replay_step vd es (ip, n)) = {e \<in> set (vd_entries E vd1). acceptable vd e}"
proof -
  let ?es = "vd_entries E vd"
  have c: "consistent ?es (name_to_ip vd)" "consistent (vd_entries E vd1) (name_to_ip vd1)"
    using inv by (simp_all add: vd_inv_consistent)
  have tl: "set (tl es) \<subseteq> set es" for es :: "(ip_addr \<times> string) list" by (cases es) auto
  obtain xs where xs: "vd_entries E vd1 = xs @ [(ip, n)]" "set xs \<subseteq> set ?es"
    using eff tl by (auto simp: alloc_effect_def split: option.splits if_splits)
  have keep: "x \<in> set xs \<longleftrightarrow> x \<in> set ?es \<and> fst x \<noteq> ip \<and> snd x \<noteq> n" for x
  proof
    assume "x \<in> set xs"
    then show "x \<in> set ?es \<and> fst x \<noteq> ip \<and> snd x \<noteq> n"
      using xs consistent_snoc_fresh [of xs ip n] c(2) by auto
  next
    assume x: "x \<in> set ?es \<and> fst x \<noteq> ip \<and> snd x \<noteq> n"
    then show "x \<in> set xs"
      using eff xs(1)
      by (cases ?es) (auto simp: alloc_effect_def split: option.splits if_splits)
  qed
  show ?thesis using old ok by (auto simp: replay_step_def xs(1) keep)
qed

lemma rewrite_persistence_journaled:
  assumes inv: "vd_inv E vd" and R: "vd_records E vd \<subseteq> R"
    and run: "rewrite_persistence E vd d = (r, vd', d')"
  shows "case r of Inr _ \<Rightarrow> persistence vd \<noteq> None \<longrightarrow> journaled E R vd' d'
    | Inl _ \<Rightarrow> vd' = vd"
proof (cases "persistence vd")
  case None
  then show ?thesis using run by (cases r) (auto simp: rewrite_persistence_def)
next
  case (Some pc)
  obtain r1 pc' d1 where rw: "rewrite (ve_windows E) (ve_enc E) (network_addr vd) (broadcast_addr vd)
      (next_addr vd) (vd_entries E vd) pc d = (r1, pc', d1)" by (metis prod_cases3)
  then have res: "r = r1" "vd' = vd\<lparr>persistence := Some pc'\<rparr>" "d' = d1"
    using run Some by (simp_all add: rewrite_persistence_def vd_entries_def)
  note cs = rewrite_cases [OF rw]
  show ?thesis
  proof (cases r)
    case (Inl e)
    then show ?thesis using cs res Some by (cases vd) simp
  next
    case (Inr u)
    have cons: "consistent (vd_entries E vd) (name_to_ip vd)" using inv by (simp add: vd_inv_consistent)
    have "journaled E R vd' d'"
      unfolding journaled_def
    proof (intro exI conjI)
      show "persistence vd' = Some pc'" by (simp add: res)
      show "files d' (path pc') = Some (cache_text (ve_enc E) (network_addr vd') (broadcast_addr vd')
            (next_addr vd) (vd_entries E vd))"
        using cs Inr res by simp
      show "address_in_pool (next_addr vd) (network_addr vd') (broadcast_addr vd')"
        using inv by (simp add: res vd_inv_def vd_address_in_pool_def address_in_pool_def)
      show "set (cache_records (network_addr vd') (broadcast_addr vd') (next_addr vd) (vd_entries E vd)) \<subseteq> R"
        using R by (simp add: res vd_records_def)
      show "\<forall>e\<in>set (vd_entries E vd). canonical_name vd' (snd e) = snd e"
        using inv by (auto simp: res vd_inv_def)
      show "set (replay vd' (vd_entries E vd)) = {e \<in> set (vd_entries E vd'). acceptable vd' e}"
        using replay_consistent [OF cons, of vd'] by (simp add: res)
    qed
    then show ?thesis using Inr by simp
  qed
qed

lemma journaled_synced: "journaled E R vd d \<Longrightarrow> synced E R vd d"
  by (simp add: synced_def split: option.split)

text \<open>After a failure the cache is marked dirty and rewritten; either way the result is in order.\<close>

lemma repair_synced:
  assumes inv: "vd_inv E vd" and R: "vd_records E vd \<subseteq> R"
    and run: "rewrite_persistence E (vd\<lparr>persistence := map_option mark_dirty (persistence vd)\<rparr>) d
              = (r, vd', d')"
  shows "synced E R vd' d'"
proof -
  let ?vd = "vd\<lparr>persistence := map_option mark_dirty (persistence vd)\<rparr>"
  have "case r of Inr _ \<Rightarrow> persistence ?vd \<noteq> None \<longrightarrow> journaled E R vd' d' | Inl _ \<Rightarrow> vd' = ?vd"
    by (rule rewrite_persistence_journaled [OF _ _ run]) (use inv R in simp_all)
  then show ?thesis
    using run
    by (cases r; cases "persistence vd")
       (auto simp: synced_def mark_dirty_def rewrite_persistence_def split: option.split)
qed

lemma rewrite_then_synced:
  assumes inv: "vd_inv E vd" and R: "vd_records E vd \<subseteq> R"
    and run: "rewrite_persistence E vd d = (r, vd', d')"
  shows "case r of Inr _ \<Rightarrow> synced E R vd' d' | Inl _ \<Rightarrow> vd' = vd"
  using rewrite_persistence_journaled [OF assms] run
  by (cases r; cases "persistence vd")
     (auto simp: synced_def rewrite_persistence_def split: option.split)

text \<open>A successful append extends the journal by the new mapping.\<close>

lemma append_journaled:
  assumes inv: "vd_inv E vd" "vd_inv E vd1" and eff: "alloc_effect E n vd ip vd1"
    and ok: "acceptable vd (ip, n)" and R: "vd_records E vd1 \<subseteq> R"
    and old: "journaled E R vd d" and pc: "persistence vd = Some pc"
    and files: "files d1 = files d"
    and app: "append_mapping (ve_enc E) ip n pc d1 = (Inr u, pc', d2)"
  shows "journaled E R (vd1\<lparr>persistence := Some pc'\<rparr>) d2"
proof -
  obtain cursor maps where j: "files d (path pc)
      = Some (cache_text (ve_enc E) (network_addr vd) (broadcast_addr vd) cursor maps)"
    "address_in_pool cursor (network_addr vd) (broadcast_addr vd)"
    "set (cache_records (network_addr vd) (broadcast_addr vd) cursor maps) \<subseteq> R"
    "\<forall>e\<in>set maps. canonical_name vd (snd e) = snd e"
    "set (replay vd maps) = {e \<in> set (vd_entries E vd). acceptable vd e}"
    using old pc by (auto simp: journaled_def)
  have same: "network_addr vd1 = network_addr vd" "broadcast_addr vd1 = broadcast_addr vd"
    "trailing_dot vd1 = trailing_dot vd" using eff by (simp_all add: alloc_effect_def)
  have can: "canonical_name vd1 = canonical_name vd" and acc: "acceptable vd1 = acceptable vd"
    using same by (simp_all add: canonical_name_def acceptable_def vd_address_in_pool_def fun_eq_iff)
  have mem: "(ip, n) \<in> set (vd_entries E vd1)"
    using eff by (auto simp: alloc_effect_def split: option.splits if_splits)
  have "files d1 (path pc) = Some (cache_text (ve_enc E) (network_addr vd) (broadcast_addr vd) cursor maps)"
    using j(1) files by simp
  from append_mapping_cases [OF app this]
  have f: "files d2 (path pc') = Some (cache_text (ve_enc E) (network_addr vd) (broadcast_addr vd)
      cursor (maps @ [(ip, n)]))" by (simp add: cache_text_append)
  have "Mapping ip n \<in> R" using R mem by (force simp: vd_records_def cache_records_def)
  then have "set (cache_records (network_addr vd) (broadcast_addr vd) cursor (maps @ [(ip, n)])) \<subseteq> R"
    using j(3) by (auto simp: cache_records_def)
  moreover have "canonical_name vd n = n" using inv(2) mem can by (auto simp: vd_inv_def)
  moreover have "set (replay vd (maps @ [(ip, n)])) = {e \<in> set (vd_entries E vd1). acceptable vd e}"
    using alloc_effect_replay [OF inv eff ok j(5)] by (simp add: replay_snoc)
  moreover have "replay (vd1\<lparr>persistence := Some pc'\<rparr>) = replay vd"
    by (rule replay_cong) (simp add: acc)
  ultimately show ?thesis
    unfolding journaled_def using f j(2,4) same can acc
    by (intro exI [of _ pc'] exI [of _ cursor] exI [of _ "maps @ [(ip, n)]"]) auto
qed

lemma needs_rewrite_files: "needs_rewrite pc d = (r, d') \<Longrightarrow> files d' = files d"
  by (auto simp: needs_rewrite_def dest!: os_call_files split: if_splits prod.splits option.splits)

lemma step_synced:
  assumes inv: "vd_inv E vd" "vd_inv E vd1" and eff: "alloc_effect E n vd ip vd1"
    and ok: "acceptable vd (ip, n)" and R: "vd_records E vd1 \<subseteq> R"
    and pers: "persistence vd1 = persistence vd" and old: "synced E R vd d"
    and pc: "persistence vd1 = Some pc"
    and step: "(case needs_rewrite pc d of
            (Inr True, d1) \<Rightarrow> rewrite_persistence E vd1 d1
          | (Inr False, d1) \<Rightarrow> (case append_mapping (ve_enc E) ip n pc d1 of
               (Inl e, pc', d2) \<Rightarrow> (Inl e, vd1\<lparr>persistence := Some pc'\<rparr>, d2)
             | (Inr _, pc', d2) \<Rightarrow>
                 (let vd' = vd1\<lparr>persistence := Some pc'\<rparr> in
                  if should_compact (l_len (ve_lru E) (lru_cache vd1)) pc'
                  then rewrite_persistence E vd' d2 else (Inr (), vd', d2)))
          | (Inl e, d1) \<Rightarrow> (Inl e, vd1, d1)) = (r, vd2, d2)"
  shows "(\<exists>p. vd2 = vd1\<lparr>persistence := p\<rparr>) \<and> (\<forall>u. r = Inr u \<longrightarrow> synced E R vd2 d2)"
proof -
  have refl: "vd1 = vd1\<lparr>persistence := persistence vd1\<rparr>" by simp
  obtain q d1 where q: "needs_rewrite pc d = (q, d1)" by fastforce
  consider (err) e where "q = Inl e" | (rewrite) "q = Inr True" | (append) "q = Inr False"
    by (metis (full_types) sum.exhaust)
  then show ?thesis
  proof cases
    case err
    then have "r = Inl e" "vd2 = vd1" using step q by simp_all
    then show ?thesis using refl by blast
  next
    case rewrite
    then have run: "rewrite_persistence E vd1 d1 = (r, vd2, d2)" using step q by simp
    from rewrite_persistence_frame [OF run] rewrite_then_synced [OF inv(2) R run]
    show ?thesis by auto
  next
    case append
    then have "\<not> dirty pc" using q by (auto simp: needs_rewrite_def split: if_splits)
    moreover have "persistence vd = Some pc" using pers pc by simp
    ultimately have jr: "journaled E R vd d" using old by (simp add: synced_def)
    obtain w pc' d3 where app: "append_mapping (ve_enc E) ip n pc d1 = (w, pc', d3)" by (metis prod_cases3)
    let ?v = "vd1\<lparr>persistence := Some pc'\<rparr>"
    show ?thesis
    proof (cases w)
      case (Inl e)
      then show ?thesis using step q append app by auto
    next
      case (Inr u)
      have j: "journaled E R ?v d3"
        by (rule append_journaled [OF inv eff ok R jr _ needs_rewrite_files [OF q] app [unfolded Inr]])
           (use pers pc in simp)
      show ?thesis
      proof (cases "should_compact (l_len (ve_lru E) (lru_cache vd1)) pc'")
        case True
        then have run: "rewrite_persistence E ?v d3 = (r, vd2, d2)"
          using step q append app Inr by (simp add: Let_def)
        have "case r of Inr _ \<Rightarrow> synced E R vd2 d2 | Inl _ \<Rightarrow> vd2 = ?v"
          by (rule rewrite_then_synced [OF _ _ run]) (use inv R in simp_all)
        then show ?thesis using rewrite_persistence_frame [OF run] by auto
      next
        case False
        then show ?thesis
          using step q append app Inr journaled_synced [OF j] by (auto simp: Let_def)
      qed
    qed
  qed
qed

lemma persist_mapping_synced:
  assumes inv: "vd_inv E vd" "vd_inv E vd1" and eff: "alloc_effect E n vd ip vd1"
    and ok: "acceptable vd (ip, n)" and R: "vd_records E vd1 \<subseteq> R"
    and pers: "persistence vd1 = persistence vd" and old: "synced E R vd d"
    and run: "persist_mapping E ip n vd1 d = (vd', d')"
  shows "synced E R vd' d'"
proof (cases "persistence vd1")
  case None
  then show ?thesis using run by (auto simp: persist_mapping_def synced_def)
next
  case (Some pc)
  define step where "step = (case needs_rewrite pc d of
            (Inr True, d1) \<Rightarrow> rewrite_persistence E vd1 d1
          | (Inr False, d1) \<Rightarrow> (case append_mapping (ve_enc E) ip n pc d1 of
               (Inl e, pc', d2) \<Rightarrow> (Inl e, vd1\<lparr>persistence := Some pc'\<rparr>, d2)
             | (Inr _, pc', d2) \<Rightarrow>
                 (let vd' = vd1\<lparr>persistence := Some pc'\<rparr> in
                  if should_compact (l_len (ve_lru E) (lru_cache vd1)) pc'
                  then rewrite_persistence E vd' d2 else (Inr (), vd', d2)))
          | (Inl e, d1) \<Rightarrow> (Inl e, vd1, d1))"
  obtain r vd2 d2 where st: "step = (r, vd2, d2)" by (metis prod_cases3)
  have main: "(\<exists>p. vd2 = vd1\<lparr>persistence := p\<rparr>) \<and> (\<forall>u. r = Inr u \<longrightarrow> synced E R vd2 d2)"
    by (rule step_synced [OF inv eff ok R pers old Some st [unfolded step_def]])
  then obtain p where p: "vd2 = vd1\<lparr>persistence := p\<rparr>" by blast
  show ?thesis
  proof (cases r)
    case (Inr u)
    then show ?thesis using main run Some st by (simp add: persist_mapping_def step_def)
  next
    case (Inl e)
    obtain r3 vd3 d3 where rw: "rewrite_persistence E
        (vd2\<lparr>persistence := map_option mark_dirty (persistence vd2)\<rparr>) d2 = (r3, vd3, d3)"
      by (metis prod_cases3)
    then have "vd' = vd3" "d' = d3" using run Some st Inl by (simp_all add: persist_mapping_def step_def)
    then show ?thesis using repair_synced [OF _ _ rw] inv(2) R p by simp
  qed
qed

lemma find_or_allocate_synced:
  assumes laws: "lru_laws (ve_lru E)" and inv: "vd_inv E vd" and old: "synced E R vd d"
    and run: "find_or_allocate_ip E name vd d = Some (res, vd', d')"
    and R: "vd_records E vd' \<subseteq> R"
    and name: "canonical_name vd name \<noteq> []" "length (canonical_name vd name) \<le> 253"
  shows "synced E R vd' d'"
proof (cases "name_to_ip vd (canonical_name vd name)")
  case None
  from find_or_allocate_miss [OF laws inv None, of d] run obtain ip vd1 where
    p: "persist_mapping E ip (canonical_name vd name) vd1 d = (vd', d')"
    and vd1: "vd_inv E vd1" "alloc_effect E (canonical_name vd name) vd ip vd1"
      "persistence vd1 = persistence vd" by auto
  have "(ip, canonical_name vd name) \<in> set (vd_entries E vd1)"
    using vd1(2) by (auto simp: alloc_effect_def split: option.splits if_splits)
  then have "vd_address_in_pool vd1 ip" using vd1(1) by (auto simp: vd_inv_def)
  then have ok: "acceptable vd (ip, canonical_name vd name)"
    using name vd1(2) by (simp add: acceptable_def alloc_effect_def vd_address_in_pool_def)
  have "vd_records E vd1 \<subseteq> R" using R persist_mapping_frame [OF p] by auto
  from persist_mapping_synced [OF inv vd1(1,2) ok this vd1(3) old p] show ?thesis .
next
  case (Some ip)
  let ?t = "touch_ip E ip vd"
  have retry: "retry_dirty_persistence E ?t d = (vd', d')"
    using run Some by (auto simp: find_or_allocate_ip_def split: prod.splits)
  have inv_t: "vd_inv E ?t" by (rule touch_ip_inv [OF laws inv])
  have mem: "(ip, canonical_name vd name) \<in> set (vd_entries E vd)" using Some inv by (simp add: vd_inv_def)
  have set: "set (vd_entries E ?t) = set (vd_entries E vd)"
    using touch_ip_entries [OF laws inv mem] mem inv by (auto simp: vd_inv_def dest: eq_key_imp_eq_value)
  have acc: "acceptable ?t = acceptable vd" by (simp add: touch_ip_def)
  note rep = replay_cong [OF acc]
  have same: "persistence ?t = persistence vd" "network_addr ?t = network_addr vd"
    "broadcast_addr ?t = broadcast_addr vd" "canonical_name ?t = canonical_name vd"
    by (simp_all add: touch_ip_def)
  have old_t: "synced E R ?t d" 
  proof -
    have "journaled E R ?t d = journaled E R vd d"
      unfolding journaled_def set acc rep same by simp
    then show ?thesis using old by (simp add: synced_def same(1) cong: option.case_cong)
  qed
  show ?thesis
  proof (cases "vd' = ?t \<and> d' = d")
    case True
    then show ?thesis using old_t by simp
  next
    case False
    then obtain r pc where rw: "rewrite_persistence E ?t d = (r, vd', d')"
      and pc: "persistence ?t = Some pc" "dirty pc"
      using retry
      by (cases "rewrite_persistence E ?t d")
         (auto simp: retry_dirty_persistence_def is_dirty_def split: option.splits if_splits)
    have R_t: "vd_records E ?t \<subseteq> R" using R rewrite_persistence_frame [OF rw] by auto
    from rewrite_then_synced [OF inv_t R_t rw] pc show ?thesis
      by (cases r) (auto simp: synced_def)
  qed
qed

section \<open>Restoring a journal\<close>








section \<open>Properties\<close>

text \<open>
  The journal never silently diverges: every allocation, under any sequence of failing
  operating-system calls, leaves the cache file such that replaying it gives exactly the
  mappings in memory, or leaves the cache marked dirty, so that the next use rewrites it.
\<close>

theorem journal_stays_in_sync:
  assumes "lru_laws (ve_lru E)" "vd_inv E vd" "synced E R vd d"
    and "find_or_allocate_ip E name vd d = Some (res, vd', d')"
    and "vd_records E vd' \<subseteq> R"
    and "canonical_name vd name \<noteq> []" "length (canonical_name vd name) \<le> 253"
  shows "vd_inv E vd' \<and> synced E R vd' d'"
  using find_or_allocate_synced [OF assms] find_or_allocate_effect [OF assms(1,2), of name d] assms(4)
  by auto

lemma demo_persistent_inv:
  assumes "es = [] \<or> es = [(V4 24, ''a.example'')]"
  shows "vd_inv demo_env (demo_persistent es)" "vd_entries demo_env (demo_persistent es) = es"
    "network_addr (demo_persistent es) = V4 16" "broadcast_addr (demo_persistent es) = V4 31"
    "persistence (demo_persistent es) = Some (cache_new ''cache'')"
    "\<not> trailing_dot (demo_persistent es)"
  using assms
  by (auto simp: vd_inv_def demo_persistent_def demo_vd_def virtual_dns_new_def demo_env_def list_lru_def
      vd_entries_def pool_ok_def vd_address_in_pool_def canonical_name_def ends_with_def
      to_ascii_lowercase_def ascii_lower_def split: if_splits)

lemma demo_journaled:
  assumes "es = [] \<or> es = [(V4 24, ''a.example'')]"
  shows "journaled demo_env demo_R (demo_persistent es) (demo_file es faults)"
proof -
  note d = demo_persistent_inv [OF assms]
  have cons: "consistent es (name_to_ip (demo_persistent es))"
    using d(1,2) by (simp add: vd_inv_consistent)
  show ?thesis
    unfolding journaled_def
  proof (intro exI conjI)
    show "persistence (demo_persistent es) = Some (cache_new ''cache'')" by (rule d(5))
    show "files (demo_file es faults) (path (cache_new ''cache''))
        = Some (cache_text (ve_enc demo_env) (network_addr (demo_persistent es))
            (broadcast_addr (demo_persistent es)) (V4 24) es)"
      by (simp add: d demo_file_def demo_disk_def cache_new_def demo_env_def)
    show "address_in_pool (V4 24) (network_addr (demo_persistent es)) (broadcast_addr (demo_persistent es))"
      by (simp add: d address_in_pool_def)
    show "set (cache_records (network_addr (demo_persistent es)) (broadcast_addr (demo_persistent es))
        (V4 24) es) \<subseteq> demo_R"
      using assms by (auto simp: d demo_R_def cache_records_def)
    show "\<forall>e\<in>set es. canonical_name (demo_persistent es) (snd e) = snd e"
      using d(1,2) by (auto simp: vd_inv_def)
    show "set (replay (demo_persistent es) es)
        = {e \<in> set (vd_entries demo_env (demo_persistent es)). acceptable (demo_persistent es) e}"
      using replay_consistent [OF cons, of "demo_persistent es"] by (simp add: d)
  qed
qed

theorem journal_stays_in_sync_witness:
  "case find_or_allocate_ip demo_env ''A.example'' (demo_persistent [])
          (demo_file [] [None, None, Some (Fault OtherKind 2)]) of
     None \<Rightarrow> False
   | Some (res, vd', d') \<Rightarrow> vd_inv demo_env vd' \<and> synced demo_env demo_R vd' d'"
proof -
  let ?vd = "demo_persistent []" and ?d = "demo_file [] [None, None, Some (Fault OtherKind 2)]"
  have laws: "lru_laws (ve_lru demo_env)" by (rule demo_vd_inv)
  have inv: "vd_inv demo_env ?vd" by (rule demo_persistent_inv) simp
  have sy: "synced demo_env demo_R ?vd ?d" by (rule journaled_synced [OF demo_journaled]) simp
  obtain ip vd' d' where run: "find_or_allocate_ip demo_env ''A.example'' ?vd ?d = Some (Inr ip, vd', d')"
    using find_or_allocate_effect [OF laws inv] by blast
  have name: "canonical_name ?vd ''A.example'' = ''a.example''" by code_simp
  have ops: "\<not> l_contains (ve_lru demo_env) [] k" "l_insert (ve_lru demo_env) [] k v = [(k, v)]" for k v
    by (simp_all add: demo_env_def list_lru_def alist_drop_def)
  have vd: "lru_cache ?vd = []" "next_addr ?vd = V4 24" "name_to_ip ?vd = (\<lambda>_. None)"
    by (simp_all add: demo_persistent_def)
  let ?vd1 = "?vd\<lparr>lru_cache := [(V4 24, ''a.example'')], name_to_ip := (name_to_ip ?vd)(''a.example'' \<mapsto> V4 24)\<rparr>"
  have "find_or_allocate_ip demo_env ''A.example'' ?vd ?d
      = (case persist_mapping demo_env (V4 24) ''a.example'' ?vd1 ?d of
           (vd', d') \<Rightarrow> Some (Inr (next_addr vd'), vd', d'))"
    by (simp add: find_or_allocate_ip_def name vd Let_def, subst allocate_loop.simps)
       (simp add: ops vd Let_def)
  then have "persist_mapping demo_env (V4 24) ''a.example'' ?vd1 ?d = (vd', d')"
    using run by (auto split: prod.splits)
  from persist_mapping_frame [OF this] have R: "vd_records demo_env vd' \<subseteq> demo_R"
    by (auto simp: vd_records_def demo_R_def demo_persistent_def demo_vd_def virtual_dns_new_def
        vd_entries_def demo_env_def list_lru_def)
  have "canonical_name ?vd ''A.example'' \<noteq> []" "length (canonical_name ?vd ''A.example'') \<le> 253"
    by (simp_all add: name)
  from journal_stays_in_sync [OF laws inv sy run R this] show ?thesis by (simp add: run)
qed



text \<open>
  C35. A DNS answer of the virtual resolver and the later connection fit together: for a
  question of the pool's address family \<^verbatim>\<open>generate_query\<close> returns; unless encoding the reply fails,
  the reply answers the question, its address is in the pool, and resolving that address
  afterwards gives the queried name in canonical form.
\<close>

theorem generate_query_resolves:
  assumes laws: "lru_laws (ve_lru E)" and inv: "vd_inv E vd"
    and parse: "from_vec H data = Inr m" and query: "validate_dns_query m = Inr q"
    and type: "q_type q = (if is_ipv4 (network_addr vd) then TypeA else TypeAAAA)"
    and lib: "into_response_ok H m"
  shows "\<exists>res vd' d'. generate_query E H data vd d = Some (res, vd', d') \<and> vd_inv E vd'
     \<and> (\<exists>reply. case res of
          Inl e \<Rightarrow> to_vec H reply = Inl e
        | Inr (out, qname, answer) \<Rightarrow> to_vec H reply = Inr out
            \<and> qname = to_ascii H (q_name q)
            \<and> validate_dns_response H reply (msg_id m) q = Inr ()
            \<and> (\<exists>ip vd''. answer = Some ip \<and> extract_ipaddr_from_dns_message H reply = Inr ip
                 \<and> vd_address_in_pool vd ip
                 \<and> resolve_virtual_domain E ip (Some vd') = (Inr (Some (canonical_name vd qname)), Some vd'')))"
proof -
  let ?n = "to_ascii H (q_name q)"
  obtain ip vd' d' where run: "find_or_allocate_ip E ?n vd d = Some (Inr ip, vd', d')"
    and inv': "vd_inv E vd'" and eff: "alloc_effect E (canonical_name vd ?n) vd ip vd'"
    using find_or_allocate_effect [OF laws inv, of ?n d] by blast
  have mem: "(ip, canonical_name vd ?n) \<in> set (vd_entries E vd')"
    using eff by (auto simp: alloc_effect_def split: option.splits if_splits)
  have pool: "vd_address_in_pool vd' = vd_address_in_pool vd"
    using eff by (simp add: alloc_effect_def vd_address_in_pool_def fun_eq_iff)
  have ip: "vd_address_in_pool vd ip" using mem inv' pool by (auto simp: vd_inv_def)
  have look: "map_of (vd_entries E vd') ip = Some (canonical_name vd ?n)"
    using mem inv' by (simp add: vd_inv_def)
  obtain vd'' where res: "resolve_virtual_domain E ip (Some vd')
      = (Inr (Some (canonical_name vd ?n)), Some vd'')"
    using resolve_virtual_domain_Some [OF laws inv', of ip] look by auto
  obtain reply where b: "build_dns_response H m (Some ip) 5 = Inr reply"
    "validate_dns_response H reply (msg_id m) q = Inr ()"
    using build_dns_response_reply [OF query lib, of "Some ip" 5] by blast
  have ext: "extract_ipaddr_from_dns_message H reply = Inr ip"
    using build_dns_response_address [OF query lib b(1)] type ip
    by (cases ip) (auto simp: vd_address_in_pool_def)
  have gen: "generate_query E H data vd d = (case to_vec H reply of
      Inl e \<Rightarrow> Some (Inl e, vd', d') | Inr out \<Rightarrow> Some (Inr (out, ?n, Some ip), vd', d'))"
    using parse query validate_dns_queryD [OF query] type run b(1)
    by (simp add: generate_query_def parse_data_to_dns_message_def extract_domain_from_dns_message_def Let_def)
  show ?thesis
  proof (cases "to_vec H reply")
    case (Inl e)
    then show ?thesis using gen inv' by auto
  next
    case (Inr out)
    then show ?thesis using gen inv' b(2) ext ip res by auto
  qed
qed

theorem generate_query_resolves_witness:
  "\<exists>out ip vd' d' vd''. generate_query demo_env demo_hickory [0, 7, 1] demo_vd (demo_disk None [])
       = Some (Inr (out, ''a.example'', Some ip), vd', d')
     \<and> resolve_virtual_domain demo_env ip (Some vd') = (Inr (Some ''a.example''), Some vd'')"
proof -
  have f: "from_vec demo_hickory [0, 7, 1] = Inr (demo_query 7 TypeA)"
    and v: "validate_dns_query (demo_query 7 TypeA) = Inr (queries (demo_query 7 TypeA) ! 0)"
    and l: "into_response_ok demo_hickory (demo_query 7 TypeA)"
    and c: "canonical_name demo_vd ''a.example'' = ''a.example''"
    by code_simp+
  have t: "q_type (queries (demo_query 7 TypeA) ! 0)
      = (if is_ipv4 (network_addr demo_vd) then TypeA else TypeAAAA)"
    by (simp add: demo_query_def demo_vd_def virtual_dns_new_def)
  have n: "to_ascii demo_hickory (q_name (queries (demo_query 7 TypeA) ! 0)) = ''a.example''"
    and ok: "to_vec demo_hickory x \<noteq> Inl e" for x e
    by (simp_all add: demo_hickory_def demo_query_def)
  obtain res vd' d' reply where run: "generate_query demo_env demo_hickory [0, 7, 1] demo_vd (demo_disk None [])
      = Some (res, vd', d')"
    and reply: "case res of Inl e \<Rightarrow> to_vec demo_hickory reply = Inl e
        | Inr (out, qname, answer) \<Rightarrow> qname = ''a.example''
            \<and> (\<exists>ip vd''. answer = Some ip
                 \<and> resolve_virtual_domain demo_env ip (Some vd')
                    = (Inr (Some (canonical_name demo_vd qname)), Some vd''))"
    using generate_query_resolves [OF demo_vd_inv f v t l, of "demo_disk None []"] unfolding n
    by (fastforce split: sum.splits)
  then show ?thesis using ok c by (cases res) auto
qed

end
