(* ===== verification/DnsTransactions.thy ===== *)
theory DnsTransactions
  imports Dns "HOL-Library.AList"
begin

text \<open>
  Correlation of DNS requests that share one TCP connection, \<^verbatim>\<open>src/dns_transactions.rs\<close>.  The
  table of pending requests is an association list.  A request whose transaction identifier is
  taken gets the next free one; the search for it is a loop, so \<^verbatim>\<open>prepare\<close> is an option whose
  value None would mean that it does not return (the loop runs on, or an index panics).
\<close>

section \<open>The table\<close>

record 'n pending =
  p_request :: bytes
  p_question :: "'n query"
  p_client_id :: u16

record 'n transactions =
  pending :: "(u16 \<times> 'n pending) list"

definition MAX_OUTSTANDING_DNS_QUERIES :: nat where
  "MAX_OUTSTANDING_DNS_QUERIES = 256"

definition transactions_default :: "'n transactions" where
  "transactions_default = \<lparr>pending = []\<rparr>"

partial_function (option) free_id :: "(u16 \<times> 'p) list \<Rightarrow> u16 \<Rightarrow> u16 option" where
  "free_id table i = (if map_of table i \<noteq> None then free_id table (i + 1) else Some i)"

definition prepare ::
  "'n hickory \<Rightarrow> bytes \<Rightarrow> 'n transactions \<Rightarrow> ((string + bytes option) \<times> 'n transactions) option" where
  "prepare H request tx = (case parse_data_to_dns_message H request False of
     Inl e \<Rightarrow> Some (Inl e, tx)
   | Inr query \<Rightarrow> (case validate_dns_query query of
       Inl e \<Rightarrow> Some (Inl e, tx)
     | Inr question \<Rightarrow>
         if list_ex (\<lambda>(_, p). p_request p = request) (pending tx) then Some (Inr None, tx)
         else if length (pending tx) \<ge> MAX_OUTSTANDING_DNS_QUERIES
           then Some (Inl ''DNS-over-TCP outstanding query limit reached (256)'', tx)
         else (case free_id (pending tx) (msg_id query) of
             None \<Rightarrow> None
           | Some upstream_id \<Rightarrow>
               if length request < 2 then None
               else Some (Inr (Some (to_be_bytes upstream_id @ drop 2 request)),
                          tx\<lparr>pending := AList.update upstream_id
                              \<lparr>p_request = request, p_question = question, p_client_id = msg_id query\<rparr>
                              (pending tx)\<rparr>))))"

definition complete ::
  "'n hickory \<Rightarrow> 'n message \<Rightarrow> 'n transactions \<Rightarrow> (string + unit) \<times> 'n message \<times> 'n transactions" where
  "complete H response tx = (case map_of (pending tx) (msg_id response) of
     None \<Rightarrow> (Inl ''unsolicited DNS-over-TCP response ID'', response, tx)
   | Some p \<Rightarrow> (case validate_dns_response H response (msg_id response) (p_question p) of
       Inl e \<Rightarrow> (Inl e, response, tx)
     | Inr _ \<Rightarrow> (Inr (), response\<lparr>msg_id := p_client_id p\<rparr>,
                tx\<lparr>pending := AList.delete (msg_id response) (pending tx)\<rparr>)))"

section \<open>Invariant and runs\<close>

definition tx_inv :: "'n transactions \<Rightarrow> bool" where
  "tx_inv tx = (distinct (map fst (pending tx)) \<and> length (pending tx) \<le> MAX_OUTSTANDING_DNS_QUERIES
     \<and> distinct (map (p_request \<circ> snd) (pending tx)))"

text \<open>
  What the code relies on of the message codec when it patches the identifier of a request
  in place: octets that parse hold at least the identifier.
\<close>

definition header_present :: "'n hickory \<Rightarrow> bytes \<Rightarrow> bool" where
  "header_present H request = (case from_vec H request of Inl _ \<Rightarrow> True | Inr _ \<Rightarrow> 2 \<le> length request)"

datatype 'n tx_event = Prepare bytes | Complete "'n message"

fun tx_run :: "'n hickory \<Rightarrow> 'n tx_event list \<Rightarrow> 'n transactions \<Rightarrow> 'n transactions option" where
  "tx_run H [] tx = Some tx"
| "tx_run H (Prepare request # es) tx = (case prepare H request tx of
     None \<Rightarrow> None | Some (_, tx') \<Rightarrow> tx_run H es tx')"
| "tx_run H (Complete response # es) tx = (case complete H response tx of
     (_, _, tx') \<Rightarrow> tx_run H es tx')"

fun tx_harmless :: "'n hickory \<Rightarrow> u16 \<Rightarrow> 'n tx_event \<Rightarrow> bool" where
  "tx_harmless H i (Prepare request) = header_present H request"
| "tx_harmless H i (Complete response) = (msg_id response \<noteq> i)"

section \<open>Lemmas\<close>

lemma free_id_taken: "map_of table i \<noteq> None \<Longrightarrow> free_id table i = free_id table (i + 1)"
  and free_id_free: "map_of table i = None \<Longrightarrow> free_id table i = Some i"
  by (subst free_id.simps, simp)+

lemma free_id_search:
  assumes "map_of table (i + of_nat k) = None"
  shows "\<exists>j. free_id table i = Some j \<and> map_of table j = None"
  using assms
proof (induction k arbitrary: i)
  case 0
  then show ?case by (simp add: free_id_free)
next
  case (Suc k)
  show ?case
  proof (cases "map_of table i = None")
    case True
    then show ?thesis by (auto simp: free_id_free)
  next
    case False
    have "map_of table ((i + 1) + of_nat k) = None" using Suc.prems by (simp add: algebra_simps)
    from Suc.IH [OF this] show ?thesis by (simp add: free_id_taken [OF False])
  qed
qed

lemma free_id_total:
  assumes "length table < 65536"
  shows "\<exists>j. free_id table (i :: u16) = Some j \<and> map_of table j = None"
proof -
  have "card (fst ` set table) \<le> length table" by (metis card_length length_map set_map)
  moreover have "card (UNIV :: u16 set) = 65536" by (simp add: card_word)
  ultimately have "fst ` set table \<noteq> UNIV" using assms by auto
  then obtain j where j: "j \<notin> fst ` set table" by auto
  have "i + of_nat (unat (j - i)) = j" by simp
  then show ?thesis
    using free_id_search [of table i "unat (j - i)"] j by (simp add: map_of_eq_None_iff)
qed

lemma update_fresh: "map_of table i = None \<Longrightarrow> AList.update i v table = table @ [(i, v)]"
  by (induction table) (auto split: if_splits)

lemma prepare_cases:
  assumes inv: "tx_inv tx" and hdr: "header_present H request"
  shows "\<exists>r tx'. prepare H request tx = Some (r, tx') \<and> (case r of
      Inl _ \<Rightarrow> tx' = tx
    | Inr None \<Rightarrow> tx' = tx \<and> request \<in> set (map (p_request \<circ> snd) (pending tx))
    | Inr (Some forwarded) \<Rightarrow> (\<exists>i m q. from_vec H request = Inr m \<and> validate_dns_query m = Inr q
        \<and> map_of (pending tx) i = None \<and> forwarded = to_be_bytes i @ drop 2 request
        \<and> request \<notin> set (map (p_request \<circ> snd) (pending tx))
        \<and> length (pending tx) < MAX_OUTSTANDING_DNS_QUERIES
        \<and> pending tx' = pending tx
            @ [(i, \<lparr>p_request = request, p_question = q, p_client_id = msg_id m\<rparr>)]))"
proof -
  have parse: "parse_data_to_dns_message H request False = from_vec H request"
    by (simp add: parse_data_to_dns_message_def)
  have dup: "list_ex (\<lambda>(_, p). p_request p = request) (pending tx)
      \<longleftrightarrow> request \<in> set (map (p_request \<circ> snd) (pending tx))"
    by (force simp: list_ex_iff)
  show ?thesis
  proof (cases "from_vec H request")
    case (Inl e)
    then show ?thesis by (simp add: prepare_def parse)
  next
    case m: (Inr m)
    show ?thesis
    proof (cases "validate_dns_query m")
      case (Inl e)
      then show ?thesis by (simp add: prepare_def parse m)
    next
      case q: (Inr q)
      consider (dup) "request \<in> set (map (p_request \<circ> snd) (pending tx))"
        | (full) "request \<notin> set (map (p_request \<circ> snd) (pending tx))"
            "length (pending tx) \<ge> MAX_OUTSTANDING_DNS_QUERIES"
        | (new) "request \<notin> set (map (p_request \<circ> snd) (pending tx))"
            "length (pending tx) < MAX_OUTSTANDING_DNS_QUERIES"
        by linarith
      then show ?thesis
      proof cases
        case dup
        then show ?thesis using \<open>list_ex _ _ \<longleftrightarrow> _\<close> by (simp add: prepare_def parse m q)
      next
        case full
        then show ?thesis using \<open>list_ex _ _ \<longleftrightarrow> _\<close> by (simp add: prepare_def parse m q)
      next
        case new
        have "length (pending tx) < 65536" using new by (simp add: MAX_OUTSTANDING_DNS_QUERIES_def)
        from free_id_total [OF this] obtain i where i: "free_id (pending tx) (msg_id m) = Some i"
          "map_of (pending tx) i = None" by blast
        have "2 \<le> length request" using hdr m by (simp add: header_present_def)
        then show ?thesis
          using new i \<open>list_ex _ _ \<longleftrightarrow> _\<close> q
          by (auto simp: prepare_def parse m update_fresh [OF i(2)])
      qed
    qed
  qed
qed

lemma complete_cases:
  assumes "complete H response tx = (r, response', tx')"
  shows "case r of
      Inl _ \<Rightarrow> tx' = tx \<and> response' = response
    | Inr _ \<Rightarrow> (\<exists>p. map_of (pending tx) (msg_id response) = Some p
        \<and> validate_dns_response H response (msg_id response) (p_question p) = Inr ()
        \<and> response' = response\<lparr>msg_id := p_client_id p\<rparr>
        \<and> pending tx' = AList.delete (msg_id response) (pending tx))"
  using assms by (auto simp: complete_def split: option.splits sum.splits)

lemma distinct_map_filter: "distinct (map f xs) \<Longrightarrow> distinct (map f (filter P xs))"
  by (induction xs) auto

lemma delete_filter: "AList.delete k xs = filter (\<lambda>e. fst e \<noteq> k) xs"
  by (auto simp: AList.delete_eq intro!: filter_cong)

lemma prepare_inv:
  assumes "tx_inv tx" "header_present H request" "prepare H request tx = Some (r, tx')"
  shows "tx_inv tx'"
  using prepare_cases [OF assms(1,2)] assms(1,3)
  by (auto simp: tx_inv_def map_of_eq_None_iff split: sum.splits option.splits)

lemma complete_inv:
  assumes "tx_inv tx" "complete H response tx = (r, response', tx')"
  shows "tx_inv tx'"
proof (cases r)
  case (Inl e)
  then show ?thesis using complete_cases [OF assms(2)] assms(1) by simp
next
  case (Inr u)
  then have "pending tx' = filter (\<lambda>e. fst e \<noteq> msg_id response) (pending tx)"
    using complete_cases [OF assms(2)] by (auto simp: delete_filter)
  then show ?thesis
    using assms(1) by (auto simp: tx_inv_def distinct_map_filter intro: le_trans [OF length_filter_le])
qed

lemma tx_run_keeps:
  assumes "tx_inv tx" "list_all (tx_harmless H i) es" "map_of (pending tx) i = Some p"
  shows "\<exists>tx'. tx_run H es tx = Some tx' \<and> tx_inv tx' \<and> map_of (pending tx') i = Some p"
  using assms
proof (induction es arbitrary: tx)
  case Nil
  then show ?case by simp
next
  case (Cons e es)
  show ?case
  proof (cases e)
    case (Prepare request)
    then have hdr: "header_present H request" using Cons.prems(2) by simp
    obtain r tx1 where run: "prepare H request tx = Some (r, tx1)"
      using prepare_cases [OF Cons.prems(1) hdr] by blast
    have "map_of (pending tx1) i = Some p"
      using prepare_cases [OF Cons.prems(1) hdr] run Cons.prems(3)
      by (auto simp: map_add_def split: sum.splits option.splits)
    then show ?thesis
      using Cons.IH [OF prepare_inv [OF Cons.prems(1) hdr run]] Cons.prems(2) run Prepare by simp
  next
    case (Complete response)
    obtain r m tx1 where run: "complete H response tx = (r, m, tx1)" by (metis prod_cases3)
    have "map_of (pending tx1) i = Some p"
      using complete_cases [OF run] Cons.prems(2,3) Complete
      by (auto simp: delete_filter map_of_filter_key split: sum.splits)
    then show ?thesis
      using Cons.IH [OF complete_inv [OF Cons.prems(1) run]] Cons.prems(2) run Complete by simp
  qed
qed

section \<open>Properties\<close>

text \<open>
  Preparing a request always returns and keeps the table in order: the search for a free
  identifier ends; at most 256 requests are pending, under distinct identifiers; a request
  already in flight is suppressed, a request beyond the limit is refused, and a forwarded
  request differs from the client's only in its first two octets, which hold an identifier
  no pending request has.
\<close>

theorem prepare_correct:
  assumes "tx_inv tx" "header_present H request"
  shows "\<exists>r tx'. prepare H request tx = Some (r, tx') \<and> tx_inv tx' \<and> (case r of
      Inl _ \<Rightarrow> tx' = tx
    | Inr None \<Rightarrow> tx' = tx \<and> request \<in> set (map (p_request \<circ> snd) (pending tx))
    | Inr (Some forwarded) \<Rightarrow> length forwarded = length request \<and> drop 2 forwarded = drop 2 request
        \<and> map_of (pending tx) (from_be_bytes (take 2 forwarded)) = None
        \<and> (\<exists>p. map_of (pending tx') (from_be_bytes (take 2 forwarded)) = Some p \<and> p_request p = request))"
proof -
  obtain r tx' where run: "prepare H request tx = Some (r, tx')"
    using prepare_cases [OF assms] by blast
  have len: "from_vec H request = Inr m \<Longrightarrow> 2 \<le> length request" for m
    using assms(2) by (simp add: header_present_def)
  show ?thesis
    using prepare_cases [OF assms] run prepare_inv [OF assms run]
    by (auto simp: map_of_append map_add_def dest!: len split: sum.splits option.splits)
qed

theorem prepare_correct_witness:
  "\<exists>r tx'. prepare demo_hickory [0, 7, 1] transactions_default = Some (r, tx') \<and> tx_inv tx'"
proof -
  have "tx_inv transactions_default" by (simp add: tx_inv_def transactions_default_def)
  moreover have "header_present demo_hickory [0, 7, 1]" by (simp add: header_present_def split: sum.split)
  ultimately show ?thesis using prepare_correct [of transactions_default demo_hickory "[0, 7, 1]"] by blast
qed

text \<open>
  C33. Replies are attributed correctly under any interleaving: once a request is forwarded
  under an identifier, any sequence of other requests and of replies with other identifiers
  leaves it pending; a reply with this identifier and the request's question is then
  accepted, gets the client's identifier back, and frees the entry, and a reply whose
  question differs is refused and leaves the entry pending.
\<close>

theorem transaction_roundtrip:
  assumes inv: "tx_inv tx" and hdr: "header_present H request"
    and prep: "prepare H request tx = Some (Inr (Some forwarded), tx1)"
    and others: "list_all (tx_harmless H (from_be_bytes (take 2 forwarded))) es"
    and reply: "msg_id response = from_be_bytes (take 2 forwarded)"
  shows "\<exists>tx2 m q. tx_run H es tx1 = Some tx2
     \<and> from_vec H request = Inr m \<and> validate_dns_query m = Inr q
     \<and> (case validate_dns_response H response (msg_id response) q of
          Inr _ \<Rightarrow> \<exists>tx3. complete H response tx2 = (Inr (), response\<lparr>msg_id := msg_id m\<rparr>, tx3)
                    \<and> tx_inv tx3 \<and> map_of (pending tx3) (msg_id response) = None
        | Inl e \<Rightarrow> complete H response tx2 = (Inl e, response, tx2))"
proof -
  obtain i m q where m: "from_vec H request = Inr m" "validate_dns_query m = Inr q"
    and fwd: "forwarded = to_be_bytes i @ drop 2 request" and fresh: "map_of (pending tx) i = None"
    and tx1: "pending tx1 = pending tx @ [(i, \<lparr>p_request = request, p_question = q, p_client_id = msg_id m\<rparr>)]"
    using prepare_cases [OF inv hdr] prep by auto
  have i: "from_be_bytes (take 2 forwarded) = i" by (simp add: fwd)
  have "map_of (pending tx1) i = Some \<lparr>p_request = request, p_question = q, p_client_id = msg_id m\<rparr>"
    by (simp add: tx1 map_add_def fresh)
  from tx_run_keeps [OF prepare_inv [OF inv hdr prep] others [unfolded i] this]
  obtain tx2 where run: "tx_run H es tx1 = Some tx2" and inv2: "tx_inv tx2"
    and p: "map_of (pending tx2) i = Some \<lparr>p_request = request, p_question = q, p_client_id = msg_id m\<rparr>"
    by blast
  show ?thesis
  proof (cases "validate_dns_response H response (msg_id response) q")
    case (Inl e)
    then show ?thesis using run m p reply i by (auto simp: complete_def)
  next
    case (Inr u)
    obtain r response' tx3 where c: "complete H response tx2 = (r, response', tx3)" by (metis prod_cases3)
    have "r = Inr () \<and> response' = response\<lparr>msg_id := msg_id m\<rparr>
        \<and> map_of (pending tx3) (msg_id response) = None"
      using c Inr p reply i
      by (auto simp: complete_def delete_filter map_of_filter_key)
    then show ?thesis using run m Inr c complete_inv [OF inv2 c] by auto
  qed
qed

theorem transaction_roundtrip_witness:
  "\<exists>tx1 tx2 tx3. prepare demo_hickory [0, 7, 1] transactions_default = Some (Inr (Some [0, 7, 1]), tx1)
     \<and> tx_run demo_hickory [Prepare [0, 7, 2], Prepare [0, 8, 1]] tx1 = Some tx2
     \<and> complete demo_hickory (demo_answer\<lparr>msg_id := 7\<rparr>) tx2
        = (Inr (), demo_answer\<lparr>msg_id := 7, msg_id := 7\<rparr>, tx3)"
proof -
  have inv: "tx_inv transactions_default" by (simp add: tx_inv_def transactions_default_def)
  have hdr: "header_present demo_hickory [0, 7, 1]" "header_present demo_hickory [0, 7, 2]"
    "header_present demo_hickory [0, 8, 1]"
    by (simp_all add: header_present_def split: sum.split)
  have f: "from_vec demo_hickory [0, 7, 1] = Inr (demo_query 7 TypeA)"
    and v: "validate_dns_query (demo_query 7 TypeA) = Inr (queries (demo_query 7 TypeA) ! 0)"
    and r: "validate_dns_response demo_hickory (demo_answer\<lparr>msg_id := 7\<rparr>) 7 (queries (demo_query 7 TypeA) ! 0) = Inr ()"
    and b: "to_be_bytes (7 :: u16) = [0, 7]" and b': "from_be_bytes [0, 7] = (7 :: u16)"
    by code_simp+
  have i: "msg_id (demo_query 7 TypeA) = 7" by (simp add: demo_query_def)
  obtain tx1 where p: "prepare demo_hickory [0, 7, 1] transactions_default = Some (Inr (Some [0, 7, 1]), tx1)"
    using f v by (simp add: prepare_def parse_data_to_dns_message_def transactions_default_def
        free_id_free b i MAX_OUTSTANDING_DNS_QUERIES_def)
  have "list_all (tx_harmless demo_hickory (from_be_bytes (take 2 [0, 7, 1]))) [Prepare [0, 7, 2], Prepare [0, 8, 1]]"
    using hdr by simp
  from transaction_roundtrip [OF inv hdr(1) p this, of "demo_answer\<lparr>msg_id := 7\<rparr>"] b' r f v p i
  show ?thesis by auto
qed

end
