(* ===== verification/Udpgw.thy ===== *)
theory Udpgw
  imports Prelude "HOL-Library.Sublist"
begin

text \<open>
  The UDP gateway protocol, client side, \<^verbatim>\<open>src/udpgw.rs\<close>: the packet format and its parsers, the
  builders, the cancellation-safe frame reader, and the pool of gateway connections with
  its heartbeat.  SOCKS5 addresses are encoded by a third-party crate: the functions of
  \<^verbatim>\<open>addr_codec\<close> are arguments, and \<^verbatim>\<open>addr_codec_ok\<close> is what the code relies on for an address.
\<close>

unbundle bit_operations_syntax

section \<open>Packets\<close>

record addr_codec =
  a_write :: "address \<Rightarrow> bytes"
  a_len :: "address \<Rightarrow> nat"
  a_read :: "bytes \<Rightarrow> io_error + (address \<times> bytes)"

datatype udp_flag = UdpFlag (flag_bits: byte)

definition flag_ZERO :: udp_flag where "flag_ZERO = UdpFlag 0x00"
definition flag_KEEPALIVE :: udp_flag where "flag_KEEPALIVE = UdpFlag 0x01"
definition flag_DATA :: udp_flag where "flag_DATA = UdpFlag 0x02"
definition flag_CLOSE :: udp_flag where "flag_CLOSE = UdpFlag 0x04"
definition flag_ERR :: udp_flag where "flag_ERR = UdpFlag 0x20"

definition flag_and :: "udp_flag \<Rightarrow> udp_flag \<Rightarrow> udp_flag" where
  "flag_and a b = UdpFlag (flag_bits a AND flag_bits b)"

definition flag_or :: "udp_flag \<Rightarrow> udp_flag \<Rightarrow> udp_flag" where
  "flag_or a b = UdpFlag (flag_bits a OR flag_bits b)"

record udpgw_header =
  flags :: udp_flag
  conn_id :: u16

record packet =
  pkt_header :: udpgw_header
  pkt_address :: "address option"
  pkt_data :: bytes

definition UDPGW_LENGTH_FIELD_SIZE :: nat where
  "UDPGW_LENGTH_FIELD_SIZE = 2"

definition UDPGW_MAX_CONNECTIONS :: nat where
  "UDPGW_MAX_CONNECTIONS = 5"

definition header_static_len :: nat where
  "header_static_len = 3"

definition header_to_bytes :: "udpgw_header \<Rightarrow> bytes" where
  "header_to_bytes h = flag_bits (flags h) # to_be_bytes (conn_id h)"

definition header_try_from :: "bytes \<Rightarrow> udpgw_header io_result" where
  "header_try_from value =
     (if length value < header_static_len then Inl (IoError InvalidData '''')
      else Inr \<lparr>flags = UdpFlag (value ! 0), conn_id = from_be_bytes [value ! 1, value ! 2]\<rparr>)"

definition header_retrieve_from_stream :: "bytes \<Rightarrow> (udpgw_header \<times> bytes) io_result" where
  "header_retrieve_from_stream s = rbind (read_exact header_static_len s) (\<lambda>(buf, s').
     rbind (header_try_from buf) (\<lambda>h. Inr (h, s')))"

definition header_len :: "udpgw_header \<Rightarrow> nat" where
  "header_len h = header_static_len"

definition packet_new :: "udpgw_header \<Rightarrow> address option \<Rightarrow> bytes \<Rightarrow> packet" where
  "packet_new h a d = \<lparr>pkt_header = h, pkt_address = a, pkt_data = d\<rparr>"

definition packet_len :: "addr_codec \<Rightarrow> packet \<Rightarrow> nat" where
  "packet_len C p = UDPGW_LENGTH_FIELD_SIZE + header_len (pkt_header p)
     + (case pkt_address p of None \<Rightarrow> 0 | Some a \<Rightarrow> a_len C a) + length (pkt_data p)"

definition packet_write_to_buf :: "addr_codec \<Rightarrow> packet \<Rightarrow> bytes" where
  "packet_write_to_buf C p =
     (let len = packet_len C p - UDPGW_LENGTH_FIELD_SIZE in
      to_be_bytes (of_nat len :: u16) @ header_to_bytes (pkt_header p)
      @ (case pkt_address p of None \<Rightarrow> [] | Some a \<Rightarrow> a_write C a) @ pkt_data p)"

definition has_data_flag :: "udpgw_header \<Rightarrow> bool" where
  "has_data_flag h = (flag_and (flags h) flag_DATA = flag_DATA)"

text \<open>The part all three parsers share: the header and, on a data packet, the address.\<close>

definition retrieve_head ::
  "addr_codec \<Rightarrow> bytes \<Rightarrow> (udpgw_header \<times> address option \<times> bytes) io_result" where
  "retrieve_head C s = rbind (header_retrieve_from_stream s) (\<lambda>(h, s1).
     if has_data_flag h then rbind (a_read C s1) (\<lambda>(a, s2). Inr (h, Some a, s2))
     else Inr (h, None, s1))"

definition head_len :: "addr_codec \<Rightarrow> udpgw_header \<Rightarrow> address option \<Rightarrow> nat" where
  "head_len C h a = header_len h + (case a of None \<Rightarrow> 0 | Some a \<Rightarrow> a_len C a)"

definition packet_try_from :: "addr_codec \<Rightarrow> bytes \<Rightarrow> packet io_result" where
  "packet_try_from C value =
     (if length value < UDPGW_LENGTH_FIELD_SIZE then Inl (IoError InvalidData ''frame too short'')
      else
        let len = nat_of_be [value ! 0, value ! 1]; total = len + UDPGW_LENGTH_FIELD_SIZE in
        if length value < total then Inl (IoError InvalidData ''incomplete frame'')
        else rbind (retrieve_head C (drop UDPGW_LENGTH_FIELD_SIZE (take total value))) (\<lambda>(h, a, chunk).
          if len < head_len C h a
          then Inl (IoError InvalidData ''length field smaller than header and address length'')
          else Inr (packet_new h a chunk)))"

definition packet_retrieve_from_stream :: "addr_codec \<Rightarrow> bytes \<Rightarrow> (packet \<times> bytes) io_result" where
  "packet_retrieve_from_stream C s =
     rbind (read_exact UDPGW_LENGTH_FIELD_SIZE s) (\<lambda>(buf, s1).
       let len = nat_of_be buf in
       rbind (retrieve_head C s1) (\<lambda>(h, a, s2).
         if len < head_len C h a then Inl (IoError InvalidData '''')
         else rbind (read_exact (len - head_len C h a) s2) (\<lambda>(d, s3). Inr (packet_new h a d, s3))))"

section \<open>Builders\<close>

definition build_keepalive_packet :: "u16 \<Rightarrow> packet" where
  "build_keepalive_packet i = packet_new \<lparr>flags = flag_KEEPALIVE, conn_id = i\<rparr> None []"

definition build_close_packet :: "u16 \<Rightarrow> packet" where
  "build_close_packet i = packet_new \<lparr>flags = flag_CLOSE, conn_id = i\<rparr> None []"

definition build_error_packet :: "u16 \<Rightarrow> packet" where
  "build_error_packet i = packet_new \<lparr>flags = flag_ERR, conn_id = i\<rparr> None []"

definition build_ip_packet :: "u16 \<Rightarrow> socket_addr \<Rightarrow> bytes \<Rightarrow> packet" where
  "build_ip_packet i addr d = packet_new \<lparr>flags = flag_DATA, conn_id = i\<rparr> (Some (SocketAddress addr)) d"

definition build_domain_packet ::
  "addr_codec \<Rightarrow> u16 \<Rightarrow> u16 \<Rightarrow> string \<Rightarrow> bytes \<Rightarrow> packet io_result" where
  "build_domain_packet C i port domain d =
     (if length domain > 255 then Inl (IoError InvalidInput ''domain name exceeds 255 characters'')
      else
        let p = packet_new \<lparr>flags = flag_DATA, conn_id = i\<rparr> (Some (DomainAddress domain port)) d in
        if packet_len C p - UDPGW_LENGTH_FIELD_SIZE > 65535
        then Inl (IoError InvalidInput ''udpgw packet exceeds maximum frame length'')
        else Inr p)"

definition build_packet_from_address ::
  "addr_codec \<Rightarrow> u16 \<Rightarrow> address \<Rightarrow> bytes \<Rightarrow> packet io_result" where
  "build_packet_from_address C i remote d =
     rbind (case remote of
              SocketAddress addr \<Rightarrow> Inr (build_ip_packet i addr d)
            | DomainAddress domain port \<Rightarrow> build_domain_packet C i port domain d) (\<lambda>p.
       if packet_len C p - UDPGW_LENGTH_FIELD_SIZE > 65535
       then Inl (IoError InvalidInput ''udpgw packet exceeds maximum frame length'')
       else Inr p)"

section \<open>Receiving\<close>

datatype udpgw_response = KeepAlive | GwError | TcpClose | GwData packet

definition parse_udp_response :: "u16 \<Rightarrow> packet \<Rightarrow> udpgw_response result" where
  "parse_udp_response udp_mtu p =
     (let f = flags (pkt_header p) in
      if flag_and f flag_ERR = flag_ERR then Inr GwError
      else if flag_and f flag_KEEPALIVE = flag_KEEPALIVE then Inr KeepAlive
      else if flag_and f flag_CLOSE = flag_CLOSE then Inr TcpClose
      else if length (pkt_data p) > unat udp_mtu then Inl (StringError ''too much data'')
      else Inr (GwData p))"

text \<open>
  The cancellation-safe reader.  \<^verbatim>\<open>csafe_frame\<close> is the work on the accumulated octets: None when
  another read is needed.  The reads a call makes are the events that the socket delivers;
  when they are used up the call is pending, and dropping it leaves the accumulator as it is.
\<close>

definition csafe_frame ::
  "addr_codec \<Rightarrow> u16 \<Rightarrow> bytes \<Rightarrow> ((nat \<times> udpgw_response) result \<times> bytes) option" where
  "csafe_frame C udp_mtu acc =
     (if length acc \<ge> UDPGW_LENGTH_FIELD_SIZE then
        let len = nat_of_be [acc ! 0, acc ! 1]; total = len + UDPGW_LENGTH_FIELD_SIZE in
        if len \<ge> 3 \<and> length acc \<ge> total then
          (case retrieve_head C (drop 2 (take total acc)) of
             Inl e \<Rightarrow> Some (Inl (Io e), acc)
           | Inr (h, a, rest) \<Rightarrow>
               if len < head_len C h a then Some (Inl (Io (IoError InvalidData '''')), acc)
               else
                 let data_start = total - length rest;
                     data = drop data_start (take total acc);
                     full = UDPGW_LENGTH_FIELD_SIZE + head_len C h a + length data in
                 (case parse_udp_response udp_mtu (packet_new h a data) of
                    Inl e \<Rightarrow> Some (Inl e, drop total acc)
                  | Inr r \<Rightarrow> Some (Inr (full, r), drop total acc)))
        else if len < 3 then Some (Inl (Io (IoError InvalidData '''')), acc)
        else None
      else None)"

fun recv_udpgw_packet_csafe ::
  "addr_codec \<Rightarrow> u16 \<Rightarrow> read_event list \<Rightarrow> bytes
   \<Rightarrow> (nat \<times> udpgw_response) result poll \<times> bytes \<times> read_event list" where
  "recv_udpgw_packet_csafe C udp_mtu events acc = (case csafe_frame C udp_mtu acc of
     Some (r, acc') \<Rightarrow> (Ready r, acc', events)
   | None \<Rightarrow> (case events of
       [] \<Rightarrow> (Pending, acc, [])
     | ReadTimeout # es \<Rightarrow> (Ready (Inl (Io (IoError TimedOut ''deadline has elapsed''))), acc, es)
     | ReadError e # es \<Rightarrow> (Ready (Inl (Io e)), acc, es)
     | ReadChunk c # es \<Rightarrow>
         if c = [] then (Ready (Inl (Io (IoError UnexpectedEof ''''))), acc, es)
         else recv_udpgw_packet_csafe C udp_mtu es (acc @ c)))"

declare recv_udpgw_packet_csafe.simps [simp del]

definition recv_udpgw_packet ::
  "addr_codec \<Rightarrow> u16 \<Rightarrow> bytes \<Rightarrow> ((nat \<times> udpgw_response) \<times> bytes) result" where
  "recv_udpgw_packet C udp_mtu s = rbind (io_result_error (packet_retrieve_from_stream C s)) (\<lambda>(p, s').
     rbind (parse_udp_response udp_mtu p) (\<lambda>r. Inr ((packet_len C p, r), s')))"

definition is_ipv6_address :: "address \<Rightarrow> bool" where
  "is_ipv6_address a = (case a of SocketAddress sa \<Rightarrow> \<not> is_ipv4 (sa_ip sa) | DomainAddress _ _ \<Rightarrow> False)"

definition send_udpgw_packet ::
  "addr_codec \<Rightarrow> bool \<Rightarrow> bytes \<Rightarrow> address \<Rightarrow> u16 \<Rightarrow> bytes result" where
  "send_udpgw_packet C ipv6_enabled d remote i =
     (if \<not> ipv6_enabled \<and> is_ipv6_address remote then Inl (StringError ''ipv6 not support'')
      else rbind (io_result_error (build_packet_from_address C i remote d))
             (\<lambda>p. Inr (packet_write_to_buf C p)))"

definition send_udpgw_close_packet :: "addr_codec \<Rightarrow> u16 \<Rightarrow> bytes \<times> nat" where
  "send_udpgw_close_packet C i =
     (let out = packet_write_to_buf C (build_close_packet i) in (out, length out))"

section \<open>The pool of gateway connections\<close>

text \<open>
  Halves of a TCP connection are handles; times are milliseconds on a monotonic clock.
\<close>

record gw_stream =
  gs_local_addr :: socket_addr
  gs_writer :: "nat option"
  gs_reader :: "nat option"
  gs_closed :: bool
  gs_last_activity :: nat
  gs_serial_number :: u16

record gw_client =
  gc_udp_mtu :: u16
  gc_max_connections :: nat
  gc_udp_timeout :: nat
  gc_keepalive_time :: nat
  gc_udpgw_server :: socket_addr
  gc_connections :: "gw_stream list"

definition gs_close :: "gw_stream \<Rightarrow> gw_stream" where
  "gs_close s = s\<lparr>gs_closed := True\<rparr>"

definition gs_get_reader :: "gw_stream \<Rightarrow> nat option \<times> gw_stream" where
  "gs_get_reader s = (gs_reader s, s\<lparr>gs_reader := None\<rparr>)"

definition gs_get_writer :: "gw_stream \<Rightarrow> nat option \<times> gw_stream" where
  "gs_get_writer s = (gs_writer s, s\<lparr>gs_writer := None\<rparr>)"

definition rotate_serial_number :: "u16 \<Rightarrow> gw_stream \<Rightarrow> u16 \<times> gw_stream \<times> u16" where
  "rotate_serial_number counter s = (counter, s\<lparr>gs_serial_number := counter\<rparr>, counter + 1)"

definition gs_new :: "u16 \<Rightarrow> nat \<Rightarrow> socket_addr \<Rightarrow> nat \<Rightarrow> nat \<Rightarrow> gw_stream \<times> u16" where
  "gs_new counter now local r w =
     (\<lparr>gs_local_addr = local, gs_writer = Some w, gs_reader = Some r, gs_closed = False,
       gs_last_activity = now, gs_serial_number = counter\<rparr>, counter + 1)"

definition gc_new :: "u16 \<Rightarrow> nat \<Rightarrow> nat \<Rightarrow> nat \<Rightarrow> socket_addr \<Rightarrow> gw_client" where
  "gc_new mtu max_conns keepalive timeout server =
     \<lparr>gc_udp_mtu = mtu, gc_max_connections = max_conns, gc_udp_timeout = timeout,
      gc_keepalive_time = keepalive, gc_udpgw_server = server, gc_connections = []\<rparr>"

definition pop_server_connection_from_queue :: "gw_client \<Rightarrow> gw_stream option \<times> gw_client" where
  "pop_server_connection_from_queue c = (case gc_connections c of
     [] \<Rightarrow> (None, c) | s # ss \<Rightarrow> (Some s, c\<lparr>gc_connections := ss\<rparr>))"

definition store_server_connection :: "gw_stream \<Rightarrow> gw_client \<Rightarrow> gw_client" where
  "store_server_connection s c =
     (if length (gc_connections c) < gc_max_connections c
      then c\<lparr>gc_connections := gc_connections c @ [s]\<rparr> else c)"

definition store_server_connection_full :: "gw_stream \<Rightarrow> nat \<Rightarrow> nat \<Rightarrow> gw_client \<Rightarrow> gw_client" where
  "store_server_connection_full s r w c =
     (if length (gc_connections c) < gc_max_connections c
      then c\<lparr>gc_connections := gc_connections c @ [s\<lparr>gs_reader := Some r, gs_writer := Some w\<rparr>]\<rparr>
      else c)"

text \<open>
  One round of \<^verbatim>\<open>heartbeat_task\<close>.  What the peer of a probed connection does is given by
  \<^verbatim>\<open>probe\<close>; \<^verbatim>\<open>keepalive_wait\<close> is the inner receive loop: it gives whether the connection
  answered the keepalive and the octets received, None while it still waits.
\<close>

datatype probe_result =
    LocalAddrError io_error
  | KeepaliveWriteError
  | Replies "(nat \<times> udpgw_response) result list"

fun keepalive_wait :: "(nat \<times> udpgw_response) result list \<Rightarrow> nat \<Rightarrow> (bool \<times> nat) option" where
  "keepalive_wait [] rx = None"
| "keepalive_wait (Inr (n, KeepAlive) # rs) rx = Some (True, rx + n)"
| "keepalive_wait (Inr (n, GwData p) # rs) rx = keepalive_wait rs (rx + n)"
| "keepalive_wait (Inr (n, GwError) # rs) rx = keepalive_wait rs (rx + n)"
| "keepalive_wait (Inr (n, TcpClose) # rs) rx = Some (False, rx + n)"
| "keepalive_wait (Inl e # rs) rx = Some (False, rx)"

fun heartbeat_streams ::
  "addr_codec \<Rightarrow> nat \<Rightarrow> (gw_stream \<Rightarrow> probe_result) \<Rightarrow> gw_stream list \<Rightarrow> nat \<Rightarrow> nat \<Rightarrow> gw_client
   \<Rightarrow> ((nat \<times> nat) io_result \<times> gw_client) option" where
  "heartbeat_streams C now probe [] tx rx c = Some (Inr (tx, rx), c)"
| "heartbeat_streams C now probe (s # ss) tx rx c =
     (if now - gs_last_activity s < gc_keepalive_time c
      then heartbeat_streams C now probe ss tx rx (store_server_connection s c)
      else case (gs_reader s, gs_writer s) of
        (Some r, Some w) \<Rightarrow>
          (let tx' = tx + length (packet_write_to_buf C (build_keepalive_packet (gs_serial_number s))) in
           case probe s of
             LocalAddrError e \<Rightarrow> Some (Inl e, c)
           | KeepaliveWriteError \<Rightarrow> heartbeat_streams C now probe ss tx' rx c
           | Replies rs \<Rightarrow> (case keepalive_wait rs rx of
               None \<Rightarrow> None
             | Some (True, rx') \<Rightarrow> heartbeat_streams C now probe ss tx' rx'
                 (store_server_connection_full (s\<lparr>gs_last_activity := now\<rparr>) r w c)
             | Some (False, rx') \<Rightarrow> heartbeat_streams C now probe ss tx' rx' c))
      | _ \<Rightarrow> heartbeat_streams C now probe ss tx rx c)"

definition heartbeat_round ::
  "addr_codec \<Rightarrow> nat \<Rightarrow> (gw_stream \<Rightarrow> probe_result) \<Rightarrow> gw_client
   \<Rightarrow> ((nat \<times> nat) io_result \<times> gw_client) option" where
  "heartbeat_round C now probe c =
     heartbeat_streams C now probe (filter (\<lambda>s. \<not> gs_closed s) (gc_connections c)) 0 0
       (c\<lparr>gc_connections := []\<rparr>)"

section \<open>Well-formed packets\<close>

definition addr_codec_ok :: "addr_codec \<Rightarrow> address \<Rightarrow> bool" where
  "addr_codec_ok C a = (a_len C a = length (a_write C a)
     \<and> (\<forall>rest. a_read C (a_write C a @ rest) = Inr (a, rest)))"

definition packet_ok :: "addr_codec \<Rightarrow> packet \<Rightarrow> bool" where
  "packet_ok C p = ((pkt_address p \<noteq> None) = has_data_flag (pkt_header p)
     \<and> (case pkt_address p of None \<Rightarrow> True | Some a \<Rightarrow> addr_codec_ok C a)
     \<and> packet_len C p \<le> 65537)"

definition pool_grown :: "gw_stream list \<Rightarrow> gw_client \<Rightarrow> gw_client \<Rightarrow> bool" where
  "pool_grown ss c c' = (\<exists>xs. gc_connections c' = gc_connections c @ xs
     \<and> subseq (map gs_serial_number xs) (map gs_serial_number ss)
     \<and> list_all (\<lambda>s. \<not> gs_closed s) xs
     \<and> length (gc_connections c') \<le> gc_max_connections c'
     \<and> gc_max_connections c' = gc_max_connections c)"

text \<open>The responses of up to \<^verbatim>\<open>n\<close> successive calls of the reader on one connection.\<close>

fun recv_calls ::
  "addr_codec \<Rightarrow> u16 \<Rightarrow> nat \<Rightarrow> read_event list \<Rightarrow> bytes \<Rightarrow> (nat \<times> udpgw_response) list \<times> bytes" where
  "recv_calls C mtu 0 events acc = ([], acc)"
| "recv_calls C mtu (Suc n) events acc = (case recv_udpgw_packet_csafe C mtu events acc of
     (Ready (Inr r), acc', events') \<Rightarrow> (case recv_calls C mtu n events' acc' of (rs, left) \<Rightarrow> (r # rs, left))
   | (_, acc', _) \<Rightarrow> ([], acc'))"

text \<open>A codec for IPv4 addresses, for concrete instances of the theorems.\<close>

definition demo_addr :: addr_codec where
  "demo_addr = \<lparr>
     a_write = (\<lambda>a. case a of SocketAddress (SocketAddr (V4 w) p) \<Rightarrow> 1 # to_be_bytes w @ to_be_bytes p | _ \<Rightarrow> []),
     a_len = (\<lambda>a. case a of SocketAddress (SocketAddr (V4 w) p) \<Rightarrow> 7 | _ \<Rightarrow> 0),
     a_read = (\<lambda>s. if length s < 7 then Inl (IoError UnexpectedEof '''')
        else if s ! 0 \<noteq> 1 then Inl (IoError InvalidData ''Unsupported address type'')
        else Inr (SocketAddress (SocketAddr (V4 (from_be_bytes (take 4 (drop 1 s))))
                    (from_be_bytes (take 2 (drop 5 s)))), drop 7 s))\<rparr>"

definition demo_address :: address where
  "demo_address = SocketAddress (SocketAddr (V4 16909060) 53)"

section \<open>Lemmas\<close>

lemma header_roundtrip:
  "header_retrieve_from_stream (header_to_bytes h @ rest) = Inr (h, rest)"
proof -
  obtain a b where ab: "to_be_bytes (conn_id h) = [a, b]"
    by (rule be16_pair)
  then have "from_be_bytes [a, b] = conn_id h" using from_to_be16 [of "conn_id h"] by simp
  then show ?thesis
    by (simp add: header_retrieve_from_stream_def header_to_bytes_def read_exact_def
        header_try_from_def header_static_len_def ab)
qed

lemma length_header_to_bytes [simp]: "length (header_to_bytes h) = 3"
  by (simp add: header_to_bytes_def)

lemma retrieve_head_roundtrip:
  assumes "packet_ok C p"
  shows "retrieve_head C (header_to_bytes (pkt_header p)
      @ (case pkt_address p of None \<Rightarrow> [] | Some a \<Rightarrow> a_write C a) @ rest)
    = Inr (pkt_header p, pkt_address p, rest)"
  using assms
  by (cases "pkt_address p")
     (auto simp: retrieve_head_def header_roundtrip packet_ok_def addr_codec_ok_def)

lemma packet_len_head:
  "packet_len C p = 2 + head_len C (pkt_header p) (pkt_address p) + length (pkt_data p)"
  by (simp add: packet_len_def head_len_def UDPGW_LENGTH_FIELD_SIZE_def split: option.split)

lemma length_packet_write:
  assumes "packet_ok C p"
  shows "length (packet_write_to_buf C p) = packet_len C p"
  using assms
  by (cases "pkt_address p")
     (simp_all add: packet_write_to_buf_def packet_len_def packet_ok_def addr_codec_ok_def Let_def
        UDPGW_LENGTH_FIELD_SIZE_def header_len_def header_static_len_def)

lemma packet_write_split:
  assumes "packet_ok C p"
  obtains x y body where "packet_write_to_buf C p = x # y # body"
    "nat_of_be [x, y] = length body" "length body = packet_len C p - 2" "3 \<le> length body"
    "body = header_to_bytes (pkt_header p)
       @ (case pkt_address p of None \<Rightarrow> [] | Some a \<Rightarrow> a_write C a) @ pkt_data p"
proof -
  let ?n = "packet_len C p - 2"
  let ?body = "header_to_bytes (pkt_header p)
       @ (case pkt_address p of None \<Rightarrow> [] | Some a \<Rightarrow> a_write C a) @ pkt_data p"
  obtain x y where xy: "to_be_bytes (of_nat ?n :: u16) = [x, y]"
    by (rule be16_pair)
  have w: "packet_write_to_buf C p = x # y # ?body"
    using xy by (simp add: packet_write_to_buf_def Let_def UDPGW_LENGTH_FIELD_SIZE_def)
  have len: "length ?body = ?n" using length_packet_write [OF assms] w by simp
  have "nat_of_be [x, y] = ?n mod 65536"
    using nat_of_be_of_nat [of 2 "unat (of_nat ?n :: u16)"] xy
    by (simp add: to_be_bytes_def unat_of_nat)
  moreover have "?n < 65536" using assms unfolding packet_ok_def by linarith
  ultimately show ?thesis using that [OF w] len by simp
qed

lemma packet_try_from_write:
  assumes "packet_ok C p"
  shows "packet_try_from C (packet_write_to_buf C p @ rest) = Inr p"
proof -
  obtain x y body where b: "packet_write_to_buf C p = x # y # body"
    "nat_of_be [x, y] = length body" "length body = packet_len C p - 2" "3 \<le> length body"
    "body = header_to_bytes (pkt_header p)
       @ (case pkt_address p of None \<Rightarrow> [] | Some a \<Rightarrow> a_write C a) @ pkt_data p"
    by (rule packet_write_split [OF assms])
  have "retrieve_head C body = Inr (pkt_header p, pkt_address p, pkt_data p)"
    using retrieve_head_roundtrip [OF assms] b(5) by simp
  moreover have "head_len C (pkt_header p) (pkt_address p) \<le> length body"
    using b(3) packet_len_head [of C p] by simp
  ultimately show ?thesis
    using b(1,2) by (simp add: packet_try_from_def UDPGW_LENGTH_FIELD_SIZE_def Let_def packet_new_def)
qed

lemma packet_retrieve_write:
  assumes "packet_ok C p"
  shows "packet_retrieve_from_stream C (packet_write_to_buf C p @ rest) = Inr (p, rest)"
proof -
  obtain x y body where b: "packet_write_to_buf C p = x # y # body"
    "nat_of_be [x, y] = length body" "length body = packet_len C p - 2" "3 \<le> length body"
    "body = header_to_bytes (pkt_header p)
       @ (case pkt_address p of None \<Rightarrow> [] | Some a \<Rightarrow> a_write C a) @ pkt_data p"
    by (rule packet_write_split [OF assms])
  have "retrieve_head C (body @ rest) = Inr (pkt_header p, pkt_address p, pkt_data p @ rest)"
    using retrieve_head_roundtrip [OF assms, of "pkt_data p @ rest"] b(5) by simp
  moreover have "length body = head_len C (pkt_header p) (pkt_address p) + length (pkt_data p)"
    using b(3) packet_len_head [of C p] by simp
  ultimately show ?thesis
    using b(1,2)
    by (simp add: packet_retrieve_from_stream_def read_exact_def UDPGW_LENGTH_FIELD_SIZE_def
        Let_def packet_new_def)
qed

lemma csafe_frame_complete:
  assumes "packet_ok C p"
  shows "csafe_frame C mtu (packet_write_to_buf C p @ rest) = Some
    (rbind (parse_udp_response mtu p) (\<lambda>r. Inr (packet_len C p, r)), rest)"
proof -
  obtain x y body where b: "packet_write_to_buf C p = x # y # body"
    "nat_of_be [x, y] = length body" "length body = packet_len C p - 2" "3 \<le> length body"
    "body = header_to_bytes (pkt_header p)
       @ (case pkt_address p of None \<Rightarrow> [] | Some a \<Rightarrow> a_write C a) @ pkt_data p"
    by (rule packet_write_split [OF assms])
  have head: "retrieve_head C body = Inr (pkt_header p, pkt_address p, pkt_data p)"
    using retrieve_head_roundtrip [OF assms] b(5) by simp
  have len: "length body = head_len C (pkt_header p) (pkt_address p) + length (pkt_data p)"
    using b(3) packet_len_head [of C p] by simp
  have "drop (length (xs @ d) - length d) (xs @ d) = d" for xs d :: bytes by simp
  from this [of "x # y # header_to_bytes (pkt_header p)
       @ (case pkt_address p of None \<Rightarrow> [] | Some a \<Rightarrow> a_write C a)" "pkt_data p"]
  have data: "drop (Suc (Suc (length body)) - length (pkt_data p)) (x # y # body) = pkt_data p"
    unfolding b(5) by (simp only: append_Cons append_assoc length_Cons)
  have new: "packet_new (pkt_header p) (pkt_address p) (pkt_data p) = p" by (simp add: packet_new_def)
  have full: "packet_len C p = 2 + head_len C (pkt_header p) (pkt_address p) + length (pkt_data p)"
    by (rule packet_len_head)
  show ?thesis
    using b(1,2,4) head len data
    by (simp add: csafe_frame_def UDPGW_LENGTH_FIELD_SIZE_def Let_def new full split: sum.split)
qed

lemma csafe_frame_partial:
  assumes "packet_ok C p" "n < length (packet_write_to_buf C p)"
  shows "csafe_frame C mtu (take n (packet_write_to_buf C p)) = None"
proof -
  obtain x y body where b: "packet_write_to_buf C p = x # y # body"
    "nat_of_be [x, y] = length body" "3 \<le> length body"
    by (rule packet_write_split [OF assms(1)])
  show ?thesis
  proof (cases "n < 2")
    case True
    then show ?thesis by (simp add: csafe_frame_def UDPGW_LENGTH_FIELD_SIZE_def)
  next
    case False
    then obtain k where n: "n = Suc (Suc k)" by (metis One_nat_def Suc_1 not_less_eq old.nat.exhaust zero_less_Suc)
    then show ?thesis
      using b assms(2) by (simp add: csafe_frame_def UDPGW_LENGTH_FIELD_SIZE_def Let_def)
  qed
qed

lemma recv_csafe_resume:
  "recv_udpgw_packet_csafe C mtu (e1 @ e2) acc = (case recv_udpgw_packet_csafe C mtu e1 acc of
     (Pending, acc', _) \<Rightarrow> recv_udpgw_packet_csafe C mtu e2 acc'
   | (Ready r, acc', left) \<Rightarrow> (Ready r, acc', left @ e2))"
proof (induction e1 arbitrary: acc)
  case Nil
  then show ?case
    by (subst (2) recv_udpgw_packet_csafe.simps)
       (auto simp: recv_udpgw_packet_csafe.simps [of C mtu e2] split: option.split prod.split)
next
  case (Cons e e1)
  show ?case
  proof (cases "csafe_frame C mtu acc")
    case None
    then show ?thesis
      using Cons.IH by (subst (1 2) recv_udpgw_packet_csafe.simps) (cases e; auto)
  next
    case (Some x)
    then show ?thesis by (subst (1 2) recv_udpgw_packet_csafe.simps) (cases x; simp)
  qed
qed

lemma recv_csafe_first:
  assumes ok: "packet_ok C p" and parse: "parse_udp_response mtu p = Inr r"
  shows "acc @ concat cs = packet_write_to_buf C p @ rest \<Longrightarrow> list_all (\<lambda>c. c \<noteq> []) cs \<Longrightarrow>
    \<exists>acc' cs'. recv_udpgw_packet_csafe C mtu (map ReadChunk cs) acc
        = (Ready (Inr (packet_len C p, r)), acc', map ReadChunk cs')
      \<and> acc' @ concat cs' = rest \<and> list_all (\<lambda>c. c \<noteq> []) cs'"
proof (induction cs arbitrary: acc)
  case Nil
  then have "csafe_frame C mtu acc = Some (Inr (packet_len C p, r), rest)"
    using csafe_frame_complete [OF ok] parse by simp
  then show ?case by (subst recv_udpgw_packet_csafe.simps) simp
next
  case (Cons c cs)
  show ?case
  proof (cases "length (packet_write_to_buf C p) \<le> length acc")
    case True
    define acc' where "acc' = drop (length (packet_write_to_buf C p)) acc"
    have "take (length (packet_write_to_buf C p)) acc = packet_write_to_buf C p"
      using True arg_cong [OF Cons.prems(1), of "take (length (packet_write_to_buf C p))"] by simp
    then have a: "acc = packet_write_to_buf C p @ acc'"
      unfolding acc'_def by (metis append_take_drop_id)
    then have "acc' @ concat (c # cs) = rest" using Cons.prems(1) by simp
    note a = a this
    have "csafe_frame C mtu acc = Some (Inr (packet_len C p, r), acc')"
      using csafe_frame_complete [OF ok] parse a(1) by simp
    then show ?thesis
      using a(2) Cons.prems(2)
      by (subst recv_udpgw_packet_csafe.simps) (auto intro: exI [of _ "c # cs"])
  next
    case False
    then have "acc = take (length acc) (packet_write_to_buf C p)"
      using arg_cong [OF Cons.prems(1), of "take (length acc)"] by simp
    then have "csafe_frame C mtu acc = None"
      using csafe_frame_partial [OF ok, of "length acc"] False by (metis not_le)
    moreover have "\<exists>acc' cs'. recv_udpgw_packet_csafe C mtu (map ReadChunk cs) (acc @ c)
        = (Ready (Inr (packet_len C p, r)), acc', map ReadChunk cs')
      \<and> acc' @ concat cs' = rest \<and> list_all (\<lambda>c. c \<noteq> []) cs'"
      using Cons.IH [of "acc @ c"] Cons.prems by simp
    ultimately show ?thesis using Cons.prems(2) by (subst recv_udpgw_packet_csafe.simps) simp
  qed
qed

lemma recv_csafe_tail:
  assumes ok: "packet_ok C p" and n: "n < length (packet_write_to_buf C p)"
  shows "acc @ concat cs = take n (packet_write_to_buf C p) \<Longrightarrow> list_all (\<lambda>c. c \<noteq> []) cs \<Longrightarrow>
    recv_udpgw_packet_csafe C mtu (map ReadChunk cs) acc = (Pending, take n (packet_write_to_buf C p), [])"
proof (induction cs arbitrary: acc)
  case Nil
  then show ?case using csafe_frame_partial [OF ok n] by (subst recv_udpgw_packet_csafe.simps) simp
next
  case (Cons c cs)
  have "acc = take (length acc) (take n (packet_write_to_buf C p))"
    using Cons.prems(1) by (metis append_eq_conv_conj)
  then have "acc = take (min (length acc) n) (packet_write_to_buf C p)" by (simp add: min.commute)
  then have "csafe_frame C mtu acc = None"
    using csafe_frame_partial [OF ok, of "min (length acc) n"] n by (metis min.strict_coboundedI2)
  then show ?case
    using Cons.IH [of "acc @ c"] Cons.prems by (subst recv_udpgw_packet_csafe.simps) simp
qed

lemma recv_calls_frames:
  assumes "list_all (\<lambda>(p, r). packet_ok C p \<and> parse_udp_response mtu p = Inr r) prs"
    and "packet_ok C q" "n < length (packet_write_to_buf C q)"
    and "acc @ concat cs = concat (map (packet_write_to_buf C \<circ> fst) prs) @ take n (packet_write_to_buf C q)"
    and "list_all (\<lambda>c. c \<noteq> []) cs"
  shows "recv_calls C mtu (Suc (length prs)) (map ReadChunk cs) acc
    = (map (\<lambda>(p, r). (packet_len C p, r)) prs, take n (packet_write_to_buf C q))"
  using assms(1,4,5)
proof (induction prs arbitrary: acc cs)
  case Nil
  then show ?case using recv_csafe_tail [OF assms(2,3), of acc cs mtu] by simp
next
  case (Cons x prs)
  obtain p r where x: "x = (p, r)" by (cases x)
  have ok: "packet_ok C p" "parse_udp_response mtu p = Inr r" using Cons.prems(1) x by simp_all
  have "acc @ concat cs = packet_write_to_buf C p
      @ (concat (map (packet_write_to_buf C \<circ> fst) prs) @ take n (packet_write_to_buf C q))"
    using Cons.prems(2) x by (simp add: o_def)
  from recv_csafe_first [OF ok this Cons.prems(3)] obtain acc' cs' where
    run: "recv_udpgw_packet_csafe C mtu (map ReadChunk cs) acc
        = (Ready (Inr (packet_len C p, r)), acc', map ReadChunk cs')"
    and rest: "acc' @ concat cs' = concat (map (packet_write_to_buf C \<circ> fst) prs) @ take n (packet_write_to_buf C q)"
      "list_all (\<lambda>c. c \<noteq> []) cs'" by blast
  have "list_all (\<lambda>(p, r). packet_ok C p \<and> parse_udp_response mtu p = Inr r) prs"
    using Cons.prems(1) by simp
  from Cons.IH [OF this rest] run show ?case by (simp add: x)
qed

lemma build_packet_ok:
  assumes "build_packet_from_address C i remote d = Inr p" "addr_codec_ok C remote"
  shows "packet_ok C p \<and> pkt_address p = Some remote \<and> pkt_data p = d
     \<and> conn_id (pkt_header p) = i \<and> has_data_flag (pkt_header p)"
proof -
  have p: "p = packet_new \<lparr>flags = flag_DATA, conn_id = i\<rparr> (Some remote) d"
    and len: "packet_len C p - UDPGW_LENGTH_FIELD_SIZE \<le> 65535"
    using assms(1)
    by (auto simp: build_packet_from_address_def build_ip_packet_def build_domain_packet_def Let_def
        split: address.splits if_splits)
  have flag: "has_data_flag \<lparr>flags = flag_DATA, conn_id = i\<rparr>"
    by (simp add: has_data_flag_def flag_and_def flag_DATA_def)
  have "packet_len C p \<le> 65537" using len by (simp add: UDPGW_LENGTH_FIELD_SIZE_def)
  then show ?thesis using assms(2) flag unfolding p by (simp add: packet_ok_def packet_new_def)
qed

lemma demo_addr_ok: "addr_codec_ok demo_addr (SocketAddress (SocketAddr (V4 w) p))"
proof -
  have "from_be_bytes (take 4 (to_be_bytes w @ to_be_bytes p @ rest)) = w"
    "from_be_bytes (take 2 (drop 4 (to_be_bytes w @ to_be_bytes p @ rest))) = p" for rest
    by simp_all
  then show ?thesis by (simp add: addr_codec_ok_def demo_addr_def)
qed

lemma demo_packet_ok: "packet_ok demo_addr (build_ip_packet 7 (SocketAddr (V4 w) p) [1, 2, 3])"
proof -
  have "build_packet_from_address demo_addr 7 (SocketAddress (SocketAddr (V4 w) p)) [1, 2, 3]
      = Inr (build_ip_packet 7 (SocketAddr (V4 w) p) [1, 2, 3])"
    by (simp add: build_packet_from_address_def build_ip_packet_def packet_len_def packet_new_def
        demo_addr_def UDPGW_LENGTH_FIELD_SIZE_def header_len_def header_static_len_def)
  from build_packet_ok [OF this demo_addr_ok] show ?thesis by simp
qed

section \<open>Properties\<close>

text \<open>
  Gateway packets survive the wire in both parsers: a well-formed packet, written and
  followed by anything, is read back exactly by the slice parser, and by the stream parser
  together with the untouched remainder of the stream.
\<close>

theorem packet_roundtrip:
  assumes "packet_ok C p"
  shows "packet_try_from C (packet_write_to_buf C p @ rest) = Inr p
     \<and> packet_retrieve_from_stream C (packet_write_to_buf C p @ rest) = Inr (p, rest)"
  using packet_try_from_write [OF assms] packet_retrieve_write [OF assms] by simp

theorem packet_roundtrip_witness:
  "packet_try_from demo_addr (packet_write_to_buf demo_addr
      (build_ip_packet 7 (SocketAddr (V4 16909060) 53) [1, 2, 3]) @ [9])
    = Inr (build_ip_packet 7 (SocketAddr (V4 16909060) 53) [1, 2, 3])"
  using packet_roundtrip [OF demo_packet_ok] by blast

text \<open>
  What the builder produces always fits its frame: a packet of
  \<^verbatim>\<open>build_packet_from_address\<close> carries exactly the given address, data and connection, its
  16-bit length field is the real length and is not truncated, and it is well formed, so it
  is read back by every parser.
\<close>

theorem build_packet_frames:
  assumes "build_packet_from_address C i remote d = Inr p" "addr_codec_ok C remote"
  shows "packet_ok C p \<and> pkt_address p = Some remote \<and> pkt_data p = d \<and> conn_id (pkt_header p) = i
     \<and> nat_of_be (take 2 (packet_write_to_buf C p)) + 2 = length (packet_write_to_buf C p)
     \<and> length (packet_write_to_buf C p) \<le> 65537"
proof -
  have ok: "packet_ok C p" using build_packet_ok [OF assms] by simp
  obtain x y body where b: "packet_write_to_buf C p = x # y # body" "nat_of_be [x, y] = length body"
    by (rule packet_write_split [OF ok])
  have "length (packet_write_to_buf C p) \<le> 65537"
    using length_packet_write [OF ok] ok by (simp add: packet_ok_def)
  then show ?thesis using build_packet_ok [OF assms] b by simp
qed

theorem build_packet_frames_witness:
  "\<exists>p. build_packet_from_address demo_addr 7 demo_address [1, 2, 3] = Inr p
     \<and> packet_ok demo_addr p \<and> pkt_data p = [1, 2, 3]"
proof -
  have "build_packet_from_address demo_addr 7 demo_address [1, 2, 3]
      = Inr (build_ip_packet 7 (SocketAddr (V4 16909060) 53) [1, 2, 3])"
    by (simp add: build_packet_from_address_def build_ip_packet_def packet_len_def packet_new_def
        demo_addr_def demo_address_def UDPGW_LENGTH_FIELD_SIZE_def header_len_def header_static_len_def)
  from build_packet_frames [OF this] demo_addr_ok this show ?thesis by (simp add: demo_address_def)
qed

text \<open>
  C29. The reader is safe against cancellation: interrupting a call after any of its reads and
  calling it again with the same accumulator gives exactly what the uninterrupted call
  gives, the same response, the same accumulator and the same unread events.
\<close>

theorem recv_csafe_cancellation:
  "recv_udpgw_packet_csafe C mtu (before @ after) acc =
     (case recv_udpgw_packet_csafe C mtu before acc of
        (Pending, acc', _) \<Rightarrow> recv_udpgw_packet_csafe C mtu after acc'
      | (Ready r, acc', unread) \<Rightarrow> (Ready r, acc', unread @ after))"
  by (rule recv_csafe_resume)

text \<open>
  C28. No frame is lost or split wrongly: however the octets of a sequence of packets and the
  beginning of a further one are cut into reads, successive calls of the
  cancellation-safe reader return the responses of exactly these packets, in order, and keep
  exactly the octets of the incomplete packet.
\<close>

theorem recv_csafe_frames:
  assumes "list_all (\<lambda>(p, r). packet_ok C p \<and> parse_udp_response mtu p = Inr r) prs"
    and "packet_ok C q" "n < length (packet_write_to_buf C q)"
    and "acc @ concat reads
         = concat (map (packet_write_to_buf C \<circ> fst) prs) @ take n (packet_write_to_buf C q)"
    and "list_all (\<lambda>c. c \<noteq> []) reads"
  shows "recv_calls C mtu (Suc (length prs)) (map ReadChunk reads) acc
    = (map (\<lambda>(p, r). (packet_len C p, r)) prs, take n (packet_write_to_buf C q))"
  by (rule recv_calls_frames [OF assms])

theorem recv_csafe_frames_witness:
  "recv_calls demo_addr 1500 2 (map ReadChunk [[0], [3, 1, 0], [7, 0, 3]]) []
     = ([(5, KeepAlive)], [0, 3])"
proof -
  let ?p = "build_keepalive_packet 7" and ?q = "build_close_packet 8"
  have ok: "packet_ok demo_addr ?p" "packet_ok demo_addr ?q"
    by (simp_all add: packet_ok_def build_keepalive_packet_def build_close_packet_def packet_new_def
        has_data_flag_def flag_and_def flag_KEEPALIVE_def flag_CLOSE_def flag_DATA_def packet_len_def
        UDPGW_LENGTH_FIELD_SIZE_def header_len_def header_static_len_def)
  have w: "packet_write_to_buf demo_addr ?p = [0, 3, 1, 0, 7]"
    "packet_write_to_buf demo_addr ?q = [0, 3, 4, 0, 8]"
    "parse_udp_response 1500 ?p = Inr KeepAlive" "packet_len demo_addr ?p = 5"
    by code_simp+
  from recv_csafe_frames [of demo_addr 1500 "[(?p, KeepAlive)]" ?q 2 "[]" "[[0], [3, 1, 0], [7, 0, 3]]"] ok w
  show ?thesis by (simp add: numeral_2_eq_2)
qed

lemma pool_grown_skip: "pool_grown ss c c' \<Longrightarrow> pool_grown (s # ss) c c'"
  by (auto simp: pool_grown_def intro: list_emb_Cons)

lemma pool_grown_store:
  assumes "pool_grown ss c1 c'" "gs_serial_number t = gs_serial_number s" "\<not> gs_closed t"
    and "c1 = c \<or> gc_connections c1 = gc_connections c @ [t] \<and> gc_max_connections c1 = gc_max_connections c"
  shows "pool_grown (s # ss) c c'"
  using assms(4)
proof
  assume "c1 = c"
  then show ?thesis using assms(1) by (simp add: pool_grown_skip)
next
  assume c1: "gc_connections c1 = gc_connections c @ [t] \<and> gc_max_connections c1 = gc_max_connections c"
  obtain xs where "gc_connections c' = gc_connections c1 @ xs"
    "subseq (map gs_serial_number xs) (map gs_serial_number ss)" "list_all (\<lambda>s. \<not> gs_closed s) xs"
    "length (gc_connections c') \<le> gc_max_connections c'" "gc_max_connections c' = gc_max_connections c1"
    using assms(1) by (auto simp: pool_grown_def)
  then show ?thesis
    using c1 assms(2,3) unfolding pool_grown_def by (intro exI [of _ "t # xs"]) simp
qed

lemma store_pool_grown:
  assumes "pool_grown ss (store_server_connection t c) c'" "gs_serial_number t = gs_serial_number s"
    "\<not> gs_closed t"
  shows "pool_grown (s # ss) c c'"
  using assms by (elim pool_grown_store) (auto simp: store_server_connection_def)

lemma store_full_pool_grown:
  assumes "pool_grown ss (store_server_connection_full (t\<lparr>gs_last_activity := now\<rparr>) r w c) c'"
    "gs_serial_number t = gs_serial_number s" "\<not> gs_closed t"
  shows "pool_grown (s # ss) c c'"
  using assms(1)
  by (rule pool_grown_store [where t = "t\<lparr>gs_last_activity := now, gs_reader := Some r, gs_writer := Some w\<rparr>"])
     (use assms(2,3) in \<open>auto simp: store_server_connection_full_def\<close>)

lemma store_bounded:
  "length (gc_connections c) \<le> gc_max_connections c \<Longrightarrow>
     length (gc_connections (store_server_connection t c)) \<le> gc_max_connections (store_server_connection t c)"
  "length (gc_connections c) \<le> gc_max_connections c \<Longrightarrow>
     length (gc_connections (store_server_connection_full t r w c))
       \<le> gc_max_connections (store_server_connection_full t r w c)"
  by (simp_all add: store_server_connection_def store_server_connection_full_def)

lemma heartbeat_streams_pool:
  assumes "heartbeat_streams C now probe ss tx rx c = Some (res, c')"
    and "length (gc_connections c) \<le> gc_max_connections c" and "list_all (\<lambda>s. \<not> gs_closed s) ss"
  shows "pool_grown ss c c'"
  using assms
proof (induction ss arbitrary: tx rx c)
  case Nil
  then show ?case by (simp add: pool_grown_def)
next
  case (Cons s ss)
  have s: "\<not> gs_closed s" and ss: "list_all (\<lambda>s. \<not> gs_closed s) ss" using Cons.prems(3) by simp_all
  note IH = Cons.IH [OF _ _ ss]
  note run = Cons.prems(1)
  show ?case
  proof (cases "now - gs_last_activity s < gc_keepalive_time c")
    case True
    then have "heartbeat_streams C now probe ss tx rx (store_server_connection s c) = Some (res, c')"
      using run by simp
    from IH [OF this] store_bounded(1) [OF Cons.prems(2)] show ?thesis
      using s by (auto intro: store_pool_grown)
  next
    case idle: False
    show ?thesis
    proof (cases "gs_reader s = None \<or> gs_writer s = None")
      case True
      then have "heartbeat_streams C now probe ss tx rx c = Some (res, c')"
        using run idle by (auto split: option.splits)
      from IH [OF this Cons.prems(2)] show ?thesis by (rule pool_grown_skip)
    next
      case False
      then obtain r w where rw: "gs_reader s = Some r" "gs_writer s = Some w" by auto
      define tx' where "tx' = tx + length (packet_write_to_buf C (build_keepalive_packet (gs_serial_number s)))"
      show ?thesis
      proof (cases "probe s")
        case (LocalAddrError e)
        then have "c' = c" using run idle rw by simp
        then show ?thesis using Cons.prems(2) by (simp add: pool_grown_def)
      next
        case KeepaliveWriteError
        then have "heartbeat_streams C now probe ss tx' rx c = Some (res, c')"
          using run idle rw by (simp add: tx'_def)
        from IH [OF this Cons.prems(2)] show ?thesis by (rule pool_grown_skip)
      next
        case (Replies rs)
        then obtain alive rx' where kw: "keepalive_wait rs rx = Some (alive, rx')"
          using run idle rw by (auto simp: Let_def split: option.splits)
        let ?c = "if alive then store_server_connection_full (s\<lparr>gs_last_activity := now\<rparr>) r w c else c"
        have "heartbeat_streams C now probe ss tx' rx' ?c = Some (res, c')"
          using run idle rw Replies kw by (cases alive) (simp_all add: tx'_def)
        from IH [OF this] store_bounded(2) [OF Cons.prems(2)] Cons.prems(2)
        have "pool_grown ss ?c c'" by (cases alive) auto
        then show ?thesis using s by (cases alive) (auto intro: store_full_pool_grown pool_grown_skip)
      qed
    qed
  qed
qed

text \<open>
  A heartbeat round never overfills or corrupts the connection pool: at most
  \<^verbatim>\<open>max_connections\<close> connections are kept, they are connections of the pool before the round in
  the same order, and none of them is closed, whatever the peers answer.
\<close>

theorem heartbeat_round_pool:
  assumes "heartbeat_round C now probe c = Some (res, c')"
  shows "length (gc_connections c') \<le> gc_max_connections c'
     \<and> gc_max_connections c' = gc_max_connections c
     \<and> list_all (\<lambda>s. \<not> gs_closed s) (gc_connections c')
     \<and> subseq (map gs_serial_number (gc_connections c')) (map gs_serial_number (gc_connections c))"
proof -
  let ?ss = "filter (\<lambda>s. \<not> gs_closed s) (gc_connections c)"
  have "pool_grown ?ss (c\<lparr>gc_connections := []\<rparr>) c'"
    using assms unfolding heartbeat_round_def
    by (rule heartbeat_streams_pool) (simp_all add: list_all_iff)
  moreover have "subseq (map gs_serial_number ?ss) (map gs_serial_number (gc_connections c))"
    by (intro subseq_map subseq_filter_left)
  ultimately show ?thesis
    by (auto simp: pool_grown_def intro: subseq_order.trans)
qed

theorem heartbeat_round_pool_witness:
  "\<exists>res c'. heartbeat_round demo_addr 40000 (\<lambda>_. Replies [Inr (5, KeepAlive)])
      ((gc_new 1500 5 30000 10 (SocketAddr (V4 1) 7300))\<lparr>gc_connections :=
         [fst (gs_new 1 0 (SocketAddr (V4 2) 1) 3 4), gs_close (fst (gs_new 2 0 (SocketAddr (V4 2) 1) 5 6))]\<rparr>)
      = Some (res, c') \<and> length (gc_connections c') \<le> 5"
proof -
  let ?c = "(gc_new 1500 5 30000 10 (SocketAddr (V4 1) 7300))\<lparr>gc_connections :=
         [fst (gs_new 1 0 (SocketAddr (V4 2) 1) 3 4), gs_close (fst (gs_new 2 0 (SocketAddr (V4 2) 1) 5 6))]\<rparr>"
  have "\<exists>res c'. heartbeat_round demo_addr 40000 (\<lambda>_. Replies [Inr (5, KeepAlive)]) ?c = Some (res, c')"
    by (simp add: heartbeat_round_def gs_new_def gs_close_def gc_new_def)
  then obtain res c' where run: "heartbeat_round demo_addr 40000 (\<lambda>_. Replies [Inr (5, KeepAlive)]) ?c
      = Some (res, c')" by blast
  from heartbeat_round_pool [OF run] run show ?thesis by (auto simp: gc_new_def)
qed

end
