(* ===== verification/UdpgwServer.thy ===== *)
theory UdpgwServer
  imports Udpgw
begin

text \<open>
  The UDP gateway server, \<^verbatim>\<open>src/bin/udpgw_server.rs\<close>: what one client connection does.  Its tasks are
  the reader of requests, the writer of replies and one relay per UDP session; they share the maps
  of sessions and generations and the queue of outgoing packets.  Each critical section of the
  source is one function on the shared state, and \<^verbatim>\<open>server_step\<close> is their interleaving.  Sockets are
  handles, times are milliseconds, and the outcomes of system calls are arguments.  The stop token
  of a session is identified by the generation the session was created for.
\<close>

section \<open>Shared state\<close>

type_synonym u64 = "64 word"

record gw_session =
  se_sock :: nat
  se_dst :: socket_addr
  se_req_addr :: address
  se_generation :: u64
  se_sent :: u64
  se_last_act :: nat

record outbound_item =
  oi_packet :: packet
  oi_generation :: "u64 option"

record relay =
  re_conn_id :: u16
  re_generation :: u64
  re_dst :: socket_addr
  re_sock :: nat
  re_idle_ms :: nat
  re_mtu :: nat

text \<open>
  The reader is idle, inside the name resolution of \<^verbatim>\<open>process_udp\<close> for a connection id, its
  generation, the requested address and the datagram, or gone with the client.
\<close>

datatype reader_state = ReaderIdle | ReaderResolving u16 u64 address bytes | ReaderStopped

record server =
  sv_sessions :: "u16 \<Rightarrow> gw_session option"
  sv_generations :: "u16 \<Rightarrow> u64 option"
  sv_next_generation :: u64
  sv_cancelled :: "u64 set"
  sv_queue :: "outbound_item list"
  sv_relays :: "relay list"
  sv_reader :: reader_state
  sv_activity :: nat

record gw_params =
  gp_codec :: addr_codec
  gp_mtu :: u16
  gp_timeout :: nat

definition server_new :: "u64 \<Rightarrow> nat \<Rightarrow> server" where
  "server_new counter now =
     \<lparr>sv_sessions = (\<lambda>_. None), sv_generations = (\<lambda>_. None), sv_next_generation = counter,
      sv_cancelled = {}, sv_queue = [], sv_relays = [], sv_reader = ReaderIdle, sv_activity = now\<rparr>"

definition replace_generation :: "u16 \<Rightarrow> server \<Rightarrow> u64 \<times> server" where
  "replace_generation i s =
     (let g = sv_next_generation s;
          s1 = s\<lparr>sv_next_generation := g + 1, sv_generations := (sv_generations s)(i \<mapsto> g)\<rparr> in
      case sv_sessions s i of
        Some old \<Rightarrow> (g, s1\<lparr>sv_sessions := (sv_sessions s)(i := None),
                           sv_cancelled := insert (se_generation old) (sv_cancelled s)\<rparr>)
      | None \<Rightarrow> (g, s1))"

definition close_session :: "u16 \<Rightarrow> server \<Rightarrow> bool \<times> server" where
  "close_session i s =
     (let s1 = s\<lparr>sv_generations := (sv_generations s)(i := None)\<rparr> in
      case sv_sessions s i of
        Some old \<Rightarrow> (True, s1\<lparr>sv_sessions := (sv_sessions s)(i := None),
                              sv_cancelled := insert (se_generation old) (sv_cancelled s)\<rparr>)
      | None \<Rightarrow> (False, s1))"

definition send_error_response :: "u16 \<Rightarrow> u64 \<Rightarrow> server \<Rightarrow> server" where
  "send_error_response i g s = s\<lparr>sv_queue := sv_queue s
     @ [\<lparr>oi_packet = build_error_packet i, oi_generation = Some g\<rparr>]\<rparr>"

definition send_keepalive_response :: "u16 \<Rightarrow> server \<Rightarrow> server" where
  "send_keepalive_response i s = s\<lparr>sv_queue := sv_queue s
     @ [\<lparr>oi_packet = build_keepalive_packet i, oi_generation = None\<rparr>]\<rparr>"

section \<open>Requests\<close>

text \<open>
  \<^verbatim>\<open>process_udp\<close> up to the name resolution, and from its result on.  \<^verbatim>\<open>resend\<close> is the outcome of
  the datagram on a reused session; the record gives the outcomes of the resolver, of creating the
  socket for an address and of sending the first datagram.
\<close>

datatype udp_progress = UdpDone "(u64 \<times> error) + unit" | UdpResolve u64 address

record udp_env =
  ue_resolved :: "socket_addr list io_result"
  ue_socket :: "socket_addr \<Rightarrow> nat io_result"
  ue_sent :: "unit io_result"

definition process_udp_begin ::
  "u16 \<Rightarrow> nat \<Rightarrow> unit io_result \<Rightarrow> packet \<Rightarrow> server \<Rightarrow> udp_progress \<times> server" where
  "process_udp_begin udp_mtu now resend p s =
     (let i = conn_id (pkt_header p) in
      case pkt_address p of
        None \<Rightarrow> (case replace_generation i s of (g, s1) \<Rightarrow>
          (UdpDone (Inl (g, Io (IoError AddrNotAvailable ''udp request address is None''))), s1))
      | Some req_addr \<Rightarrow>
          if length (pkt_data p) > unat udp_mtu then
            (case replace_generation i s of (g, s1) \<Rightarrow>
              (UdpDone (Inl (g, Io (IoError InvalidInput ''udp request exceeds configured MTU''))), s1))
          else
            let fresh = (case replace_generation i s of (g, s1) \<Rightarrow> (UdpResolve g req_addr, s1)) in
            case sv_sessions s i of
              None \<Rightarrow> fresh
            | Some se \<Rightarrow>
                if se_req_addr se = req_addr then
                  (UdpDone (case resend of Inl e \<Rightarrow> Inl (se_generation se, Io e) | Inr _ \<Rightarrow> Inr ()),
                   s\<lparr>sv_sessions := (sv_sessions s)(i \<mapsto> se\<lparr>se_sent := se_sent se + 1, se_last_act := now\<rparr>)\<rparr>)
                else fresh)"

definition effective_mtu :: "gw_params \<Rightarrow> socket_addr \<Rightarrow> nat" where
  "effective_mtu P d =
     min (unat (gp_mtu P)) (65535 - (header_static_len + a_len (gp_codec P) (SocketAddress d)))"

definition idle_ms :: "gw_params \<Rightarrow> nat" where
  "idle_ms P = saturating_mul (max (gp_timeout P) 1) 1000"

definition process_udp_finish ::
  "gw_params \<Rightarrow> nat \<Rightarrow> udp_env \<Rightarrow> u16 \<Rightarrow> u64 \<Rightarrow> address \<Rightarrow> server \<Rightarrow> ((u64 \<times> error) + unit) \<times> server" where
  "process_udp_finish P now env i g req_addr s = (case ue_resolved env of
     Inl e \<Rightarrow> (Inl (g, Io e), s)
   | Inr [] \<Rightarrow> (Inl (g, Io (IoError AddrNotAvailable ''resolve_using_tokio'')), s)
   | Inr (d # _) \<Rightarrow> (case ue_socket env d of
       Inl e \<Rightarrow> (Inl (g, Io e), s)
     | Inr sock \<Rightarrow>
         (let s1 = s\<lparr>sv_sessions := (sv_sessions s)(i \<mapsto>
                \<lparr>se_sock = sock, se_dst = d, se_req_addr = req_addr, se_generation = g,
                 se_sent = 1, se_last_act = now\<rparr>)\<rparr> in
          case ue_sent env of
            Inl e \<Rightarrow> (Inl (g, Io e), s1\<lparr>sv_sessions := (sv_sessions s1)(i := None)\<rparr>)
          | Inr _ \<Rightarrow> (Inr (), s1\<lparr>sv_relays := sv_relays s1 @
              [\<lparr>re_conn_id = i, re_generation = g, re_dst = d, re_sock = sock,
                re_idle_ms = idle_ms P, re_mtu = effective_mtu P d\<rparr>]\<rparr>))))"

text \<open>One packet in the loop of \<^verbatim>\<open>process_client_udp_req\<close>, and its end after a name resolution.\<close>

definition handle_packet ::
  "gw_params \<Rightarrow> nat \<Rightarrow> unit io_result \<Rightarrow> packet \<Rightarrow> server \<Rightarrow> server" where
  "handle_packet P now resend p s0 =
     (let s = s0\<lparr>sv_activity := now\<rparr>; f = flags (pkt_header p); i = conn_id (pkt_header p) in
      if f = flag_KEEPALIVE then send_keepalive_response i s
      else if f = flag_CLOSE then snd (close_session i s)
      else if f \<noteq> flag_DATA then (case replace_generation i s of (g, s1) \<Rightarrow> send_error_response i g s1)
      else case process_udp_begin (gp_mtu P) now resend p s of
          (UdpDone (Inl (g, e)), s1) \<Rightarrow> send_error_response i g s1
        | (UdpDone (Inr _), s1) \<Rightarrow> s1
        | (UdpResolve g a, s1) \<Rightarrow> s1\<lparr>sv_reader := ReaderResolving i g a (pkt_data p)\<rparr>)"

definition handle_resolved ::
  "gw_params \<Rightarrow> nat \<Rightarrow> udp_env \<Rightarrow> u16 \<Rightarrow> u64 \<Rightarrow> address \<Rightarrow> server \<Rightarrow> server" where
  "handle_resolved P now env i g a s = (case process_udp_finish P now env i g a s of
     (Inl (g', e), s1) \<Rightarrow> (send_error_response i g' s1)\<lparr>sv_reader := ReaderIdle\<rparr>
   | (Inr _, s1) \<Rightarrow> s1\<lparr>sv_reader := ReaderIdle\<rparr>)"

section \<open>The relay of a session\<close>

text \<open>
  What the relay's wait yields.  \<^verbatim>\<open>gone\<close> tells that the writer's end of the queue is closed.
\<close>

datatype gw_relay_event = RelayReceived socket_addr bytes | RelayRecvError io_error | RelayTimeout

definition relay_session :: "relay \<Rightarrow> server \<Rightarrow> gw_session option" where
  "relay_session r s = (case sv_sessions s (re_conn_id r) of
     Some se \<Rightarrow> if se_generation se = re_generation r then Some se else None
   | None \<Rightarrow> None)"

definition drop_session :: "relay \<Rightarrow> server \<Rightarrow> server" where
  "drop_session r s = s\<lparr>sv_sessions := (sv_sessions s)(re_conn_id r := None)\<rparr>"

definition stop_session :: "relay \<Rightarrow> server \<Rightarrow> server" where
  "stop_session r s = s\<lparr>sv_cancelled := insert (re_generation r) (sv_cancelled s)\<rparr>"

definition relay_cleanup :: "relay \<Rightarrow> server \<Rightarrow> server" where
  "relay_cleanup r s = (if relay_session r s \<noteq> None then drop_session r (stop_session r s) else s)"

definition relay_activity :: "relay \<Rightarrow> nat \<Rightarrow> server \<Rightarrow> server" where
  "relay_activity r now s = (case relay_session r s of
     Some se \<Rightarrow> s\<lparr>sv_sessions := (sv_sessions s)(re_conn_id r \<mapsto> se\<lparr>se_last_act := now\<rparr>), sv_activity := now\<rparr>
   | None \<Rightarrow> s\<lparr>sv_activity := now\<rparr>)"

definition relay_reply :: "gw_params \<Rightarrow> relay \<Rightarrow> bytes \<Rightarrow> packet io_result" where
  "relay_reply P r data =
     (if length data > re_mtu r then Inr (build_error_packet (re_conn_id r))
      else build_packet_from_address (gp_codec P) (re_conn_id r) (SocketAddress (re_dst r)) data)"

definition relay_iteration ::
  "gw_params \<Rightarrow> relay \<Rightarrow> gw_relay_event \<Rightarrow> nat \<Rightarrow> bool \<Rightarrow> server \<Rightarrow> bool \<times> server" where
  "relay_iteration P r ev now gone s =
     (if re_generation r \<in> sv_cancelled s then (False, s)
      else case ev of
        RelayReceived source data \<Rightarrow>
          if source \<noteq> re_dst r then
            (case relay_session r s of
               Some se \<Rightarrow> if now - se_last_act se \<ge> re_idle_ms r then (False, drop_session r s) else (True, s)
             | None \<Rightarrow> (True, s))
          else
            (let s1 = relay_activity r now s in
             case relay_reply P r data of
               Inl e \<Rightarrow> (True, s1)
             | Inr p \<Rightarrow>
                 if gone then (False, s1)
                 else (True, s1\<lparr>sv_queue := sv_queue s1
                         @ [\<lparr>oi_packet = p, oi_generation = Some (re_generation r)\<rparr>]\<rparr>))
      | RelayRecvError e \<Rightarrow> (False, s)
      | RelayTimeout \<Rightarrow>
          (case relay_session r s of
             Some se \<Rightarrow> if now - se_last_act se \<ge> re_idle_ms r
                        then (False, drop_session r (stop_session r s)) else (True, s)
           | None \<Rightarrow> (False, s)))"

definition relay_step ::
  "gw_params \<Rightarrow> relay \<Rightarrow> gw_relay_event \<Rightarrow> nat \<Rightarrow> bool \<Rightarrow> server \<Rightarrow> server" where
  "relay_step P r ev now gone s = (case relay_iteration P r ev now gone s of
     (True, s1) \<Rightarrow> s1
   | (False, s1) \<Rightarrow> (relay_cleanup r s1)\<lparr>sv_relays := remove1 r (sv_relays s1)\<rparr>)"

section \<open>Replies to the client\<close>

datatype write_result = WriterWaits | DroppedStale | Wrote bytes | WriteFailed io_error

definition item_current :: "outbound_item \<Rightarrow> server \<Rightarrow> bool" where
  "item_current it s = (case oi_generation it of
     None \<Rightarrow> True
   | Some g \<Rightarrow> sv_generations s (conn_id (pkt_header (oi_packet it))) = Some g)"

definition write_item ::
  "gw_params \<Rightarrow> nat \<Rightarrow> unit io_result \<Rightarrow> server \<Rightarrow> write_result \<times> server" where
  "write_item P now outcome s = (case sv_queue s of
     [] \<Rightarrow> (WriterWaits, s)
   | it # rest \<Rightarrow>
       (let s1 = s\<lparr>sv_queue := rest\<rparr> in
        if \<not> item_current it s then (DroppedStale, s1)
        else case outcome of
            Inl e \<Rightarrow> (WriteFailed e, s1)
          | Inr _ \<Rightarrow> (Wrote (packet_write_to_buf (gp_codec P) (oi_packet it)), s1\<lparr>sv_activity := now\<rparr>)))"

text \<open>The end of the client's task in \<^verbatim>\<open>run\<close>: every session left is stopped and removed.\<close>

definition disconnect :: "server \<Rightarrow> server" where
  "disconnect s = s\<lparr>sv_cancelled := sv_cancelled s \<union> se_generation ` ran (sv_sessions s),
     sv_sessions := (\<lambda>_. None), sv_queue := [], sv_reader := ReaderStopped\<rparr>"

text \<open>
  \<^verbatim>\<open>retrieve_packet_or_disconnect\<close>: while the read of a packet is pending, the client's inactivity
  is looked at every two seconds.
\<close>

definition CLIENT_DISCONNECT_TIMEOUT :: nat where
  "CLIENT_DISCONNECT_TIMEOUT = 60000"

datatype read_wait = PacketRead "packet io_result" | ReadTick nat nat

fun retrieve_packet_or_disconnect :: "read_wait list \<Rightarrow> packet io_result poll" where
  "retrieve_packet_or_disconnect [] = Pending"
| "retrieve_packet_or_disconnect (PacketRead r # _) = Ready r"
| "retrieve_packet_or_disconnect (ReadTick now last_activity # ws) =
     (if now - last_activity \<ge> CLIENT_DISCONNECT_TIMEOUT
      then Ready (Inl (IoError TimedOut ''client inactivity timeout''))
      else retrieve_packet_or_disconnect ws)"

section \<open>Interleaving\<close>

text \<open>
  The generation counter is shared by all clients, so other clients may advance it at any time.
  The queue is bounded in the source, where a sender waits for room; here it always has room.
\<close>

inductive server_step :: "gw_params \<Rightarrow> server \<Rightarrow> server \<Rightarrow> bool" for P where
  request: "sv_reader s = ReaderIdle \<Longrightarrow> server_step P s (handle_packet P now resend p s)"
| resolved: "sv_reader s = ReaderResolving i g a d \<Longrightarrow> server_step P s (handle_resolved P now env i g a s)"
| relayed: "r \<in> set (sv_relays s) \<Longrightarrow> server_step P s (relay_step P r ev now gone s)"
| written: "sv_reader s \<noteq> ReaderStopped \<Longrightarrow> server_step P s (snd (write_item P now outcome s))"
| disconnected: "server_step P s (disconnect s)"
| other_client: "server_step P s (s\<lparr>sv_next_generation := sv_next_generation s + 1\<rparr>)"

inductive server_reach :: "gw_params \<Rightarrow> u64 \<Rightarrow> nat \<Rightarrow> server \<Rightarrow> bool" for P start where
  initial: "server_reach P start 0 (server_new start now)"
| further: "server_reach P start n s \<Longrightarrow> server_step P s s' \<Longrightarrow> server_reach P start (Suc n) s'"

inductive_cases server_stepE: "server_step P s s'"

section \<open>The invariant\<close>

text \<open>
  A generation belongs to one session at most: everything that carries the generation of a
  registered session, relay or queued reply, belongs to that session's connection and destination.
\<close>

definition gen_old :: "server \<Rightarrow> u64 \<Rightarrow> bool" where
  "gen_old s g = (unat g < unat (sv_next_generation s))"

definition sessions_ok :: "server \<Rightarrow> bool" where
  "sessions_ok s = ((\<forall>i se. sv_sessions s i = Some se \<longrightarrow> sv_generations s i = Some (se_generation se))
     \<and> (\<forall>i g. sv_generations s i = Some g \<longrightarrow> gen_old s g)
     \<and> (\<forall>i j g. sv_generations s i = Some g \<longrightarrow> sv_generations s j = Some g \<longrightarrow> i = j)
     \<and> (\<forall>g \<in> sv_cancelled s. gen_old s g))"

definition relays_ok :: "server \<Rightarrow> bool" where
  "relays_ok s = (distinct (map re_generation (sv_relays s))
     \<and> (\<forall>r \<in> set (sv_relays s). gen_old s (re_generation r)
          \<and> (\<forall>i se. sv_sessions s i = Some se \<longrightarrow> se_generation se = re_generation r
               \<longrightarrow> i = re_conn_id r \<and> se_dst se = re_dst r)
          \<and> (re_generation r \<notin> sv_cancelled s \<longrightarrow> relay_session r s \<noteq> None)))"

definition item_ok :: "server \<Rightarrow> outbound_item \<Rightarrow> bool" where
  "item_ok s it = (\<forall>g. oi_generation it = Some g \<longrightarrow> gen_old s g
     \<and> (\<forall>a i se. pkt_address (oi_packet it) = Some a \<longrightarrow> sv_sessions s i = Some se \<longrightarrow> se_generation se = g
          \<longrightarrow> i = conn_id (pkt_header (oi_packet it)) \<and> a = SocketAddress (se_dst se)))"

definition reader_ok :: "server \<Rightarrow> bool" where
  "reader_ok s = (case sv_reader s of
     ReaderResolving i g a d \<Rightarrow> sv_generations s i = Some g \<and> sv_sessions s i = None
       \<and> (\<forall>r \<in> set (sv_relays s). re_generation r \<noteq> g) \<and> g \<notin> sv_cancelled s
       \<and> (\<forall>it \<in> set (sv_queue s). oi_generation it = Some g \<longrightarrow> pkt_address (oi_packet it) = None)
   | ReaderIdle \<Rightarrow> True
   | ReaderStopped \<Rightarrow> sv_sessions s = (\<lambda>_. None))"

definition server_inv :: "server \<Rightarrow> bool" where
  "server_inv s = (sessions_ok s \<and> relays_ok s \<and> (\<forall>it \<in> set (sv_queue s). item_ok s it) \<and> reader_ok s)"

lemmas server_inv_defs = server_inv_def sessions_ok_def relays_ok_def item_ok_def reader_ok_def

lemma unat_next: "unat (g :: u64) < 2 ^ 64 - 1 \<Longrightarrow> unat (g + 1) = unat g + 1"
  by (subst unat_plus_simple [THEN iffD1]) (auto simp: no_olen_add_nat)

lemma build_packet_conn:
  "build_packet_from_address C i a d = Inr p \<Longrightarrow> pkt_address p = Some a \<and> conn_id (pkt_header p) = i"
  by (auto simp: build_packet_from_address_def build_ip_packet_def build_domain_packet_def packet_new_def
      rbind_def Let_def split: address.splits if_splits sum.splits)

lemma relay_reply_packet:
  assumes "relay_reply P r data = Inr p"
  shows "conn_id (pkt_header p) = re_conn_id r" "pkt_address p = Some a \<Longrightarrow> a = SocketAddress (re_dst r)"
  using assms by (auto simp: relay_reply_def build_error_packet_def packet_new_def split: if_splits
      dest: build_packet_conn)

lemma relay_session_Some:
  "relay_session r s = Some se \<longleftrightarrow> sv_sessions s (re_conn_id r) = Some se \<and> se_generation se = re_generation r"
  by (auto simp: relay_session_def split: option.splits)

text \<open>Sessions may be removed as long as their tokens are cancelled.\<close>

lemma relays_ok_less:
  assumes "relays_ok s" "sv_relays s' = sv_relays s"
    and "\<And>j se. sv_sessions s' j = Some se \<Longrightarrow> sv_sessions s j = Some se"
    and "sv_cancelled s \<subseteq> sv_cancelled s'"
    and "\<And>j se. sv_sessions s j = Some se \<Longrightarrow> sv_sessions s' j \<noteq> Some se \<Longrightarrow> se_generation se \<in> sv_cancelled s'"
    and "\<And>g. gen_old s g \<Longrightarrow> gen_old s' g"
  shows "relays_ok s'"
  unfolding relays_ok_def assms(2)
proof (intro conjI ballI allI impI)
  show "distinct (map re_generation (sv_relays s))" using assms(1) by (simp add: relays_ok_def)
next
  fix r assume r: "r \<in> set (sv_relays s)"
  then show "gen_old s' (re_generation r)" using assms(1,6) by (simp add: relays_ok_def)
  show "relay_session r s' \<noteq> None" if "re_generation r \<notin> sv_cancelled s'"
  proof -
    have "re_generation r \<notin> sv_cancelled s" using that assms(4) by blast
    then obtain se where se: "relay_session r s = Some se" using assms(1) r unfolding relays_ok_def by blast
    have "sv_sessions s' (re_conn_id r) = Some se"
      using se assms(5) [of "re_conn_id r" se] that by (auto simp: relay_session_Some)
    then show ?thesis using se unfolding relay_session_Some by (simp add: relay_session_def)
  qed
  fix i se assume "sv_sessions s' i = Some se" "se_generation se = re_generation r"
  then show "i = re_conn_id r" "se_dst se = re_dst r"
    using assms(1,3) r unfolding relays_ok_def by blast+
qed

text \<open>Drawing a generation.\<close>

lemma replace_generation_inv:
  assumes "server_inv s" "unat (sv_next_generation s) < 2 ^ 64 - 1" "replace_generation i s = (g, s')"
    and "sv_reader s = ReaderIdle"
  shows "server_inv s'" "sv_generations s' i = Some g" "sv_sessions s' i = None" "sv_reader s' = ReaderIdle"
    "\<forall>r \<in> set (sv_relays s'). re_generation r \<noteq> g" "g \<notin> sv_cancelled s'"
    "\<forall>it \<in> set (sv_queue s'). oi_generation it \<noteq> Some g" "gen_old s' g"
proof -
  note u = unat_next [OF assms(2)]
  have g: "g = sv_next_generation s" and nx: "sv_next_generation s' = g + 1"
    and q: "sv_queue s' = sv_queue s" "sv_relays s' = sv_relays s" "sv_reader s' = ReaderIdle"
    and gn: "sv_generations s' = (sv_generations s)(i \<mapsto> g)"
    and ss: "sv_sessions s' = (sv_sessions s)(i := None)"
    and cn: "sv_cancelled s' = sv_cancelled s
      \<union> (case sv_sessions s i of None \<Rightarrow> {} | Some se \<Rightarrow> {se_generation se})"
    using assms(3,4) by (auto simp: replace_generation_def Let_def fun_upd_idem split: option.splits)
  have new: "\<not> gen_old s g" by (simp add: gen_old_def g)
  have old: "gen_old s x \<Longrightarrow> gen_old s' x" for x by (simp add: gen_old_def nx g u)
  have gold: "gen_old s' g" by (simp add: gen_old_def nx g u)
  have so: "sessions_ok s" and ro: "relays_ok s" and io: "\<forall>it \<in> set (sv_queue s). item_ok s it"
    using assms(1) by (auto simp: server_inv_def)
  have sg: "sv_generations s i = Some (se_generation se)" if "sv_sessions s i = Some se" for i se
    using so that by (auto simp: sessions_ok_def)
  have go: "gen_old s x" if "sv_generations s j = Some x" for j x
    using so that unfolding sessions_ok_def by blast
  have sgo: "gen_old s' (se_generation se)" if "sv_sessions s i = Some se" for i se
    using go [OF sg [OF that]] old by blast
  have c4: "\<forall>x \<in> sv_cancelled s'. gen_old s' x"
    using so old sgo unfolding sessions_ok_def cn by (auto split: option.splits)
  have c1: "\<forall>i se. sv_sessions s' i = Some se \<longrightarrow> sv_generations s' i = Some (se_generation se)"
    using sg unfolding ss gn by simp
  have c2: "\<forall>j x. sv_generations s' j = Some x \<longrightarrow> gen_old s' x"
    using go old gold unfolding gn by simp
  have c3: "\<forall>j k x. sv_generations s' j = Some x \<longrightarrow> sv_generations s' k = Some x \<longrightarrow> j = k"
    using so go new unfolding gn sessions_ok_def by (simp add: fun_upd_apply) metis
  have "sessions_ok s'" unfolding sessions_ok_def by (intro conjI c1 c2 c3 c4)
  moreover have "relays_ok s'"
  proof (rule relays_ok_less [OF ro q(2)])
    show "sv_sessions s' j = Some se \<Longrightarrow> sv_sessions s j = Some se" for j se
      unfolding ss by (simp split: if_splits)
    show "sv_cancelled s \<subseteq> sv_cancelled s'" unfolding cn by simp
    show "sv_sessions s j = Some se \<Longrightarrow> sv_sessions s' j \<noteq> Some se \<Longrightarrow> se_generation se \<in> sv_cancelled s'" for j se
      unfolding cn ss by (auto split: if_splits)
  qed (rule old)
  moreover have "\<forall>it \<in> set (sv_queue s'). item_ok s' it"
    using io old unfolding item_ok_def q ss by auto
  ultimately show "server_inv s'" by (simp add: server_inv_def reader_ok_def q)
  show "sv_generations s' i = Some g" "sv_sessions s' i = None" "sv_reader s' = ReaderIdle" "gen_old s' g"
    using gn ss q gold by auto
  show "\<forall>r \<in> set (sv_relays s'). re_generation r \<noteq> g"
    using ro new unfolding relays_ok_def q by auto
  show "g \<notin> sv_cancelled s'"
    using so new go sg unfolding cn sessions_ok_def by (auto split: option.splits)
  show "\<forall>it \<in> set (sv_queue s'). oi_generation it \<noteq> Some g"
    using io new unfolding item_ok_def q by auto
qed

text \<open>The other operations on the shared state.\<close>

lemma server_inv_gen_old:
  assumes "server_inv s"
  shows "sv_generations s i = Some g \<Longrightarrow> gen_old s g"
    and "sv_sessions s i = Some se \<Longrightarrow> gen_old s (se_generation se)"
    and "sv_sessions s i = Some se \<Longrightarrow> sv_generations s i = Some (se_generation se)"
    and "r \<in> set (sv_relays s) \<Longrightarrow> gen_old s (re_generation r)"
  using assms unfolding server_inv_def sessions_ok_def relays_ok_def by blast+

lemma close_session_inv:
  assumes "server_inv s" "sv_reader s = ReaderIdle"
  shows "server_inv (snd (close_session i s))"
proof -
  let ?s = "snd (close_session i s)"
  have q: "sv_queue ?s = sv_queue s" "sv_relays ?s = sv_relays s" "sv_reader ?s = ReaderIdle"
    and nx: "gen_old ?s = gen_old s"
    and gn: "sv_generations ?s = (sv_generations s)(i := None)"
    and ss: "sv_sessions ?s = (sv_sessions s)(i := None)"
    and cn: "sv_cancelled ?s = sv_cancelled s
      \<union> (case sv_sessions s i of None \<Rightarrow> {} | Some se \<Rightarrow> {se_generation se})"
    using assms(2) by (auto simp: close_session_def Let_def fun_upd_idem gen_old_def fun_eq_iff
        split: option.splits)
  note old = server_inv_gen_old [OF assms(1)]
  have "sessions_ok ?s"
    using assms(1) old unfolding server_inv_def sessions_ok_def gn ss cn nx
    by (auto split: option.splits if_splits)
  moreover have "relays_ok ?s"
  proof (rule relays_ok_less [OF _ q(2)])
    show "relays_ok s" using assms(1) by (simp add: server_inv_def)
    show "sv_sessions ?s j = Some se \<Longrightarrow> sv_sessions s j = Some se" for j se
      unfolding ss by (simp split: if_splits)
    show "sv_cancelled s \<subseteq> sv_cancelled ?s" unfolding cn by simp
    show "sv_sessions s j = Some se \<Longrightarrow> sv_sessions ?s j \<noteq> Some se \<Longrightarrow> se_generation se \<in> sv_cancelled ?s" for j se
      unfolding cn ss by (auto split: if_splits)
  qed (simp add: nx)
  moreover have "\<forall>it \<in> set (sv_queue ?s). item_ok ?s it"
    using assms(1) unfolding server_inv_def item_ok_def q ss nx by auto
  ultimately show ?thesis by (simp add: server_inv_def reader_ok_def q)
qed

lemma enqueue_inv:
  assumes "server_inv s" "item_ok s it"
    and "\<And>i g a d. sv_reader s = ReaderResolving i g a d \<Longrightarrow> oi_generation it \<noteq> Some g"
  shows "server_inv (s\<lparr>sv_queue := sv_queue s @ [it]\<rparr>)"
  using assms unfolding server_inv_def sessions_ok_def relays_ok_def item_ok_def reader_ok_def gen_old_def
  by (auto simp: relay_session_def split: reader_state.splits)

lemma set_session_inv:
  assumes "server_inv s" "sv_sessions s i = Some se"
    and "se_generation se' = se_generation se" "se_dst se' = se_dst se"
  shows "server_inv (s\<lparr>sv_sessions := (sv_sessions s)(i \<mapsto> se')\<rparr>)"
proof -
  let ?s = "s\<lparr>sv_sessions := (sv_sessions s)(i \<mapsto> se')\<rparr>"
  have old: "\<exists>x. sv_sessions s j = Some x \<and> se_generation x = se_generation y \<and> se_dst x = se_dst y"
    if "sv_sessions ?s j = Some y" for j y
    using that assms(2-4) by (auto split: if_splits)
  have nx: "gen_old ?s = gen_old s" by (simp add: gen_old_def fun_eq_iff)
  have rs: "relay_session r ?s \<noteq> None \<longleftrightarrow> relay_session r s \<noteq> None" for r
    using assms(2,3) by (auto simp: relay_session_def split: option.splits)
  have "sessions_ok ?s"
    using assms(1) unfolding server_inv_def sessions_ok_def nx by simp (metis assms(2,3) option.inject)
  moreover have "relays_ok ?s"
    using assms(1) old unfolding server_inv_def relays_ok_def nx rs by simp metis
  moreover have "\<forall>it \<in> set (sv_queue ?s). item_ok ?s it"
    using assms(1) old unfolding server_inv_def item_ok_def nx by simp metis
  moreover have "reader_ok ?s"
    using assms(1,2) unfolding server_inv_def reader_ok_def by (auto split: reader_state.splits)
  ultimately show ?thesis by (simp add: server_inv_def)
qed

lemma activity_inv [simp]: "server_inv (s\<lparr>sv_activity := now\<rparr>) = server_inv s"
  by (simp add: server_inv_defs gen_old_def relay_session_def cong: reader_state.case_cong)

lemma reader_idle_inv: "server_inv s \<Longrightarrow> server_inv (s\<lparr>sv_reader := ReaderIdle\<rparr>)"
  by (simp add: server_inv_defs gen_old_def relay_session_def)

lemma error_response_inv:
  assumes "server_inv s" "gen_old s g" "sv_reader s = ReaderIdle"
  shows "server_inv (send_error_response i g s)"
  using assms unfolding send_error_response_def
  by (intro enqueue_inv) (auto simp: item_ok_def build_error_packet_def packet_new_def)

lemma keepalive_response_inv:
  "server_inv s \<Longrightarrow> server_inv (send_keepalive_response i s)"
  unfolding send_keepalive_response_def by (intro enqueue_inv) (auto simp: item_ok_def)

text \<open>Requests.\<close>

lemma resolving_inv:
  assumes "server_inv s" "unat (sv_next_generation s) < 2 ^ 64 - 1" "sv_reader s = ReaderIdle"
    and "replace_generation i s = (g, s')"
  shows "server_inv (s'\<lparr>sv_reader := ReaderResolving i g a d\<rparr>)"
  using replace_generation_inv [OF assms(1,2,4,3)]
  unfolding server_inv_def sessions_ok_def relays_ok_def item_ok_def reader_ok_def gen_old_def
  by (simp add: relay_session_def)

lemma process_udp_begin_inv:
  assumes "server_inv s" "unat (sv_next_generation s) < 2 ^ 64 - 1" "sv_reader s = ReaderIdle"
    and "process_udp_begin mtu now resend p s = (res, s')"
  shows "case res of
      UdpDone (Inl (g, e)) \<Rightarrow> server_inv s' \<and> gen_old s' g \<and> sv_reader s' = ReaderIdle
    | UdpDone (Inr u) \<Rightarrow> server_inv s'
    | UdpResolve g a \<Rightarrow> server_inv (s'\<lparr>sv_reader := ReaderResolving (conn_id (pkt_header p)) g a d\<rparr>)"
proof -
  let ?i = "conn_id (pkt_header p)"
  obtain g1 s1 where rg: "replace_generation ?i s = (g1, s1)" by fastforce
  note new = replace_generation_inv [OF assms(1,2) rg assms(3)]
  note res = resolving_inv [OF assms(1-3) rg]
  show ?thesis
  proof (cases "\<exists>a se. pkt_address p = Some a \<and> length (pkt_data p) \<le> unat mtu
      \<and> sv_sessions s ?i = Some se \<and> se_req_addr se = a")
    case True
    then obtain a se where a: "pkt_address p = Some a" "length (pkt_data p) \<le> unat mtu"
      "sv_sessions s ?i = Some se" "se_req_addr se = a" by blast
    let ?s = "s\<lparr>sv_sessions := (sv_sessions s)(?i \<mapsto> se\<lparr>se_sent := se_sent se + 1, se_last_act := now\<rparr>)\<rparr>"
    have "server_inv ?s" using assms(1) a(3) by (rule set_session_inv) simp_all
    moreover have "gen_old ?s (se_generation se)"
      using server_inv_gen_old(2) [OF assms(1) a(3)] by (simp add: gen_old_def)
    moreover have "s' = ?s" "res = UdpDone (case resend of Inl e \<Rightarrow> Inl (se_generation se, Io e) | Inr _ \<Rightarrow> Inr ())"
      using assms(4) a by (auto simp: process_udp_begin_def Let_def rg)
    ultimately show ?thesis using assms(3) by (simp split: sum.splits)
  next
    case False
    then have "s' = s1 \<and> ((\<exists>e. res = UdpDone (Inl (g1, e))) \<or> (\<exists>a. res = UdpResolve g1 a))"
      using assms(4) by (auto simp: process_udp_begin_def Let_def rg split: option.splits if_splits)
    then show ?thesis using new res by auto
  qed
qed

lemma handle_packet_inv:
  assumes "server_inv s" "unat (sv_next_generation s) < 2 ^ 64 - 1" "sv_reader s = ReaderIdle"
  shows "server_inv (handle_packet P now resend p s)"
proof -
  let ?s = "s\<lparr>sv_activity := now\<rparr>" and ?i = "conn_id (pkt_header p)"
  have s: "server_inv ?s" "unat (sv_next_generation ?s) < 2 ^ 64 - 1" "sv_reader ?s = ReaderIdle"
    using assms by simp_all
  obtain g s1 where rg: "replace_generation ?i ?s = (g, s1)" by fastforce
  note new = replace_generation_inv [OF s(1,2) rg s(3)]
  obtain res s2 where pb: "process_udp_begin (gp_mtu P) now resend p ?s = (res, s2)" by fastforce
  have "server_inv (send_keepalive_response ?i ?s)" using s(1) by (rule keepalive_response_inv)
  moreover have "server_inv (snd (close_session ?i ?s))" using s(1,3) by (rule close_session_inv)
  moreover have "server_inv (send_error_response ?i g s1)" by (rule error_response_inv) (use new in auto)
  moreover have "server_inv (case (res, s2) of (UdpDone (Inl (g, e)), s1) \<Rightarrow> send_error_response ?i g s1
      | (UdpDone (Inr _), s1) \<Rightarrow> s1
      | (UdpResolve g a, s1) \<Rightarrow> s1\<lparr>sv_reader := ReaderResolving ?i g a (pkt_data p)\<rparr>)"
    using process_udp_begin_inv [OF s pb, of "pkt_data p"]
    by (auto split: udp_progress.splits sum.splits intro: error_response_inv)
  ultimately show ?thesis by (simp add: handle_packet_def Let_def rg pb)
qed

lemma add_session_inv:
  assumes "server_inv s" "sv_reader s = ReaderResolving i g a d"
    and "se_generation se = g" "se_dst se = re_dst r" "re_conn_id r = i" "re_generation r = g"
  shows "server_inv (s\<lparr>sv_sessions := (sv_sessions s)(i \<mapsto> se), sv_relays := sv_relays s @ [r],
    sv_reader := ReaderIdle\<rparr>)"
proof -
  let ?s = "s\<lparr>sv_sessions := (sv_sessions s)(i \<mapsto> se), sv_relays := sv_relays s @ [r], sv_reader := ReaderIdle\<rparr>"
  have nx: "gen_old ?s = gen_old s" by (simp add: gen_old_def fun_eq_iff)
  have gi: "sv_generations s i = Some g" and si: "sv_sessions s i = None"
    and rel: "\<forall>r \<in> set (sv_relays s). re_generation r \<noteq> g"
    and que: "\<forall>it \<in> set (sv_queue s). oi_generation it = Some g \<longrightarrow> pkt_address (oi_packet it) = None"
    using assms(1,2) by (simp_all add: server_inv_def reader_ok_def)
  have other: "j \<noteq> i" if "sv_sessions s j = Some x" for j x using that si by auto
  have gj: "se_generation x \<noteq> g" if "sv_sessions s j = Some x" for j x
    using server_inv_gen_old(3) [OF assms(1) that] other [OF that] gi assms(1)
    unfolding server_inv_def sessions_ok_def by metis
  have "sessions_ok ?s"
    using assms(1,3) gi unfolding server_inv_def sessions_ok_def nx by simp
  moreover have "relays_ok ?s"
    unfolding relays_ok_def nx
  proof (intro conjI ballI)
    show "distinct (map re_generation (sv_relays ?s))"
      using assms(1,6) rel by (auto simp: server_inv_def relays_ok_def)
  next
    fix x assume x: "x \<in> set (sv_relays ?s)"
    show "gen_old s (re_generation x)"
      using x assms(1,6) server_inv_gen_old(1) [OF assms(1) gi] by (auto simp: server_inv_def relays_ok_def)
    show "\<forall>j y. sv_sessions ?s j = Some y \<longrightarrow> se_generation y = re_generation x
        \<longrightarrow> j = re_conn_id x \<and> se_dst y = re_dst x"
      using x assms(1,3-6) rel gj by (auto simp: server_inv_def relays_ok_def)
    show "re_generation x \<notin> sv_cancelled ?s \<longrightarrow> relay_session x ?s \<noteq> None"
    proof (cases "x = r")
      case True
      then show ?thesis using assms(3,5,6) by (simp add: relay_session_def)
    next
      case False
      then have "re_generation x \<notin> sv_cancelled s \<longrightarrow> relay_session x s \<noteq> None"
        using x assms(1) by (auto simp: server_inv_def relays_ok_def)
      then show ?thesis using si by (auto simp: relay_session_def split: option.splits if_splits)
    qed
  qed
  moreover have "\<forall>it \<in> set (sv_queue ?s). item_ok ?s it"
    using assms(1,3) que unfolding server_inv_def item_ok_def nx by auto
  ultimately show ?thesis by (simp add: server_inv_def reader_ok_def)
qed

lemma error_response_reader:
  "(send_error_response i g s)\<lparr>sv_reader := x\<rparr> = send_error_response i g (s\<lparr>sv_reader := x\<rparr>)"
  by (cases s) (simp add: send_error_response_def)

lemma handle_resolved_inv:
  assumes "server_inv s" "sv_reader s = ReaderResolving i g a d"
  shows "server_inv (handle_resolved P now env i g a s)"
proof -
  have gi: "sv_generations s i = Some g" and si: "sv_sessions s i = None"
    using assms by (simp_all add: server_inv_def reader_ok_def)
  have "server_inv (send_error_response i g (s\<lparr>sv_reader := ReaderIdle\<rparr>))"
    using server_inv_gen_old(1) [OF assms(1) gi] reader_idle_inv [OF assms(1)]
    by (intro error_response_inv) (simp_all add: gen_old_def)
  then have err: "server_inv ((send_error_response i g s)\<lparr>sv_reader := ReaderIdle\<rparr>)"
    by (simp only: error_response_reader)
  have undo: "s\<lparr>sv_sessions := (sv_sessions s)(i := None)\<rparr> = s"
    using si by (simp add: fun_upd_idem)
  show ?thesis
    using err undo unfolding handle_resolved_def process_udp_finish_def
    by (auto simp: Let_def split: sum.splits list.splits intro!: add_session_inv [OF assms])
qed

text \<open>Relays.\<close>

lemma drop_relay_inv:
  assumes "server_inv s"
  shows "server_inv (s\<lparr>sv_relays := remove1 r (sv_relays s)\<rparr>)"
  using assms set_remove1_subset [of r "sv_relays s"]
  unfolding server_inv_def sessions_ok_def relays_ok_def item_ok_def reader_ok_def gen_old_def
  by (auto simp: relay_session_def distinct_map distinct_remove1 inj_on_subset split: reader_state.splits)

lemma stop_drop_inv:
  assumes "server_inv s" "relay_session r s = Some se"
  shows "server_inv (drop_session r (stop_session r s))"
proof -
  let ?s = "drop_session r (stop_session r s)"
  have se: "sv_sessions s (re_conn_id r) = Some se" "se_generation se = re_generation r"
    using assms(2) by (simp_all add: relay_session_Some)
  have nx: "gen_old ?s = gen_old s" by (simp add: gen_old_def fun_eq_iff drop_session_def stop_session_def)
  have "sessions_ok ?s"
    using assms(1) server_inv_gen_old(2) [OF assms(1) se(1)] se(2)
    unfolding server_inv_def sessions_ok_def nx by (simp add: drop_session_def stop_session_def)
  moreover have "relays_ok ?s"
  proof (rule relays_ok_less)
    show "relays_ok s" using assms(1) by (simp add: server_inv_def)
    show "sv_sessions s j = Some x \<Longrightarrow> sv_sessions ?s j \<noteq> Some x \<Longrightarrow> se_generation x \<in> sv_cancelled ?s" for j x
      using se by (auto simp: drop_session_def stop_session_def split: if_splits)
  qed (auto simp: drop_session_def stop_session_def nx gen_old_def split: if_splits)
  moreover have "\<forall>it \<in> set (sv_queue ?s). item_ok ?s it"
    using assms(1) unfolding server_inv_def item_ok_def nx by (auto simp: drop_session_def stop_session_def)
  moreover have "reader_ok ?s"
  proof (cases "sv_reader s")
    case (ReaderResolving i g a d)
    then have g: "sv_generations s i = Some g" "sv_sessions s i = None"
      using assms(1) by (simp_all add: server_inv_def reader_ok_def)
    have "re_generation r \<noteq> g"
      using server_inv_gen_old(3) [OF assms(1) se(1)] se g assms(1)
      unfolding server_inv_def sessions_ok_def by (metis option.distinct(1))
    then show ?thesis using assms(1) ReaderResolving
      by (simp add: server_inv_def reader_ok_def drop_session_def stop_session_def)
  qed (use assms(1) in \<open>auto simp: server_inv_def reader_ok_def drop_session_def stop_session_def\<close>)
  ultimately show ?thesis by (simp add: server_inv_def)
qed

lemma relay_cleanup_inv: "server_inv s \<Longrightarrow> server_inv (relay_cleanup r s)"
  by (auto simp: relay_cleanup_def intro: stop_drop_inv)

text \<open>
  The one path that removes a session without cancelling its token is followed by the end of the
  relay, which is the only relay of that generation.
\<close>

lemma drop_exit_inv:
  assumes "server_inv s" "r \<in> set (sv_relays s)" "relay_session r s = Some se"
  shows "server_inv ((drop_session r s)\<lparr>sv_relays := remove1 r (sv_relays s)\<rparr>)"
proof -
  let ?s = "(drop_session r s)\<lparr>sv_relays := remove1 r (sv_relays s)\<rparr>"
  have se: "sv_sessions s (re_conn_id r) = Some se" "se_generation se = re_generation r"
    using assms(3) by (simp_all add: relay_session_Some)
  have nx: "gen_old ?s = gen_old s" by (simp add: gen_old_def fun_eq_iff drop_session_def)
  have dist: "distinct (map re_generation (sv_relays s))"
    using assms(1) by (simp add: server_inv_def relays_ok_def)
  have uniq: "x \<in> set (sv_relays s)" "re_generation x \<noteq> re_generation r" if "x \<in> set (remove1 r (sv_relays s))" for x
  proof -
    show "x \<in> set (sv_relays s)" using that set_remove1_subset [of r "sv_relays s"] by blast
    moreover have "x \<noteq> r" using that dist by (auto simp: distinct_map)
    ultimately show "re_generation x \<noteq> re_generation r"
      using dist assms(2) by (auto simp: distinct_map inj_on_def)
  qed
  have "sessions_ok ?s"
    using assms(1) unfolding server_inv_def sessions_ok_def nx by (simp add: drop_session_def)
  moreover have "relays_ok ?s"
    unfolding relays_ok_def nx
  proof (intro conjI ballI)
    show "distinct (map re_generation (sv_relays ?s))"
      using dist by (auto simp: distinct_map distinct_remove1 intro: inj_on_diff)
  next
    fix x assume "x \<in> set (sv_relays ?s)"
    then have x: "x \<in> set (sv_relays s)" "re_generation x \<noteq> re_generation r" using uniq by simp_all
    show "gen_old s (re_generation x)" using server_inv_gen_old(4) [OF assms(1) x(1)] .
    show "\<forall>i y. sv_sessions ?s i = Some y \<longrightarrow> se_generation y = re_generation x
        \<longrightarrow> i = re_conn_id x \<and> se_dst y = re_dst x"
      using x assms(1) by (simp add: server_inv_def relays_ok_def drop_session_def)
    have "re_generation x \<notin> sv_cancelled s \<longrightarrow> relay_session x s \<noteq> None"
      using x assms(1) by (simp add: server_inv_def relays_ok_def)
    then show "re_generation x \<notin> sv_cancelled ?s \<longrightarrow> relay_session x ?s \<noteq> None"
      using x(2) se by (auto simp: relay_session_def drop_session_def split: option.splits if_splits)
  qed
  moreover have "\<forall>it \<in> set (sv_queue ?s). item_ok ?s it"
    using assms(1) unfolding server_inv_def item_ok_def nx by (auto simp: drop_session_def)
  moreover have "reader_ok ?s"
    using assms(1) uniq(1) unfolding server_inv_def reader_ok_def
    by (auto simp: drop_session_def split: reader_state.splits)
  ultimately show ?thesis by (simp add: server_inv_def)
qed

lemma relay_activity_inv:
  assumes "server_inv s"
  shows "server_inv (relay_activity r now s)"
proof (cases "relay_session r s")
  case None
  then show ?thesis using assms by (simp add: relay_activity_def)
next
  case (Some se)
  then have "server_inv (s\<lparr>sv_sessions := (sv_sessions s)(re_conn_id r \<mapsto> se\<lparr>se_last_act := now\<rparr>)\<rparr>)"
    using assms by (intro set_session_inv) (simp_all add: relay_session_Some)
  then show ?thesis using Some by (simp add: relay_activity_def)
qed

lemma relay_activity_simps [simp]:
  "sv_relays (relay_activity r now s) = sv_relays s" "sv_reader (relay_activity r now s) = sv_reader s"
  "sv_cancelled (relay_activity r now s) = sv_cancelled s"
  "sv_next_generation (relay_activity r now s) = sv_next_generation s"
  by (simp_all add: relay_activity_def split: option.splits)

lemma relay_enqueue_inv:
  assumes "server_inv s" "r \<in> set (sv_relays s)" "relay_reply P r data = Inr p"
  shows "server_inv (s\<lparr>sv_queue := sv_queue s @ [\<lparr>oi_packet = p, oi_generation = Some (re_generation r)\<rparr>]\<rparr>)"
proof (rule enqueue_inv [OF assms(1)])
  show "item_ok s \<lparr>oi_packet = p, oi_generation = Some (re_generation r)\<rparr>"
    using assms(1,2) relay_reply_packet [OF assms(3)] unfolding item_ok_def server_inv_def relays_ok_def
    by auto
  fix i g a d assume "sv_reader s = ReaderResolving i g a d"
  then show "oi_generation \<lparr>oi_packet = p, oi_generation = Some (re_generation r)\<rparr> \<noteq> Some g"
    using assms(1,2) by (auto simp: server_inv_def reader_ok_def)
qed

lemma cleanup_exit_inv:
  assumes "server_inv s"
  shows "server_inv ((relay_cleanup r s)\<lparr>sv_relays := remove1 r (sv_relays s)\<rparr>)"
proof -
  have "sv_relays (relay_cleanup r s) = sv_relays s"
    by (simp add: relay_cleanup_def drop_session_def stop_session_def)
  then show ?thesis using drop_relay_inv [OF relay_cleanup_inv [OF assms], of r r] by simp
qed

lemma relay_step_inv:
  assumes "server_inv s" "r \<in> set (sv_relays s)"
  shows "server_inv (relay_step P r ev now gone s)"
proof -
  have exit: "server_inv ((relay_cleanup r s')\<lparr>sv_relays := remove1 r (sv_relays s')\<rparr>)" if "server_inv s'" for s'
    using that by (rule cleanup_exit_inv)
  have act: "server_inv (relay_activity r now s)" using assms(1) by (rule relay_activity_inv)
  have drop: "server_inv ((relay_cleanup r (drop_session r s))\<lparr>sv_relays := remove1 r (sv_relays (drop_session r s))\<rparr>)"
    if "relay_session r s = Some se" for se
    using drop_exit_inv [OF assms that] by (simp add: relay_cleanup_def relay_session_def drop_session_def)
  have stop: "server_inv (drop_session r (stop_session r s))" if "relay_session r s = Some se" for se
    using stop_drop_inv [OF assms(1) that] .
  have "case relay_iteration P r ev now gone s of (b, s') \<Rightarrow> if b then server_inv s' else
      server_inv ((relay_cleanup r s')\<lparr>sv_relays := remove1 r (sv_relays s')\<rparr>)"
  proof (cases ev)
    case (RelayReceived source data)
    have "server_inv ((relay_activity r now s)\<lparr>sv_queue := sv_queue (relay_activity r now s)
        @ [\<lparr>oi_packet = p, oi_generation = Some (re_generation r)\<rparr>]\<rparr>)" if "relay_reply P r data = Inr p" for p
      using act assms(2) that by (intro relay_enqueue_inv) simp_all
    then show ?thesis using RelayReceived assms(1) exit [OF assms(1)] exit [OF act] act drop
      by (auto simp: relay_iteration_def Let_def split: option.splits sum.splits)
  next
    case (RelayRecvError e)
    then show ?thesis using exit [OF assms(1)] by (simp add: relay_iteration_def)
  next
    case RelayTimeout
    then show ?thesis using assms(1) exit [OF assms(1)] exit [OF stop]
      by (auto simp: relay_iteration_def split: option.splits)
  qed
  then show ?thesis by (auto simp: relay_step_def split: prod.splits bool.splits)
qed

text \<open>The remaining steps.\<close>

lemma write_item_inv: "server_inv s \<Longrightarrow> server_inv (snd (write_item P now outcome s))"
  unfolding write_item_def server_inv_defs gen_old_def
  by (auto simp: Let_def relay_session_def split: list.splits sum.splits reader_state.splits)

lemma disconnect_inv:
  assumes "server_inv s"
  shows "server_inv (disconnect s)"
proof -
  have nx: "gen_old (disconnect s) = gen_old s" by (simp add: gen_old_def fun_eq_iff disconnect_def)
  have "sessions_ok (disconnect s)"
    using assms server_inv_gen_old(2) [OF assms] unfolding server_inv_def sessions_ok_def nx
    by (auto simp: disconnect_def ran_def)
  moreover have "relays_ok (disconnect s)"
  proof (rule relays_ok_less)
    show "relays_ok s" using assms by (simp add: server_inv_def)
  qed (auto simp: disconnect_def nx ran_def gen_old_def)
  ultimately show ?thesis by (simp add: server_inv_def reader_ok_def disconnect_def)
qed

lemma other_client_inv:
  assumes "server_inv s" "unat (sv_next_generation s) < 2 ^ 64 - 1"
  shows "server_inv (s\<lparr>sv_next_generation := sv_next_generation s + 1\<rparr>)"
  using assms(1) unfolding server_inv_defs gen_old_def
  by (auto simp: relay_session_def unat_next [OF assms(2)] less_Suc_eq split: reader_state.splits)

section \<open>Reachable states\<close>

lemma replace_generation_next:
  "replace_generation i s = (g, s') \<Longrightarrow> sv_next_generation s' = sv_next_generation s + 1"
  by (auto simp: replace_generation_def Let_def split: option.splits)

lemma close_session_next: "sv_next_generation (snd (close_session i s)) = sv_next_generation s"
  by (simp add: close_session_def Let_def split: option.split)

lemma process_udp_begin_next:
  assumes "process_udp_begin mtu now resend p s = (res, s')"
  shows "sv_next_generation s' \<in> {sv_next_generation s, sv_next_generation s + 1}"
proof -
  obtain g s1 where rg: "replace_generation (conn_id (pkt_header p)) s = (g, s1)" by fastforce
  then show ?thesis using assms replace_generation_next [OF rg]
    by (auto simp: process_udp_begin_def Let_def split: option.splits if_splits)
qed

lemma relay_step_next: "sv_next_generation (relay_step P r ev now gone s) = sv_next_generation s"
  by (simp add: relay_step_def relay_iteration_def relay_cleanup_def drop_session_def stop_session_def Let_def
      split: gw_relay_event.split option.split sum.split)

lemma handle_packet_next:
  "sv_next_generation (handle_packet P now resend p s) \<in> {sv_next_generation s, sv_next_generation s + 1}"
proof -
  let ?i = "conn_id (pkt_header p)" and ?s = "s\<lparr>sv_activity := now\<rparr>"
  obtain g s1 where rg: "replace_generation ?i ?s = (g, s1)" by fastforce
  obtain res s2 where pb: "process_udp_begin (gp_mtu P) now resend p ?s = (res, s2)" by fastforce
  show ?thesis
    using replace_generation_next [OF rg] process_udp_begin_next [OF pb] close_session_next [of ?i ?s]
    by (auto simp: handle_packet_def Let_def rg pb send_error_response_def send_keepalive_response_def
        split: udp_progress.splits sum.splits)
qed

lemma server_step_next:
  assumes "server_step P s s'"
  shows "sv_next_generation s' \<in> {sv_next_generation s, sv_next_generation s + 1}"
  using assms handle_packet_next [of P _ _ _ s]
  by (elim server_stepE) (auto simp: handle_resolved_def process_udp_finish_def Let_def send_error_response_def
      relay_step_next write_item_def disconnect_def split: sum.splits list.splits)

lemma server_step_inv:
  assumes "server_step P s s'" "server_inv s" "unat (sv_next_generation s) < 2 ^ 64 - 1"
  shows "server_inv s'"
  using assms by (elim server_stepE)
    (auto intro: handle_packet_inv handle_resolved_inv relay_step_inv write_item_inv disconnect_inv other_client_inv)

lemma server_new_inv: "server_inv (server_new start now)"
  by (simp add: server_inv_defs server_new_def)

lemma server_reach_inv:
  assumes "server_reach P start n s" "unat start + n < 2 ^ 64"
  shows "server_inv s \<and> unat (sv_next_generation s) \<le> unat start + n"
  using assms
proof (induction rule: server_reach.induct)
  case (initial now)
  then show ?case using server_new_inv [of start now] by (simp add: server_new_def)
next
  case (further n s s')
  then have IH: "server_inv s" "unat (sv_next_generation s) \<le> unat start + n"
    and small: "unat (sv_next_generation s) < 2 ^ 64 - 1" by auto
  have "unat (sv_next_generation s') \<le> unat start + Suc n"
    using server_step_next [OF further.hyps(2)] IH(2) unat_next [OF small] by auto
  then show ?case using server_step_inv [OF further.hyps(2) IH(1) small] by simp
qed

section \<open>Correctness\<close>

definition demo_gw_params :: gw_params where
  "demo_gw_params = \<lparr>gp_codec = demo_addr, gp_mtu = 1500, gp_timeout = 3\<rparr>"

definition demo_dst :: socket_addr where
  "demo_dst = SocketAddr (V4 7) 53"

definition demo_session :: gw_session where
  "demo_session = \<lparr>se_sock = 4, se_dst = demo_dst, se_req_addr = SocketAddress demo_dst, se_generation = 1,
     se_sent = 1, se_last_act = 10\<rparr>"

definition demo_relay :: relay where
  "demo_relay = \<lparr>re_conn_id = 9, re_generation = 1, re_dst = demo_dst, re_sock = 4,
     re_idle_ms = idle_ms demo_gw_params, re_mtu = effective_mtu demo_gw_params demo_dst\<rparr>"

definition demo_reply :: outbound_item where
  "demo_reply = \<lparr>oi_packet = build_ip_packet 9 demo_dst [42], oi_generation = Some 1\<rparr>"

definition demo_server :: "outbound_item list \<Rightarrow> nat \<Rightarrow> server" where
  "demo_server q now = \<lparr>sv_sessions = [9 \<mapsto> demo_session\<lparr>se_last_act := now\<rparr>], sv_generations = [9 \<mapsto> 1],
     sv_next_generation = 2, sv_cancelled = {}, sv_queue = q, sv_relays = [demo_relay],
     sv_reader = ReaderIdle, sv_activity = now\<rparr>"

lemma demo_effective_mtu: "effective_mtu demo_gw_params demo_dst = 1500"
  by (simp add: effective_mtu_def demo_gw_params_def demo_addr_def demo_dst_def header_static_len_def)

lemma demo_relay_simps:
  "re_mtu demo_relay = 1500" "re_conn_id demo_relay = 9" "re_dst demo_relay = demo_dst"
  by (simp_all add: demo_relay_def demo_effective_mtu)

lemma demo_server_reach2: "server_reach demo_gw_params 1 2 (demo_server [] 10)"
proof -
  let ?p = "build_ip_packet 9 demo_dst [1]"
  let ?env = "\<lparr>ue_resolved = Inr [demo_dst], ue_socket = (\<lambda>_. Inr 4), ue_sent = Inr ()\<rparr>"
  let ?s0 = "server_new 1 0" and ?s1 = "handle_packet demo_gw_params 10 (Inr ()) (build_ip_packet 9 demo_dst [1]) (server_new 1 0)"
  have s1: "?s1 = \<lparr>sv_sessions = (\<lambda>_. None), sv_generations = [9 \<mapsto> 1], sv_next_generation = 2,
      sv_cancelled = {}, sv_queue = [], sv_relays = [], sv_reader = ReaderResolving 9 1 (SocketAddress demo_dst) [1],
      sv_activity = 10\<rparr>"
    by (simp add: handle_packet_def build_ip_packet_def packet_new_def server_new_def process_udp_begin_def
        replace_generation_def flag_DATA_def flag_KEEPALIVE_def flag_CLOSE_def demo_gw_params_def)
  have "server_reach demo_gw_params 1 0 ?s0" by (rule initial)
  then have "server_reach demo_gw_params 1 (Suc 0) ?s1"
    by (rule further) (rule request, simp add: server_new_def)
  then have "server_reach demo_gw_params 1 (Suc (Suc 0))
      (handle_resolved demo_gw_params 10 ?env 9 1 (SocketAddress demo_dst) ?s1)"
    by (rule further) (rule resolved, simp add: s1)
  moreover have "handle_resolved demo_gw_params 10 ?env 9 1 (SocketAddress demo_dst) ?s1 = demo_server [] 10"
    unfolding s1 by (simp add: handle_resolved_def process_udp_finish_def demo_server_def demo_session_def demo_relay_def)
  ultimately show ?thesis by (simp add: numeral_2_eq_2)
qed

lemma demo_server_reach3: "server_reach demo_gw_params 1 3 (demo_server [demo_reply] 20)"
proof -
  have "relay_reply demo_gw_params demo_relay [42] = Inr (build_ip_packet 9 demo_dst [42])"
    by (simp add: relay_reply_def demo_relay_simps build_packet_from_address_def rbind_def
        build_ip_packet_def packet_new_def packet_len_def demo_gw_params_def demo_addr_def demo_dst_def
        UDPGW_LENGTH_FIELD_SIZE_def header_len_def header_static_len_def)
  then have "relay_step demo_gw_params demo_relay (RelayReceived demo_dst [42]) 20 False (demo_server [] 10)
      = demo_server [demo_reply] 20"
    by (simp add: relay_step_def relay_iteration_def relay_activity_def relay_session_def demo_server_def
        demo_session_def demo_relay_def demo_reply_def)
  then have "server_step demo_gw_params (demo_server [] 10) (demo_server [demo_reply] 20)"
    using relayed [of demo_relay "demo_server [] 10"] by (metis demo_server_def list.set_intros(1) server.select_convs(6))
  then have "server_reach demo_gw_params 1 (Suc 2) (demo_server [demo_reply] 20)"
    by (rule further [OF demo_server_reach2])
  then show ?thesis by simp
qed

text \<open>
  C30. Replies of a retired request never reach the client.  In every state the gateway can be in, a
  versioned packet that the writer sends carries the generation of the latest request for its
  connection id, and if a session is registered for that id, a data packet comes from exactly the
  destination of that session: late packets from a destination the client has left or closed are
  dropped.  The bound is the one of the 64-bit generation counter.
\<close>

theorem stale_replies_dropped:
  assumes "server_reach P start n s" "unat start + n < 2 ^ 64"
    and "sv_queue s = it # rest" "oi_generation it = Some g" "write_item P now outcome s = (Wrote out, s')"
  shows "out = packet_write_to_buf (gp_codec P) (oi_packet it)
    \<and> sv_generations s (conn_id (pkt_header (oi_packet it))) = Some g
    \<and> (\<forall>se a. sv_sessions s (conn_id (pkt_header (oi_packet it))) = Some se
          \<longrightarrow> pkt_address (oi_packet it) = Some a \<longrightarrow> se_generation se = g \<and> a = SocketAddress (se_dst se))"
proof -
  let ?i = "conn_id (pkt_header (oi_packet it))"
  have inv: "server_inv s" using server_reach_inv [OF assms(1,2)] by simp
  have cur: "sv_generations s ?i = Some g" and out: "out = packet_write_to_buf (gp_codec P) (oi_packet it)"
    using assms(3-5) by (auto simp: write_item_def item_current_def Let_def split: if_splits sum.splits)
  have item: "item_ok s it" using inv assms(3) by (simp add: server_inv_def)
  have "se_generation se = g" if "sv_sessions s ?i = Some se" for se
    using server_inv_gen_old(3) [OF inv that] cur by simp
  then show ?thesis using cur out item assms(4) unfolding item_ok_def by blast
qed

theorem stale_replies_dropped_witness:
  "sv_generations (demo_server [demo_reply] 20) 9 = Some 1
    \<and> (\<exists>out s'. write_item demo_gw_params 20 (Inr ()) (demo_server [demo_reply] 20) = (Wrote out, s')
         \<and> out = packet_write_to_buf demo_addr (build_ip_packet 9 demo_dst [42]))"
proof -
  have q: "sv_queue (demo_server [demo_reply] 20) = [demo_reply]" "oi_generation demo_reply = Some 1"
    by (simp_all add: demo_server_def demo_reply_def)
  obtain out s' where w: "write_item demo_gw_params 20 (Inr ()) (demo_server [demo_reply] 20) = (Wrote out, s')"
    by (simp add: write_item_def item_current_def demo_server_def demo_reply_def build_ip_packet_def packet_new_def)
  show ?thesis
    using stale_replies_dropped [OF demo_server_reach3 _ q w] w
    by (simp add: demo_reply_def demo_gw_params_def build_ip_packet_def packet_new_def)
qed

text \<open>
  C32. No relay is left behind.  In every reachable state each relay task has either been told to stop
  or belongs to the session registered for its connection id, with that session's generation and
  destination; so the relays still working are at most as many as the registered sessions, whatever
  requests, timeouts, errors and disconnections happened.
\<close>

theorem relays_have_sessions:
  assumes "server_reach P start n s" "unat start + n < 2 ^ 64"
  shows "(\<forall>r \<in> set (sv_relays s). re_generation r \<in> sv_cancelled s
      \<or> (\<exists>se. sv_sessions s (re_conn_id r) = Some se \<and> se_generation se = re_generation r \<and> se_dst se = re_dst r))
    \<and> length (filter (\<lambda>r. re_generation r \<notin> sv_cancelled s) (sv_relays s)) \<le> card (dom (sv_sessions s))"
proof -
  have inv: "server_inv s" using server_reach_inv [OF assms] by simp
  have own: "\<exists>se. sv_sessions s (re_conn_id r) = Some se \<and> se_generation se = re_generation r \<and> se_dst se = re_dst r"
    if r: "r \<in> set (sv_relays s)" "re_generation r \<notin> sv_cancelled s" for r
  proof -
    obtain se where se: "relay_session r s = Some se"
      using inv r unfolding server_inv_def relays_ok_def by blast
    then show ?thesis using inv r(1) unfolding server_inv_def relays_ok_def relay_session_Some by blast
  qed
  let ?live = "filter (\<lambda>r. re_generation r \<notin> sv_cancelled s) (sv_relays s)"
  have dist: "distinct (map re_generation (sv_relays s))" using inv by (simp add: server_inv_def relays_ok_def)
  have "inj_on re_conn_id (set ?live)"
  proof (rule inj_onI)
    fix x y assume xy: "x \<in> set ?live" "y \<in> set ?live" "re_conn_id x = re_conn_id y"
    then have "re_generation x = re_generation y" using own [of x] own [of y] by auto
    then show "x = y" using xy dist by (auto simp: distinct_map inj_on_def)
  qed
  moreover have "re_conn_id ` set ?live \<subseteq> dom (sv_sessions s)" using own by fastforce
  ultimately have "card (set ?live) \<le> card (dom (sv_sessions s))"
    by (metis card_image card_mono finite)
  moreover have "distinct ?live" using dist by (simp add: distinct_map)
  ultimately have "length ?live \<le> card (dom (sv_sessions s))"
    by (metis distinct_card)
  then show ?thesis using own by blast
qed

theorem relays_have_sessions_witness:
  "re_generation demo_relay \<notin> sv_cancelled (demo_server [demo_reply] 20)
    \<and> (\<exists>se. sv_sessions (demo_server [demo_reply] 20) (re_conn_id demo_relay) = Some se
         \<and> se_generation se = re_generation demo_relay \<and> se_dst se = re_dst demo_relay)"
proof -
  have "demo_relay \<in> set (sv_relays (demo_server [demo_reply] 20))"
    and no: "re_generation demo_relay \<notin> sv_cancelled (demo_server [demo_reply] 20)"
    by (simp_all add: demo_server_def)
  then show ?thesis using relays_have_sessions [OF demo_server_reach3] by (simp; blast)
qed

end
