(* ===== verification/ProxyHandler.thy ===== *)
theory ProxyHandler
  imports Prelude
begin

text \<open>
  What the proxy protocols share: data directions (\<^verbatim>\<open>src/directions.rs\<close>), sessions
  (\<^verbatim>\<open>src/session_info.rs\<close>), the trait that every protocol implements (\<^verbatim>\<open>src/proxy_handler.rs\<close>)
  and its client \<^verbatim>\<open>handle_proxy_session\<close> of \<^verbatim>\<open>src/lib.rs\<close>, which drives a handshake over a TCP
  stream.  The trait is the record \<^verbatim>\<open>handler_ops\<close>; the locale \<^verbatim>\<open>proxy_handler\<close> states what an
  implementation promises, and the client lemmas are proved in it once.
\<close>

section \<open>Directions and sessions\<close>

datatype incoming_direction = FromServer | FromClient

datatype outgoing_direction = ToServer | ToClient

datatype ip_protocol = Tcp | Udp | Icmp | OtherProtocol byte

record session_info =
  src :: socket_addr
  dst :: socket_addr
  protocol :: ip_protocol
  session_id :: "64 word"

definition session_info_new ::
  "socket_addr \<Rightarrow> socket_addr \<Rightarrow> ip_protocol \<Rightarrow> 64 word \<Rightarrow> session_info \<times> 64 word" where
  "session_info_new s d p counter =
     (\<lparr>src = s, dst = d, protocol = p, session_id = counter\<rparr>, counter + 1)"

record user_key =
  username :: string
  password :: string

section \<open>Text of addresses\<close>

text \<open>The \<^verbatim>\<open>Display\<close> forms of numbers and addresses that protocols embed in their requests.\<close>

definition digit_char :: "nat \<Rightarrow> char" where
  "digit_char n = char_of (if n < 10 then 48 + n else 87 + n)"

fun digits :: "nat \<Rightarrow> nat \<Rightarrow> string" where
  "digits base n = (if n < base \<or> base < 2 then [digit_char n]
                    else digits base (n div base) @ [digit_char (n mod base)])"

declare digits.simps [simp del]

definition decimal :: "nat \<Rightarrow> string" where
  "decimal n = digits 10 n"

definition ipv4_text :: "bytes \<Rightarrow> string" where
  "ipv4_text os = concat (map (\<lambda>i. (if i = 0 then [] else ''.'') @ decimal (unat (os ! i))) [0..<4])"

fun segments :: "bytes \<Rightarrow> nat list" where
  "segments (a # b # bs) = nat_of_be [a, b] # segments bs"
| "segments _ = []"

text \<open>The first longest run of zero segments, as its start and length.\<close>

fun zero_run :: "nat list \<Rightarrow> nat \<Rightarrow> nat \<times> nat \<Rightarrow> nat \<times> nat \<Rightarrow> nat \<times> nat" where
  "zero_run [] i cur best = best"
| "zero_run (s # ss) i (start, len) (bstart, blen) =
     (if s = 0 then
        let start' = (if len = 0 then i else start); len' = len + 1 in
        zero_run ss (i + 1) (start', len') (if len' > blen then (start', len') else (bstart, blen))
      else zero_run ss (i + 1) (0, 0) (bstart, blen))"

definition segments_text :: "nat list \<Rightarrow> string" where
  "segments_text ss = concat (map (\<lambda>i. (if i = 0 then [] else '':'') @ digits 16 (ss ! i)) [0..<length ss])"

definition ipv6_text :: "bytes \<Rightarrow> string" where
  "ipv6_text os =
     (if take 10 os = replicate 10 0 \<and> take 2 (drop 10 os) = [255, 255]
      then ''::ffff:'' @ ipv4_text (drop 12 os)
      else let ss = segments os; (start, len) = zero_run ss 0 (0, 0) (0, 0) in
        if len > 1 then segments_text (take start ss) @ ''::'' @ segments_text (drop (start + len) ss)
        else segments_text ss)"

definition ip_text :: "ip_addr \<Rightarrow> string" where
  "ip_text a = (if is_ipv4 a then ipv4_text (octets a) else ipv6_text (octets a))"

definition socket_addr_text :: "socket_addr \<Rightarrow> string" where
  "socket_addr_text sa =
     (if is_ipv4 (sa_ip sa) then ip_text (sa_ip sa) @ '':'' @ decimal (unat (sa_port sa))
      else ''['' @ ip_text (sa_ip sa) @ '']:'' @ decimal (unat (sa_port sa)))"

definition string_bytes :: "string \<Rightarrow> bytes" where
  "string_bytes s = map (\<lambda>c. of_nat (of_char c)) s"

section \<open>The trait and its client\<close>

record 'h handler_ops =
  h_push :: "incoming_direction \<Rightarrow> bytes \<Rightarrow> 'h \<Rightarrow> (unit io_result \<times> 'h) option"
  h_consume :: "outgoing_direction \<Rightarrow> nat \<Rightarrow> 'h \<Rightarrow> 'h option"
  h_peek :: "outgoing_direction \<Rightarrow> 'h \<Rightarrow> bytes"
  h_established :: "'h \<Rightarrow> bool"
  h_data_len :: "outgoing_direction \<Rightarrow> 'h \<Rightarrow> nat"
  h_reset :: "'h \<Rightarrow> bool"
  h_server_addr :: "'h \<Rightarrow> socket_addr"
  h_session_info :: "'h \<Rightarrow> session_info"
  h_domain_name :: "'h \<Rightarrow> string option"
  h_udp_associate :: "'h \<Rightarrow> socket_addr option"

definition drain :: "nat \<Rightarrow> bytes \<Rightarrow> bytes option" where
  "drain n buf = (if n \<le> length buf then Some (drop n buf) else None)"

text \<open>
  \<^verbatim>\<open>handle_proxy_session\<close>: the reads of the server connection are given as a list of results, an
  empty chunk being the end of the stream, and writes are collected.  \<^verbatim>\<open>wr sent data\<close> is the error
  with which the connection refuses to write \<^verbatim>\<open>data\<close> after \<^verbatim>\<open>sent\<close>, if it does.  The result is
  Pending while the session waits for another read; None stands for a panic or a call that does
  not return.  The last components
  are the handler, the octets written to the server and the unused reads.
\<close>

type_synonym write_outcome = "bytes \<Rightarrow> bytes \<Rightarrow> io_error option"

type_synonym 'h session_result =
  "(socket_addr option result poll \<times> 'h \<times> bytes \<times> bytes io_result list) option"

definition flush_to_server ::
  "'h handler_ops \<Rightarrow> write_outcome \<Rightarrow> bytes \<Rightarrow> 'h \<Rightarrow> (('h \<times> bytes) io_result) option" where
  "flush_to_server ops wr sent h =
     (let data = h_peek ops ToServer h in
      case wr sent data of
        Some e \<Rightarrow> Some (Inl e)
      | None \<Rightarrow> map_option (\<lambda>h'. Inr (h', data)) (h_consume ops ToServer (length data) h))"

fun proxy_session_loop ::
  "'h handler_ops \<Rightarrow> write_outcome \<Rightarrow> bytes io_result list \<Rightarrow> 'h \<Rightarrow> bytes \<Rightarrow> 'h session_result" where
  "proxy_session_loop ops wr reads h sent =
     (if h_established ops h then Some (Ready (Inr (h_udp_associate ops h)), h, sent, reads)
      else case reads of
        [] \<Rightarrow> Some (Pending, h, sent, [])
      | Inl e # rs \<Rightarrow> Some (Ready (Inl (Io e)), h, sent, rs)
      | Inr c # rs \<Rightarrow>
          if c = [] then Some (Ready (Inl (StringError ''server closed accidentially'')), h, sent, rs)
          else (case h_push ops FromServer c h of
              None \<Rightarrow> None
            | Some (Inl e, h') \<Rightarrow> Some (Ready (Inl (Io e)), h', sent, rs)
            | Some (Inr _, h') \<Rightarrow>
                if h_peek ops ToServer h' = [] then proxy_session_loop ops wr rs h' sent
                else (case flush_to_server ops wr sent h' of
                    None \<Rightarrow> None
                  | Some (Inl e) \<Rightarrow> Some (Ready (Inl (Io e)), h', sent, rs)
                  | Some (Inr (h'', data)) \<Rightarrow> proxy_session_loop ops wr rs h'' (sent @ data))))"

declare proxy_session_loop.simps [simp del]

definition handle_proxy_session ::
  "'h handler_ops \<Rightarrow> write_outcome \<Rightarrow> bytes io_result list \<Rightarrow> 'h \<Rightarrow> 'h session_result" where
  "handle_proxy_session ops wr reads h =
     (if h_established ops h then Some (Ready (Inr (h_udp_associate ops h)), h, [], reads)
      else if h_peek ops ToServer h = []
        then Some (Ready (Inl (StringError ''proxy_handler launched went wrong'')), h, [], reads)
      else case flush_to_server ops wr [] h of
          None \<Rightarrow> None
        | Some (Inl e) \<Rightarrow> Some (Ready (Inl (Io e)), h, [], reads)
        | Some (Inr (h', data)) \<Rightarrow> proxy_session_loop ops wr reads h' data)"

definition writes_succeed :: write_outcome where
  "writes_succeed sent data = None"

text \<open>
  The end of the setup in \<^verbatim>\<open>handle_tcp_session\<close>: data that arrived with the last handshake read
  is taken from the handler before the raw relay starts.
\<close>

definition take_prefetched :: "'h handler_ops \<Rightarrow> 'h \<Rightarrow> (bytes \<times> 'h) option" where
  "take_prefetched ops h =
     (let prefetched = h_peek ops ToClient h in
      map_option (\<lambda>h'. (prefetched, h')) (h_consume ops ToClient (length prefetched) h))"

section \<open>What an implementation promises\<close>

definition forward :: "incoming_direction \<Rightarrow> outgoing_direction" where
  "forward d = (case d of FromServer \<Rightarrow> ToClient | FromClient \<Rightarrow> ToServer)"

datatype relay_event = PushData incoming_direction bytes | TakeData outgoing_direction nat

text \<open>
  A relay over a handler: pushes of received data and removals of data that was sent on;
  the result is the handler and what was taken in each direction.
\<close>

fun relay_run ::
  "'h handler_ops \<Rightarrow> relay_event list \<Rightarrow> 'h \<Rightarrow> ('h \<times> (outgoing_direction \<Rightarrow> bytes)) option" where
  "relay_run ops [] h = Some (h, \<lambda>_. [])"
| "relay_run ops (PushData d data # es) h = (case h_push ops d data h of
     Some (Inr _, h') \<Rightarrow> relay_run ops es h'
   | _ \<Rightarrow> None)"
| "relay_run ops (TakeData d n # es) h =
     (let out = take n (h_peek ops d h) in
      case h_consume ops d (length out) h of
        None \<Rightarrow> None
      | Some h' \<Rightarrow> map_option (\<lambda>(h'', f). (h'', f(d := out @ f d))) (relay_run ops es h'))"

fun pushed :: "outgoing_direction \<Rightarrow> relay_event list \<Rightarrow> bytes" where
  "pushed d [] = []"
| "pushed d (PushData i data # es) = (if forward i = d then data else []) @ pushed d es"
| "pushed d (TakeData _ _ # es) = pushed d es"

text \<open>
  A session hands over: it succeeds having written \<^verbatim>\<open>sent\<close>, with nothing left to write, and the
  octets held for the client and those not read yet are \<^verbatim>\<open>app\<close>.
\<close>

definition handed_over ::
  "'h handler_ops \<Rightarrow> ('h \<Rightarrow> bool) \<Rightarrow> 'h session_result \<Rightarrow> socket_addr option \<Rightarrow> bytes \<Rightarrow> bytes \<Rightarrow> bool" where
  "handed_over ops ok res udp sent app =
     (\<exists>h rest. res = Some (Ready (Inr udp), h, sent, map Inr rest) \<and> h_established ops h \<and> ok h
        \<and> h_peek ops ToServer h = [] \<and> h_peek ops ToClient h @ concat rest = app)"

locale proxy_handler =
  fixes ops :: "'h handler_ops" and inv :: "'h \<Rightarrow> bool"
  assumes consume_ok: "n \<le> length (h_peek ops d h) \<Longrightarrow>
      \<exists>h'. h_consume ops d n h = Some h' \<and> h_peek ops d h' = drop n (h_peek ops d h)
        \<and> (\<forall>d'. d' \<noteq> d \<longrightarrow> h_peek ops d' h' = h_peek ops d' h)
        \<and> h_established ops h' = h_established ops h
        \<and> h_udp_associate ops h' = h_udp_associate ops h \<and> (inv h \<longrightarrow> inv h')"
    and push_established: "inv h \<Longrightarrow> h_established ops h \<Longrightarrow>
      \<exists>h'. h_push ops i data h = Some (Inr (), h') \<and> inv h' \<and> h_established ops h'
        \<and> h_peek ops (forward i) h' = h_peek ops (forward i) h @ data
        \<and> (\<forall>d. d \<noteq> forward i \<longrightarrow> h_peek ops d h' = h_peek ops d h)"
    and push_inv: "inv h \<Longrightarrow> h_push ops i data h = Some (r, h') \<Longrightarrow> inv h'"
begin

lemma relay_fifo:
  assumes "inv h" "h_established ops h"
  shows "\<exists>h' out. relay_run ops es h = Some (h', out) \<and> inv h' \<and> h_established ops h'
    \<and> (\<forall>d. out d @ h_peek ops d h' = h_peek ops d h @ pushed d es)"
  using assms
proof (induction es arbitrary: h)
  case Nil
  then show ?case by simp
next
  case (Cons e es)
  show ?case
  proof (cases e)
    case (PushData i data)
    obtain h1 where h1: "h_push ops i data h = Some (Inr (), h1)" "inv h1" "h_established ops h1"
      "h_peek ops (forward i) h1 = h_peek ops (forward i) h @ data"
      "\<forall>d. d \<noteq> forward i \<longrightarrow> h_peek ops d h1 = h_peek ops d h"
      using push_established [OF Cons.prems] by blast
    have "h_peek ops d h1 = h_peek ops d h @ (if forward i = d then data else [])" for d
      using h1(4,5) by auto
    then show ?thesis using Cons.IH [OF h1(2,3)] h1(1) PushData by auto
  next
    case (TakeData d n)
    let ?out = "take n (h_peek ops d h)"
    have "length ?out \<le> length (h_peek ops d h)" by simp
    from consume_ok [OF this] Cons.prems obtain h1 where h1: "h_consume ops d (length ?out) h = Some h1"
      "h_peek ops d h1 = drop (length ?out) (h_peek ops d h)"
      "\<forall>d'. d' \<noteq> d \<longrightarrow> h_peek ops d' h1 = h_peek ops d' h" "h_established ops h1" "inv h1" by auto
    have split: "?out @ h_peek ops d h1 = h_peek ops d h"
      unfolding h1(2) by (cases "n \<le> length (h_peek ops d h)") auto
    obtain h2 f where r: "relay_run ops es h1 = Some (h2, f)" "inv h2" "h_established ops h2"
      "\<forall>d. f d @ h_peek ops d h2 = h_peek ops d h1 @ pushed d es"
      using Cons.IH [OF h1(5,4)] by blast
    have "(f(d := ?out @ f d)) d' @ h_peek ops d' h2 = h_peek ops d' h @ pushed d' es" for d'
    proof (cases "d' = d")
      case True
      have "?out @ (f d @ h_peek ops d h2) = (?out @ h_peek ops d h1) @ pushed d es" using r(4) by simp
      then show ?thesis unfolding split using True by simp
    qed (use r(4) h1(3) in simp)
    then show ?thesis using r(1-3) h1(1) TakeData by (simp add: Let_def)
  qed
qed

lemma flush_cases:
  obtains e where "flush_to_server ops wr sent h = Some (Inl e)"
  | h' where "flush_to_server ops wr sent h = Some (Inr (h', h_peek ops ToServer h))"
    "h_peek ops ToServer h' = []" "h_peek ops ToClient h' = h_peek ops ToClient h"
    "h_established ops h' = h_established ops h" "h_udp_associate ops h' = h_udp_associate ops h"
    "inv h \<longrightarrow> inv h'"
  using consume_ok [OF order_refl, of ToServer h]
  by (cases "wr sent (h_peek ops ToServer h)") (auto simp: flush_to_server_def Let_def)

lemma session_loop_sound:
  assumes "inv h" "proxy_session_loop ops wr reads h sent = Some (r, h', w, rs)"
  shows "inv h' \<and> (\<exists>w'. w = sent @ w')
    \<and> (\<forall>a. r = Ready (Inr a) \<longrightarrow> h_established ops h' \<and> a = h_udp_associate ops h')"
  using assms
proof (induction reads arbitrary: h sent)
  case Nil
  then show ?case by (subst (asm) proxy_session_loop.simps) (auto split: if_splits)
next
  case (Cons e reads)
  show ?case
  proof (cases "\<not> h_established ops h \<and> (\<exists>c. e = Inr c \<and> c \<noteq> [])")
    case False
    then show ?thesis using Cons.prems
      by (subst (asm) proxy_session_loop.simps) (auto split: sum.splits if_splits)
  next
    case True
    then obtain c where c: "e = Inr c" "c \<noteq> []" and ne: "\<not> h_established ops h" by blast
    obtain r1 h1 where push: "h_push ops FromServer c h = Some (r1, h1)"
      using Cons.prems(2) c ne by (subst (asm) proxy_session_loop.simps) (auto split: option.splits)
    have inv1: "inv h1" using push_inv [OF Cons.prems(1) push] .
    show ?thesis
    proof (cases r1)
      case (Inl err)
      then show ?thesis using Cons.prems(2) c ne push inv1 by (subst (asm) proxy_session_loop.simps) auto
    next
      case (Inr u)
      show ?thesis
      proof (cases rule: flush_cases [of wr sent h1])
        case (1 err)
        then have "proxy_session_loop ops wr reads h1 sent = Some (r, h', w, rs)
            \<or> (r = Ready (Inl (Io err)) \<and> h' = h1 \<and> w = sent)"
          using Cons.prems(2) c ne push Inr
          by (subst (asm) (1) proxy_session_loop.simps) (auto split: if_splits)
        then show ?thesis using Cons.IH [OF inv1, of sent] inv1 by auto
      next
        case (2 h2)
        have "proxy_session_loop ops wr (e # reads) h sent =
            (if h_peek ops ToServer h1 = [] then proxy_session_loop ops wr reads h1 sent
             else proxy_session_loop ops wr reads h2 (sent @ h_peek ops ToServer h1))"
          using c ne push Inr 2(1) by (subst proxy_session_loop.simps) simp
        then have run: "(if h_peek ops ToServer h1 = [] then proxy_session_loop ops wr reads h1 sent
             else proxy_session_loop ops wr reads h2 (sent @ h_peek ops ToServer h1)) = Some (r, h', w, rs)"
          using Cons.prems(2) by simp
        show ?thesis
        proof (cases "h_peek ops ToServer h1 = []")
          case True
          then show ?thesis using run Cons.IH [OF inv1, of sent] by simp
        next
          case False
          have "inv h2" using 2(6) inv1 by blast
          from Cons.IH [OF this, of "sent @ h_peek ops ToServer h1"] run False show ?thesis by auto
        qed
      qed
    qed
  qed
qed

lemma proxy_session_sound:
  assumes "inv h" "handle_proxy_session ops wr reads h = Some (r, h', w, rs)"
  shows "inv h' \<and> (\<forall>a. r = Ready (Inr a) \<longrightarrow> h_established ops h' \<and> a = h_udp_associate ops h')"
proof (cases rule: flush_cases [of wr "[]" h])
  case (1 e)
  then show ?thesis using assms by (auto simp: handle_proxy_session_def split: if_splits)
next
  case (2 h1)
  then show ?thesis
    using assms session_loop_sound [of h1 wr reads "h_peek ops ToServer h" r h' w rs]
    by (auto simp: handle_proxy_session_def split: if_splits)
qed

end

text \<open>A handler whose data handling always returns; then so does the session.\<close>

locale total_proxy_handler = proxy_handler +
  assumes push_total: "h_push ops i data h \<noteq> None"
begin

lemma session_loop_total: "proxy_session_loop ops wr reads h sent \<noteq> None"
proof (induction reads arbitrary: h sent)
  case Nil
  then show ?case by (subst proxy_session_loop.simps) simp
next
  case (Cons e reads)
  show ?case
  proof (cases "\<exists>c. e = Inr c")
    case True
    then obtain c r1 h1 where c: "e = Inr c" "h_push ops FromServer c h = Some (r1, h1)"
      using push_total by fastforce
    obtain x where "flush_to_server ops wr sent h1 = Some x" by (cases rule: flush_cases [of wr sent h1]) auto
    then show ?thesis
      using c Cons.IH by (subst proxy_session_loop.simps) (auto simp del: not_None_eq split: sum.split)
  qed (subst proxy_session_loop.simps, auto split: sum.splits)
qed

lemma proxy_session_total: "handle_proxy_session ops wr reads h \<noteq> None"
  by (cases rule: flush_cases [of wr "[]" h])
    (use session_loop_total in \<open>auto simp: handle_proxy_session_def\<close>)

end

end
