(* ===== verification/GatewaySession.thy ===== *)
theory GatewaySession
  imports Udpgw ProxyHandler
begin

text \<open>
  One UDP flow over the gateway, \<^verbatim>\<open>handle_udp_gateway_session\<close> of \<^verbatim>\<open>src/lib.rs\<close>: a connection is
  taken from the pool or opened, datagrams are exchanged, and the connection goes back to the pool
  if it can be reused.  The reads the socket will deliver are part of the flow's state, and an event
  of the loop is a datagram of the application or a turn of the receiving branch that sees a number
  of these reads before it is cancelled or returns.  The outcomes of writes and the clock are part of
  the events; the traffic counters are not modelled.
\<close>

record flow =
  fl_stream :: gw_stream
  fl_acc :: bytes
  fl_socket :: "read_event list"
  fl_sent :: bytes
  fl_delivered :: "bytes list"

datatype flow_event =
    LocalRead "bytes io_result" "unit io_result" nat
  | Receive nat "unit io_result" nat

definition update_activity :: "nat \<Rightarrow> flow \<Rightarrow> flow" where
  "update_activity now fl = fl\<lparr>fl_stream := (fl_stream fl)\<lparr>gs_last_activity := now\<rparr>\<rparr>"

definition close_flow :: "flow \<Rightarrow> flow" where
  "close_flow fl = fl\<lparr>fl_stream := gs_close (fl_stream fl)\<rparr>"

text \<open>A turn of the loop: None continues it, a value ends it with the \<^verbatim>\<open>reusable\<close> flag.\<close>

definition local_turn ::
  "addr_codec \<Rightarrow> bool \<Rightarrow> address \<Rightarrow> bytes io_result \<Rightarrow> unit io_result \<Rightarrow> nat \<Rightarrow> flow \<Rightarrow> bool option \<times> flow" where
  "local_turn C ipv6_enabled udp_dst len outcome now fl = (case len of
     Inl e \<Rightarrow> (Some True, fl)
   | Inr d \<Rightarrow>
       if d = [] then (Some True, fl)
       else (case send_udpgw_packet C ipv6_enabled d udp_dst (gs_serial_number (fl_stream fl)) of
           Inl e \<Rightarrow> (Some False, fl)
         | Inr out \<Rightarrow> (case outcome of
             Inl e \<Rightarrow> (Some False, fl)
           | Inr _ \<Rightarrow> (None, update_activity now (fl\<lparr>fl_sent := fl_sent fl @ out\<rparr>)))))"

definition response_turn ::
  "u16 \<Rightarrow> unit io_result \<Rightarrow> nat \<Rightarrow> (nat \<times> udpgw_response) result \<Rightarrow> flow \<Rightarrow> bool option \<times> flow" where
  "response_turn sn outcome now ret fl = (case ret of
     Inl e \<Rightarrow> (Some False, close_flow fl)
   | Inr (_, KeepAlive) \<Rightarrow> (Some False, close_flow fl)
   | Inr (_, GwError) \<Rightarrow> (None, update_activity now fl)
   | Inr (_, TcpClose) \<Rightarrow> (Some False, close_flow fl)
   | Inr (_, GwData p) \<Rightarrow>
       if conn_id (pkt_header p) \<noteq> sn then (None, update_activity now fl)
       else (case outcome of
           Inl e \<Rightarrow> (Some True, fl)
         | Inr _ \<Rightarrow> (None, update_activity now (fl\<lparr>fl_delivered := fl_delivered fl @ [pkt_data p]\<rparr>))))"

definition flow_turn ::
  "addr_codec \<Rightarrow> u16 \<Rightarrow> bool \<Rightarrow> address \<Rightarrow> u16 \<Rightarrow> flow_event \<Rightarrow> flow \<Rightarrow> bool option \<times> flow" where
  "flow_turn C udp_mtu ipv6_enabled udp_dst sn ev fl = (case ev of
     LocalRead len outcome now \<Rightarrow> local_turn C ipv6_enabled udp_dst len outcome now fl
   | Receive k outcome now \<Rightarrow>
       (case recv_udpgw_packet_csafe C udp_mtu (take k (fl_socket fl)) (fl_acc fl) of
          (Pending, acc, _) \<Rightarrow> (None, fl\<lparr>fl_acc := acc, fl_socket := drop k (fl_socket fl)\<rparr>)
        | (Ready ret, acc, unread) \<Rightarrow>
            response_turn sn outcome now ret
              (fl\<lparr>fl_acc := acc, fl_socket := unread @ drop k (fl_socket fl)\<rparr>)))"

fun flow_run ::
  "addr_codec \<Rightarrow> u16 \<Rightarrow> bool \<Rightarrow> address \<Rightarrow> u16 \<Rightarrow> flow_event list \<Rightarrow> flow \<Rightarrow> bool option \<times> flow" where
  "flow_run C udp_mtu ipv6_enabled udp_dst sn [] fl = (None, fl)"
| "flow_run C udp_mtu ipv6_enabled udp_dst sn (ev # evs) fl =
     (case flow_turn C udp_mtu ipv6_enabled udp_dst sn ev fl of
        (None, fl') \<Rightarrow> flow_run C udp_mtu ipv6_enabled udp_dst sn evs fl'
      | (Some reusable, fl') \<Rightarrow> (Some reusable, fl'))"

text \<open>Taking a connection: closed ones are discarded; an open one gets a new serial number.\<close>

fun acquire_stream :: "u16 \<Rightarrow> gw_stream list \<Rightarrow> (gw_stream option \<times> u16) \<times> gw_stream list" where
  "acquire_stream counter [] = ((None, counter), [])"
| "acquire_stream counter (s # ss) =
     (if gs_closed s then acquire_stream counter ss
      else case rotate_serial_number counter s of (_, s', counter') \<Rightarrow> ((Some s', counter'), ss))"

text \<open>The end of the flow: a reusable connection with no partial frame is closed for its id and stored.\<close>

definition flow_end ::
  "addr_codec \<Rightarrow> u16 \<Rightarrow> nat \<Rightarrow> nat \<Rightarrow> unit io_result \<Rightarrow> nat \<Rightarrow> bool \<Rightarrow> flow \<Rightarrow> gw_client \<Rightarrow> flow \<times> gw_client" where
  "flow_end C sn reader writer outcome now reusable fl c =
     (if reusable \<and> fl_acc fl = [] then
        (case outcome of
           Inr _ \<Rightarrow>
             (let fl' = update_activity now (fl\<lparr>fl_sent := fl_sent fl @ fst (send_udpgw_close_packet C sn)\<rparr>) in
              (fl', store_server_connection_full (fl_stream fl') reader writer c))
         | Inl e \<Rightarrow> (close_flow fl, c))
      else (close_flow fl, c))"

text \<open>
  The whole session.  \<^verbatim>\<open>connect\<close> is the outcome of opening a connection through the proxy: the
  local address, the two halves and the time.  \<^verbatim>\<open>socket\<close> gives the reads of a connection.
\<close>

definition gateway_stream ::
  "u16 \<Rightarrow> (socket_addr \<times> nat \<times> nat \<times> nat) result \<Rightarrow> gw_client \<Rightarrow> (gw_stream result \<times> u16) \<times> gw_client" where
  "gateway_stream counter connect c = (case acquire_stream counter (gc_connections c) of
     ((Some s, counter'), ss) \<Rightarrow> ((Inr s, counter'), c\<lparr>gc_connections := ss\<rparr>)
   | ((None, counter'), ss) \<Rightarrow> (case connect of
       Inl e \<Rightarrow> ((Inl e, counter'), c\<lparr>gc_connections := ss\<rparr>)
     | Inr (local, r, w, now) \<Rightarrow> (case gs_new counter' now local r w of
         (s, counter'') \<Rightarrow> ((Inr s, counter''), c\<lparr>gc_connections := ss\<rparr>))))"

definition handle_udp_gateway_session ::
  "addr_codec \<Rightarrow> bool \<Rightarrow> address \<Rightarrow> u16 \<Rightarrow> (socket_addr \<times> nat \<times> nat \<times> nat) result \<Rightarrow> (nat \<Rightarrow> read_event list)
   \<Rightarrow> flow_event list \<Rightarrow> unit io_result \<Rightarrow> nat \<Rightarrow> gw_client \<Rightarrow> (unit result poll \<times> flow option \<times> u16) \<times> gw_client" where
  "handle_udp_gateway_session C ipv6_enabled udp_dst counter connect socket events outcome now c =
     (case gateway_stream counter connect c of
        ((Inl e, counter'), c') \<Rightarrow> ((Ready (Inl e), None, counter'), c')
      | ((Inr s, counter'), c') \<Rightarrow>
          (case gs_get_reader s of
             (None, _) \<Rightarrow> ((Ready (Inl (StringError ''get reader failed'')), None, counter'), c')
           | (Some reader, s1) \<Rightarrow> (case gs_get_writer s1 of
               (None, _) \<Rightarrow> ((Ready (Inl (StringError ''get writer failed'')), None, counter'), c')
             | (Some writer, s2) \<Rightarrow>
                 (let sn = gs_serial_number s2;
                      fl = \<lparr>fl_stream = s2, fl_acc = [], fl_socket = socket reader, fl_sent = [], fl_delivered = []\<rparr> in
                  case flow_run C (gc_udp_mtu c') ipv6_enabled udp_dst sn events fl of
                    (None, fl') \<Rightarrow> ((Pending, Some fl', counter'), c')
                  | (Some reusable, fl') \<Rightarrow> (case flow_end C sn reader writer outcome now reusable fl' c' of
                      (fl'', c'') \<Rightarrow> ((Ready (Inr ()), Some fl'', counter'), c''))))))"

section \<open>Frames of a flow\<close>

abbreviation frames :: "addr_codec \<Rightarrow> packet list \<Rightarrow> bytes" where
  "frames C ps \<equiv> concat (map (packet_write_to_buf C) ps)"

definition gateway_packet :: "addr_codec \<Rightarrow> u16 \<Rightarrow> packet \<Rightarrow> bool" where
  "gateway_packet C mtu p = (packet_ok C p \<and> (\<exists>r. parse_udp_response mtu p = Inr r))"

definition for_flow :: "u16 \<Rightarrow> u16 \<Rightarrow> packet \<Rightarrow> bool" where
  "for_flow mtu sn p = (parse_udp_response mtu p = Inr (GwData p) \<and> conn_id (pkt_header p) = sn)"

definition delivers :: "flow_event \<Rightarrow> bool" where
  "delivers ev = (case ev of Receive k outcome now \<Rightarrow> outcome = Inr () | LocalRead len outcome now \<Rightarrow> True)"

text \<open>What a flow has read is the frames of some packets and the octets it still holds.\<close>

definition flow_at :: "addr_codec \<Rightarrow> u16 \<Rightarrow> u16 \<Rightarrow> packet list \<Rightarrow> packet list \<Rightarrow> flow \<Rightarrow> bool" where
  "flow_at C mtu sn ps1 ps2 fl = (\<exists>cs. fl_socket fl = map ReadChunk cs \<and> [] \<notin> set cs
     \<and> prefix (fl_acc fl @ concat cs) (frames C ps2)
     \<and> fl_delivered fl = map pkt_data (filter (for_flow mtu sn) ps1))"

lemma parse_GwData: "parse_udp_response mtu p = Inr (GwData q) \<Longrightarrow> q = p"
  by (auto simp: parse_udp_response_def Let_def split: if_splits)

lemma length_frame: "packet_ok C p \<Longrightarrow> packet_write_to_buf C p \<noteq> []"
  by (rule packet_write_split) auto

lemma recv_prefix:
  assumes "list_all (gateway_packet C mtu) ps" "[] \<notin> set cs" "prefix (acc @ concat cs) (frames C ps)"
  shows "recv_udpgw_packet_csafe C mtu (map ReadChunk cs) acc = (Pending, acc @ concat cs, [])
    \<or> (\<exists>p ps' r acc' cs'. ps = p # ps' \<and> parse_udp_response mtu p = Inr r
        \<and> recv_udpgw_packet_csafe C mtu (map ReadChunk cs) acc
          = (Ready (Inr (packet_len C p, r)), acc', map ReadChunk cs')
        \<and> acc @ concat cs = packet_write_to_buf C p @ acc' @ concat cs' \<and> [] \<notin> set cs')"
proof (cases ps)
  case Nil
  then have "acc = []" "cs = []" using assms(2,3) by (cases cs; auto)+
  then show ?thesis
    by (simp add: recv_udpgw_packet_csafe.simps csafe_frame_def UDPGW_LENGTH_FIELD_SIZE_def)
next
  case (Cons p ps')
  let ?w = "packet_write_to_buf C p"
  obtain r where ok: "packet_ok C p" "parse_udp_response mtu p = Inr r"
    using assms(1) Cons by (auto simp: gateway_packet_def)
  have ne: "list_all (\<lambda>c. c \<noteq> []) cs" using assms(2) by (auto simp: list_all_iff)
  have pre: "prefix (acc @ concat cs) (?w @ frames C ps')" using assms(3) Cons by simp
  then consider us where "acc @ concat cs = ?w @ us"
    | "strict_prefix (acc @ concat cs) ?w"
    by (metis append_Nil2 prefix_append strict_prefix_def)
  then show ?thesis
  proof cases
    case 1
    from recv_csafe_first [OF ok this ne] obtain acc' cs' where
      "recv_udpgw_packet_csafe C mtu (map ReadChunk cs) acc = (Ready (Inr (packet_len C p, r)), acc', map ReadChunk cs')"
      "acc' @ concat cs' = us" "list_all (\<lambda>c. c \<noteq> []) cs'" by blast
    then show ?thesis using Cons ok 1 by (auto simp: list_all_iff)
  next
    case 2
    then have "acc @ concat cs = take (length (acc @ concat cs)) ?w" "length (acc @ concat cs) < length ?w"
      by (auto simp: strict_prefix_def prefix_def prefix_length_less)
    then show ?thesis using recv_csafe_tail [OF ok(1) _ _ ne, of "length (acc @ concat cs)" acc mtu] by auto
  qed
qed

lemma local_turn_at:
  assumes "flow_at C mtu sn ps1 ps2 fl" "local_turn C v6 a len outcome now fl = (res, fl')"
  shows "flow_at C mtu sn ps1 ps2 fl'"
  using assms by (auto simp: local_turn_def flow_at_def update_activity_def
      split: sum.splits if_splits)

lemma response_turn_at:
  assumes "flow_at C mtu sn ps1 ps2 fl" "parse_udp_response mtu p = Inr r"
    and "response_turn sn (Inr ()) now (Inr (n, r)) fl = (res, fl')"
  shows "flow_at C mtu sn (ps1 @ [p]) ps2 fl'"
proof (cases "for_flow mtu sn p")
  case True
  then have "r = GwData p" "conn_id (pkt_header p) = sn" using assms(2) by (auto simp: for_flow_def)
  then show ?thesis using assms True by (auto simp: response_turn_def flow_at_def update_activity_def)
next
  case False
  have "conn_id (pkt_header q) \<noteq> sn" if "r = GwData q" for q
    using False that assms(2) parse_GwData [of mtu p q] by (simp add: for_flow_def)
  then have "fl_acc fl' = fl_acc fl \<and> fl_socket fl' = fl_socket fl \<and> fl_delivered fl' = fl_delivered fl"
    using assms(3) by (auto simp: response_turn_def update_activity_def close_flow_def split: udpgw_response.splits)
  then show ?thesis using assms(1) False by (auto simp: flow_at_def)
qed

lemma flow_turn_at:
  assumes "flow_at C mtu sn ps1 ps2 fl" "list_all (gateway_packet C mtu) ps2" "delivers ev"
    and "flow_turn C mtu v6 a sn ev fl = (res, fl')"
  shows "\<exists>ps1' ps2'. ps1 @ ps2 = ps1' @ ps2' \<and> flow_at C mtu sn ps1' ps2' fl'"
proof (cases ev)
  case (LocalRead len outcome now)
  then have "local_turn C v6 a len outcome now fl = (res, fl')" using assms(4) by (simp add: flow_turn_def)
  from local_turn_at [OF assms(1) this] show ?thesis by blast
next
  case (Receive k outcome now)
  then have out: "outcome = Inr ()" using assms(3) by (simp add: delivers_def)
  obtain cs where cs: "fl_socket fl = map ReadChunk cs" "[] \<notin> set cs"
    "prefix (fl_acc fl @ concat cs) (frames C ps2)"
    and del: "fl_delivered fl = map pkt_data (filter (for_flow mtu sn) ps1)"
    using assms(1) by (auto simp: flow_at_def)
  have split: "concat cs = concat (take k cs) @ concat (drop k cs)"
    by (metis append_take_drop_id concat_append)
  have sub: "[] \<notin> set (take k cs)" "[] \<notin> set (drop k cs)"
    using cs(2) by (auto dest: in_set_takeD in_set_dropD)
  have "prefix (fl_acc fl @ concat (take k cs)) (frames C ps2)"
    using cs(3) unfolding split by (auto simp: prefix_def)
  from recv_prefix [OF assms(2) sub(1) this] show ?thesis
  proof (elim disjE exE conjE)
    assume "recv_udpgw_packet_csafe C mtu (map ReadChunk (take k cs)) (fl_acc fl)
      = (Pending, fl_acc fl @ concat (take k cs), [])"
    then have "fl' = fl\<lparr>fl_acc := fl_acc fl @ concat (take k cs), fl_socket := map ReadChunk (drop k cs)\<rparr>"
      using assms(4) Receive cs(1) by (simp add: flow_turn_def take_map drop_map)
    then have "flow_at C mtu sn ps1 ps2 fl'"
      using cs(3) sub(2) del unfolding flow_at_def split by (auto intro!: exI [of _ "drop k cs"])
    then show ?thesis by blast
  next
    fix p ps' r acc' cs'
    assume p: "ps2 = p # ps'" "parse_udp_response mtu p = Inr r" "[] \<notin> set cs'"
      and run: "recv_udpgw_packet_csafe C mtu (map ReadChunk (take k cs)) (fl_acc fl)
        = (Ready (Inr (packet_len C p, r)), acc', map ReadChunk cs')"
      and eq: "fl_acc fl @ concat (take k cs) = packet_write_to_buf C p @ acc' @ concat cs'"
    let ?fl = "fl\<lparr>fl_acc := acc', fl_socket := map ReadChunk cs' @ map ReadChunk (drop k cs)\<rparr>"
    have "fl_acc fl @ concat cs = packet_write_to_buf C p @ (acc' @ concat (cs' @ drop k cs))"
      using arg_cong [OF eq, of "\<lambda>x. x @ concat (drop k cs)"] unfolding split by simp
    then have "prefix (acc' @ concat (cs' @ drop k cs)) (frames C ps')"
      using cs(3) unfolding p(1) by simp
    then have at: "flow_at C mtu sn ps1 ps' ?fl"
      using sub(2) p(3) del unfolding flow_at_def by (auto intro!: exI [of _ "cs' @ drop k cs"])
    have "response_turn sn (Inr ()) now (Inr (packet_len C p, r)) ?fl = (res, fl')"
      using assms(4) run Receive out cs(1) by (simp add: flow_turn_def take_map drop_map)
    from response_turn_at [OF at p(2) this] 
    have "flow_at C mtu sn (ps1 @ [p]) ps' fl'" .
    moreover have "ps1 @ ps2 = (ps1 @ [p]) @ ps'" using p(1) by simp
    ultimately show ?thesis by blast
  qed
qed

lemma flow_run_at:
  assumes "flow_at C mtu sn ps1 ps2 fl" "list_all (gateway_packet C mtu) (ps1 @ ps2)" "list_all delivers evs"
    and "flow_run C mtu v6 a sn evs fl = (res, fl')"
  shows "\<exists>ps1' ps2'. ps1 @ ps2 = ps1' @ ps2' \<and> flow_at C mtu sn ps1' ps2' fl'"
  using assms
proof (induction evs arbitrary: ps1 ps2 fl)
  case Nil
  then show ?case by auto
next
  case (Cons ev evs)
  obtain res1 fl1 where turn: "flow_turn C mtu v6 a sn ev fl = (res1, fl1)" by fastforce
  obtain ps1' ps2' where at: "ps1 @ ps2 = ps1' @ ps2'" "flow_at C mtu sn ps1' ps2' fl1"
    using flow_turn_at [OF Cons.prems(1) _ _ turn] Cons.prems(2,3) by auto
  show ?case
  proof (cases res1)
    case None
    then show ?thesis using Cons.IH [OF at(2)] at(1) Cons.prems turn by auto
  next
    case (Some b)
    then show ?thesis using at Cons.prems(4) turn by auto
  qed
qed

lemma flow_turn_serial:
  "flow_turn C mtu v6 a sn ev fl = (res, fl') \<Longrightarrow>
   gs_serial_number (fl_stream fl') = gs_serial_number (fl_stream fl)"
  by (auto simp: flow_turn_def local_turn_def response_turn_def update_activity_def close_flow_def gs_close_def
      split: flow_event.splits sum.splits if_splits prod.splits poll.splits udpgw_response.splits)

lemma flow_run_serial:
  "flow_run C mtu v6 a sn evs fl = (res, fl') \<Longrightarrow>
   gs_serial_number (fl_stream fl') = gs_serial_number (fl_stream fl)"
proof (induction evs arbitrary: fl)
  case (Cons ev evs)
  then show ?case using flow_turn_serial [of C mtu v6 a sn ev fl]
    by (auto split: prod.splits option.splits)
qed simp

lemma flow_end_cases:
  assumes "flow_end C sn reader writer outcome now reusable fl c = (fl', c')"
  shows "fl_acc fl' = fl_acc fl" "fl_socket fl' = fl_socket fl" "fl_delivered fl' = fl_delivered fl"
    "gs_serial_number (fl_stream fl') = gs_serial_number (fl_stream fl)"
    "set (gc_connections c') \<subseteq> set (gc_connections c) \<or> fl_acc fl = []"
  using assms by (auto simp: flow_end_def Let_def update_activity_def close_flow_def gs_close_def
      store_server_connection_full_def split: if_splits sum.splits)

lemma acquire_subset:
  "acquire_stream counter ss = ((s, counter'), ss') \<Longrightarrow> set ss' \<subseteq> set ss"
  by (induction ss) (auto simp: rotate_serial_number_def split: if_splits)

lemma gateway_stream_subset:
  "gateway_stream counter connect c = (r, c') \<Longrightarrow>
   set (gc_connections c') \<subseteq> set (gc_connections c) \<and> gc_udp_mtu c' = gc_udp_mtu c"
  using acquire_subset [of counter "gc_connections c"]
  by (fastforce simp: gateway_stream_def gs_new_def split: prod.splits option.splits sum.splits)

text \<open>
  C31. A gateway flow delivers its own datagrams and nothing else, and never leaves a connection in
  the middle of a frame.  Whatever cancellations, sends and cuts of the stream into reads happen, the
  datagrams given to the application are those of the packets read that carry the flow's own serial
  number, in order; and a connection that the flow adds to the pool has no octet of a partial frame
  outstanding, so what remains on its socket starts at the boundary of a packet.
\<close>

theorem gateway_flow_frames:
  assumes "handle_udp_gateway_session C v6 a counter connect socket events outcome now c
      = ((Ready (Inr ()), Some fl, counter'), c')"
    and "list_all (gateway_packet C (gc_udp_mtu c)) ps" "\<And>h. socket h = map ReadChunk cs"
    and "[] \<notin> set cs" "prefix (concat cs) (frames C ps)" "list_all delivers events"
  shows "\<exists>ps1 ps2 rest. ps = ps1 @ ps2 \<and> fl_socket fl = map ReadChunk rest
    \<and> fl_delivered fl = map pkt_data (filter (for_flow (gc_udp_mtu c) (gs_serial_number (fl_stream fl))) ps1)
    \<and> (\<forall>s \<in> set (gc_connections c'). s \<in> set (gc_connections c) \<or> prefix (concat rest) (frames C ps2))"
proof -
  obtain s counter1 c1 where gs: "gateway_stream counter connect c = ((Inr s, counter1), c1)"
    using assms(1) by (auto simp: handle_udp_gateway_session_def split: prod.splits sum.splits)
  note sub = gateway_stream_subset [OF gs]
  obtain reader writer s2 fl0 fl1 reusable where
    fl0: "fl0 = \<lparr>fl_stream = s2, fl_acc = [], fl_socket = socket reader, fl_sent = [], fl_delivered = []\<rparr>"
    and run: "flow_run C (gc_udp_mtu c1) v6 a (gs_serial_number s2) events fl0 = (Some reusable, fl1)"
    and fin: "flow_end C (gs_serial_number s2) reader writer outcome now reusable fl1 c1 = (fl, c')"
    using assms(1) gs by (auto simp: handle_udp_gateway_session_def Let_def
        split: prod.splits option.splits)
  have sn: "gs_serial_number (fl_stream fl) = gs_serial_number s2"
    using flow_end_cases(4) [OF fin] flow_run_serial [OF run] fl0 by simp
  have "flow_at C (gc_udp_mtu c) (gs_serial_number s2) [] ps fl0"
    using assms(3-5) unfolding flow_at_def fl0 by auto
  from flow_run_at [OF this _ assms(6) run [unfolded conjunct2 [OF sub]]] assms(2) obtain ps1 ps2 where
    ps: "ps = ps1 @ ps2" and at: "flow_at C (gc_udp_mtu c) (gs_serial_number s2) ps1 ps2 fl1" by auto
  then obtain rest where rest: "fl_socket fl1 = map ReadChunk rest"
    "prefix (fl_acc fl1 @ concat rest) (frames C ps2)"
    "fl_delivered fl1 = map pkt_data (filter (for_flow (gc_udp_mtu c) (gs_serial_number s2)) ps1)"
    by (auto simp: flow_at_def)
  have "prefix (concat rest) (frames C ps2) \<or> set (gc_connections c') \<subseteq> set (gc_connections c)"
    using flow_end_cases(5) [OF fin] sub rest(2) by auto
  then show ?thesis using ps rest flow_end_cases(2,3) [OF fin] sn by auto
qed

definition demo_gw_client :: gw_client where
  "demo_gw_client = gc_new 1500 5 30000 3 (SocketAddr (V4 1) 7300)"

definition demo_gateway_session ::
  "(unit result poll \<times> flow option \<times> u16) \<times> gw_client" where
  "demo_gateway_session = handle_udp_gateway_session demo_addr True demo_address 7
     (Inr (SocketAddr (V4 2) 4000, 0, 1, 100))
     (\<lambda>_. map ReadChunk [[0, 3, 0x20], [0, 7]]) [Receive 1 (Inr ()) 101, LocalRead (Inr [1]) (Inr ()) 102,
       Receive 1 (Inr ()) 103, LocalRead (Inr []) (Inr ()) 104] (Inr ()) 105 demo_gw_client"

lemma demo_frames:
  "csafe_frame demo_addr 1500 [] = None" "csafe_frame demo_addr 1500 [0, 3, 0x20] = None"
  "csafe_frame demo_addr 1500 [0, 3, 0x20, 0, 7] = Some (Inr (5, GwError), [])"
  by code_simp+

lemma demo_recv:
  "recv_udpgw_packet_csafe demo_addr 1500 [ReadChunk [0, 3, 0x20]] [] = (Pending, [0, 3, 0x20], [])"
  "recv_udpgw_packet_csafe demo_addr 1500 [ReadChunk [0, 7]] [0, 3, 0x20] = (Ready (Inr (5, GwError)), [], [])"
  by (simp_all add: recv_udpgw_packet_csafe.simps demo_frames)

lemma demo_send: "\<exists>out. send_udpgw_packet demo_addr True [1] demo_address 7 = Inr out"
  by (simp add: send_udpgw_packet_def build_packet_from_address_def demo_address_def build_ip_packet_def
      packet_new_def packet_len_def demo_addr_def UDPGW_LENGTH_FIELD_SIZE_def header_len_def header_static_len_def
      io_result_error_def)

lemma demo_gateway_session_result:
  "\<exists>fl c'. demo_gateway_session = ((Ready (Inr ()), Some fl, 8), c') \<and> length (gc_connections c') = 1"
proof -
  obtain out where "send_udpgw_packet demo_addr True [1] demo_address 7 = Inr out" using demo_send by blast
  then show ?thesis
    by (simp add: demo_gateway_session_def handle_udp_gateway_session_def gateway_stream_def demo_gw_client_def
        gc_new_def gs_new_def gs_get_reader_def gs_get_writer_def flow_turn_def demo_recv response_turn_def
        local_turn_def update_activity_def flow_end_def store_server_connection_full_def)
qed

theorem gateway_flow_frames_witness:
  "\<exists>fl c' ps1 ps2. demo_gateway_session = ((Ready (Inr ()), Some fl, 8), c')
    \<and> [build_error_packet 7] = ps1 @ ps2
    \<and> fl_delivered fl = map pkt_data (filter (for_flow 1500 (gs_serial_number (fl_stream fl))) ps1)"
proof -
  obtain fl c' where s: "demo_gateway_session = ((Ready (Inr ()), Some fl, 8), c')"
    using demo_gateway_session_result by blast
  have w: "packet_write_to_buf demo_addr (build_error_packet 7) = [0, 3, 0x20, 0, 7]"
    "parse_udp_response 1500 (build_error_packet 7) = Inr GwError"
    by code_simp+
  have ok: "packet_ok demo_addr (build_error_packet 7)"
    by (simp add: packet_ok_def build_error_packet_def packet_new_def has_data_flag_def flag_and_def flag_ERR_def
        flag_DATA_def packet_len_def UDPGW_LENGTH_FIELD_SIZE_def header_len_def header_static_len_def)
  have mtu: "gc_udp_mtu demo_gw_client = 1500" by (simp add: demo_gw_client_def gc_new_def)
  show ?thesis
    using gateway_flow_frames [OF s [unfolded demo_gateway_session_def], where ps = "[build_error_packet 7]"
        and cs = "[[0, 3, 0x20], [0, 7]]"] w ok s
    by (auto simp: mtu gateway_packet_def delivers_def)
qed

end
