(* ===== verification/Socks.thy ===== *)
theory Socks
  imports ProxyHandler "HOL-Library.Sublist"
begin

text \<open>
  The SOCKS4 and SOCKS5 client handshakes, \<^verbatim>\<open>src/socks.rs\<close>, as the state machine the source has,
  and the pass-through handler of \<^verbatim>\<open>src/no_proxy.rs\<close>.  The messages of SOCKS5 are encoded and
  decoded by a third-party crate, the argument \<^verbatim>\<open>C\<close> of type \<^verbatim>\<open>socks_codec\<close>, which also gives the
  octets of the crate's version, command and method codes.  An encoder gives the octets it appends
  or an error; a decoder returns the message and the number of octets it occupies, which the source
  then drains.  A refusal in a reply is the text the source formats.  The SOCKS4 request is built by
  the source itself.
\<close>

section \<open>State\<close>

datatype socks_version = SocksV4 | SocksV5

datatype socks_command = Connect | Bind | UdpAssociate

datatype socks_state =
    ClientHello | ServerHello | SendAuthData | ReceiveAuthResponse | SendRequest
  | ReceiveResponse | SocksEstablished

record socks_codec =
  sc_v4 :: byte
  sc_connect :: byte
  sc_no_auth :: byte
  sc_user_pass :: byte
  sc_unspecified_v4 :: address
  sc_hello :: "byte list \<Rightarrow> bytes io_result"
  sc_hello_read :: "bytes \<Rightarrow> (byte \<times> nat) io_result"
  sc_auth :: "string \<Rightarrow> string \<Rightarrow> bytes io_result"
  sc_auth_read :: "bytes \<Rightarrow> (string option \<times> nat) io_result"
  sc_request :: "socks_command \<Rightarrow> address \<Rightarrow> bytes io_result"
  sc_reply_read :: "bytes \<Rightarrow> ((string option \<times> address) \<times> nat) io_result"
  sc_socket_addr :: "address \<Rightarrow> socket_addr io_result"

record socks =
  sk_server_addr :: socket_addr
  sk_info :: session_info
  sk_domain_name :: "string option"
  sk_state :: socks_state
  sk_client_inbuf :: bytes
  sk_server_inbuf :: bytes
  sk_client_outbuf :: bytes
  sk_server_outbuf :: bytes
  sk_version :: socks_version
  sk_credentials :: "user_key option"
  sk_command :: socks_command
  sk_udp_associate :: "socket_addr option"

section \<open>Steps of the handshake\<close>

text \<open>
  A step of the handshake either ends the call or continues with \<^verbatim>\<open>state_change\<close> on the new state.
\<close>

datatype step_result = Done "unit io_result" socks | Again socks

definition send_client_hello_socks4 :: "socks_codec \<Rightarrow> socks \<Rightarrow> socks result" where
  "send_client_hello_socks4 C s =
     (if \<not> is_ipv4 (sa_ip (dst (sk_info s))) 
      then Inl (StringError (''SOCKS4 does not support IPv6: '' @ socket_addr_text (dst (sk_info s))))
      else
        let (ip_vec, name_vec) = (case sk_domain_name s of
              Some host \<Rightarrow> ([0, 0, 0, of_nat (length host)], string_bytes host @ [0])
            | None \<Rightarrow> (octets (sa_ip (dst (sk_info s))), []));
            user = (case sk_credentials s of
              None \<Rightarrow> []
            | Some c \<Rightarrow> string_bytes (username c)
                @ (if password c = [] then [] else 58 # string_bytes (password c)))
        in Inr (s\<lparr>sk_server_outbuf := sk_server_outbuf s @ [sc_v4 C, sc_connect C]
                    @ to_be_bytes (sa_port (dst (sk_info s))) @ ip_vec @ user @ [0] @ name_vec\<rparr>))"

definition send_client_hello_socks5 :: "socks_codec \<Rightarrow> socks \<Rightarrow> socks result" where
  "send_client_hello_socks5 C s =
     (let methods = [sc_no_auth C, 4, 100]
            @ (if sk_credentials s \<noteq> None then [sc_user_pass C] else [])
      in case sc_hello C methods of
           Inl e \<Rightarrow> Inl (Io e)
         | Inr out \<Rightarrow> Inr (s\<lparr>sk_server_outbuf := sk_server_outbuf s @ out\<rparr>))"

definition send_client_hello :: "socks_codec \<Rightarrow> socks \<Rightarrow> socks result" where
  "send_client_hello C s = rbind
     (case sk_version s of SocksV4 \<Rightarrow> send_client_hello_socks4 C s | SocksV5 \<Rightarrow> send_client_hello_socks5 C s)
     (\<lambda>s'. Inr (s'\<lparr>sk_state := ServerHello\<rparr>))"

definition socks_new ::
  "socks_codec \<Rightarrow> socket_addr \<Rightarrow> session_info \<Rightarrow> string option \<Rightarrow> user_key option \<Rightarrow> socks_version
   \<Rightarrow> socks_command \<Rightarrow> socks result" where
  "socks_new C server i domain cred ver cmd = send_client_hello C
     \<lparr>sk_server_addr = server, sk_info = i, sk_domain_name = domain, sk_state = ClientHello,
      sk_client_inbuf = [], sk_server_inbuf = [], sk_client_outbuf = [], sk_server_outbuf = [],
      sk_version = ver, sk_credentials = cred, sk_command = cmd, sk_udp_associate = None\<rparr>"

definition receive_server_hello_socks4 :: "socks \<Rightarrow> step_result" where
  "receive_server_hello_socks4 s =
     (if length (sk_server_inbuf s) < 8 then Done (Inr ()) s
      else if sk_server_inbuf s ! 1 \<noteq> 0x5a
        then Done (Inl (IoError OtherKind ''SOCKS4 server replied with an unexpected reply code.'')) s
      else Again (s\<lparr>sk_server_inbuf := drop 8 (sk_server_inbuf s), sk_state := SocksEstablished\<rparr>))"

definition receive_server_hello_socks5 :: "socks_codec \<Rightarrow> socks \<Rightarrow> step_result" where
  "receive_server_hello_socks5 C s = (case sc_hello_read C (sk_server_inbuf s) of
     Inl e \<Rightarrow> if io_kind e = UnexpectedEof then Done (Inr ()) s else Done (Inl e) s
   | Inr (auth_method, len) \<Rightarrow>
       (let s1 = s\<lparr>sk_server_inbuf := drop len (sk_server_inbuf s)\<rparr> in
        if auth_method \<noteq> sc_no_auth C \<and> sk_credentials s = None
           \<or> auth_method \<noteq> sc_no_auth C \<and> auth_method \<noteq> sc_user_pass C \<and> sk_credentials s \<noteq> None
        then Done (Inl (IoError OtherKind
               ''SOCKS5 server requires an unsupported authentication method.'')) s1
        else Again (s1\<lparr>sk_state := (if auth_method = sc_user_pass C then SendAuthData else SendRequest)\<rparr>)))"

definition receive_server_hello :: "socks_codec \<Rightarrow> socks \<Rightarrow> step_result" where
  "receive_server_hello C s = (case sk_version s of
     SocksV4 \<Rightarrow> receive_server_hello_socks4 s | SocksV5 \<Rightarrow> receive_server_hello_socks5 C s)"

definition info_marker :: string where
  "info_marker = ''+info''"

definition auth_username :: "socks \<Rightarrow> string \<Rightarrow> string" where
  "auth_username s name =
     (if length info_marker \<le> length name \<and> drop (length name - length info_marker) name = info_marker
      then take (length name - length info_marker) name @ ''|''
           @ (case sk_command s of Connect \<Rightarrow> ''tcp'' | UdpAssociate \<Rightarrow> ''udp'' | _ \<Rightarrow> ''unknown'') @ ''|''
           @ ip_text (sa_ip (src (sk_info s))) @ ''|'' @ decimal (unat (sa_port (src (sk_info s))))
      else name)"

definition send_auth_data :: "socks_codec \<Rightarrow> socks \<Rightarrow> step_result" where
  "send_auth_data C s =
     (let cred = (case sk_credentials s of None \<Rightarrow> \<lparr>username = [], password = []\<rparr> | Some c \<Rightarrow> c) in
      case sc_auth C (auth_username s (username cred)) (password cred) of
        Inl e \<Rightarrow> Done (Inl e) s
      | Inr out \<Rightarrow> Done (Inr ()) (s\<lparr>sk_server_outbuf := sk_server_outbuf s @ out,
                                     sk_state := ReceiveAuthResponse\<rparr>))"

definition receive_auth_data :: "socks_codec \<Rightarrow> socks \<Rightarrow> step_result" where
  "receive_auth_data C s = (case sc_auth_read C (sk_server_inbuf s) of
     Inl e \<Rightarrow> if io_kind e = UnexpectedEof then Done (Inr ()) s else Done (Inl e) s
   | Inr (failure, len) \<Rightarrow>
       (let s1 = s\<lparr>sk_server_inbuf := drop len (sk_server_inbuf s)\<rparr> in
        case failure of
          Some status \<Rightarrow> Done (Inl (IoError OtherKind (''SOCKS authentication failed: '' @ status))) s1
        | None \<Rightarrow> Again (s1\<lparr>sk_state := SendRequest\<rparr>)))"

definition request_address :: "socks_codec \<Rightarrow> socks \<Rightarrow> address" where
  "request_address C s =
     (if sk_command s = UdpAssociate then sc_unspecified_v4 C
      else case sk_domain_name s of
          Some d \<Rightarrow> DomainAddress d (sa_port (dst (sk_info s)))
        | None \<Rightarrow> SocketAddress (dst (sk_info s)))"

definition send_request_socks5 :: "socks_codec \<Rightarrow> socks \<Rightarrow> step_result" where
  "send_request_socks5 C s = (case sc_request C (sk_command s) (request_address C s) of
     Inl e \<Rightarrow> Done (Inl e) s
   | Inr out \<Rightarrow> Done (Inr ()) (s\<lparr>sk_server_outbuf := sk_server_outbuf s @ out,
                                  sk_state := ReceiveResponse\<rparr>))"

definition receive_connection_status :: "socks_codec \<Rightarrow> socks \<Rightarrow> step_result" where
  "receive_connection_status C s = (case sc_reply_read C (sk_server_inbuf s) of
     Inl e \<Rightarrow> if io_kind e = UnexpectedEof then Done (Inr ()) s else Done (Inl e) s
   | Inr ((failure, addr), len) \<Rightarrow>
       (let s1 = s\<lparr>sk_server_inbuf := drop len (sk_server_inbuf s)\<rparr> in
        case failure of
          Some reply \<Rightarrow> Done (Inl (IoError OtherKind (''SOCKS connection failed: '' @ reply))) s1
        | None \<Rightarrow> if sk_command s = UdpAssociate then
          (case sc_socket_addr C addr of
             Inl e \<Rightarrow> Done (Inl e) s1
           | Inr sa \<Rightarrow> Again (s1\<lparr>sk_udp_associate := Some sa, sk_state := SocksEstablished\<rparr>))
        else Again (s1\<lparr>sk_state := SocksEstablished\<rparr>)))"

definition relay_traffic :: "socks \<Rightarrow> step_result" where
  "relay_traffic s = Done (Inr ()) (s\<lparr>
     sk_client_outbuf := sk_client_outbuf s @ sk_server_inbuf s,
     sk_server_outbuf := sk_server_outbuf s @ sk_client_inbuf s,
     sk_server_inbuf := [], sk_client_inbuf := []\<rparr>)"

definition dispatch :: "socks_codec \<Rightarrow> socks \<Rightarrow> step_result" where
  "dispatch C s = (case sk_state s of
     ServerHello \<Rightarrow> receive_server_hello C s
   | SendAuthData \<Rightarrow> send_auth_data C s
   | ReceiveAuthResponse \<Rightarrow> receive_auth_data C s
   | SendRequest \<Rightarrow> send_request_socks5 C s
   | ReceiveResponse \<Rightarrow> receive_connection_status C s
   | SocksEstablished \<Rightarrow> relay_traffic s
   | ClientHello \<Rightarrow> Done (Inr ()) s)"

definition state_rank :: "socks_state \<Rightarrow> nat" where
  "state_rank st = (case st of ClientHello \<Rightarrow> 6 | ServerHello \<Rightarrow> 5 | SendAuthData \<Rightarrow> 4
     | ReceiveAuthResponse \<Rightarrow> 3 | SendRequest \<Rightarrow> 2 | ReceiveResponse \<Rightarrow> 1 | SocksEstablished \<Rightarrow> 0)"

lemma dispatch_rank: "dispatch C s = Again s' \<Longrightarrow> state_rank (sk_state s') < state_rank (sk_state s)"
  by (auto simp: dispatch_def receive_server_hello_def receive_server_hello_socks4_def
      receive_server_hello_socks5_def send_auth_data_def receive_auth_data_def send_request_socks5_def
      receive_connection_status_def relay_traffic_def state_rank_def Let_def
      split: socks_state.splits socks_version.splits sum.splits option.splits prod.splits if_splits)

function state_change :: "socks_codec \<Rightarrow> socks \<Rightarrow> unit io_result \<times> socks" where
  "state_change C s = (case dispatch C s of Done r s' \<Rightarrow> (r, s') | Again s' \<Rightarrow> state_change C s')"
  by pat_completeness auto
termination
  by (relation "measure (\<lambda>(C, s). state_rank (sk_state s))") (auto simp: dispatch_rank)

declare state_change.simps [simp del]

section \<open>The trait implementation\<close>

definition socks_push ::
  "socks_codec \<Rightarrow> incoming_direction \<Rightarrow> bytes \<Rightarrow> socks \<Rightarrow> unit io_result \<times> socks" where
  "socks_push C d buffer s = state_change C (case d of
     FromServer \<Rightarrow> s\<lparr>sk_server_inbuf := sk_server_inbuf s @ buffer\<rparr>
   | FromClient \<Rightarrow> s\<lparr>sk_client_inbuf := sk_client_inbuf s @ buffer\<rparr>)"

definition socks_consume :: "outgoing_direction \<Rightarrow> nat \<Rightarrow> socks \<Rightarrow> socks option" where
  "socks_consume d n s = (case d of
     ToServer \<Rightarrow> map_option (\<lambda>b. s\<lparr>sk_server_outbuf := b\<rparr>) (drain n (sk_server_outbuf s))
   | ToClient \<Rightarrow> map_option (\<lambda>b. s\<lparr>sk_client_outbuf := b\<rparr>) (drain n (sk_client_outbuf s)))"

definition socks_peek :: "outgoing_direction \<Rightarrow> socks \<Rightarrow> bytes" where
  "socks_peek d s = (case d of ToServer \<Rightarrow> sk_server_outbuf s | ToClient \<Rightarrow> sk_client_outbuf s)"

definition socks_established :: "socks \<Rightarrow> bool" where
  "socks_established s = (sk_state s = SocksEstablished)"

definition socks_data_len :: "outgoing_direction \<Rightarrow> socks \<Rightarrow> nat" where
  "socks_data_len d s = (case d of ToServer \<Rightarrow> length (sk_server_outbuf s)
                                 | ToClient \<Rightarrow> length (sk_client_outbuf s))"

definition socks_ops :: "socks_codec \<Rightarrow> socks handler_ops" where
  "socks_ops C = \<lparr>h_push = (\<lambda>d buffer s. Some (socks_push C d buffer s)), h_consume = socks_consume, h_peek = socks_peek,
     h_established = socks_established, h_data_len = socks_data_len, h_reset = (\<lambda>_. False),
     h_server_addr = sk_server_addr, h_session_info = sk_info, h_domain_name = sk_domain_name,
     h_udp_associate = sk_udp_associate\<rparr>"

definition new_socks_handler ::
  "socks_codec \<Rightarrow> socket_addr \<Rightarrow> user_key option \<Rightarrow> socks_version \<Rightarrow> session_info \<Rightarrow> string option \<Rightarrow> bool
   \<Rightarrow> socks io_result" where
  "new_socks_handler C server cred ver i domain udp_associate = error_into_io_result
     (socks_new C server i domain cred ver (if udp_associate then UdpAssociate else Connect))"

section \<open>The pass-through handler\<close>

record no_proxy =
  np_info :: session_info
  np_domain_name :: "string option"
  np_client_outbuf :: bytes
  np_server_outbuf :: bytes
  np_udp_associate :: bool

definition no_proxy_push :: "incoming_direction \<Rightarrow> bytes \<Rightarrow> no_proxy \<Rightarrow> unit io_result \<times> no_proxy" where
  "no_proxy_push d buffer s = (Inr (), case d of
     FromServer \<Rightarrow> s\<lparr>np_client_outbuf := np_client_outbuf s @ buffer\<rparr>
   | FromClient \<Rightarrow> s\<lparr>np_server_outbuf := np_server_outbuf s @ buffer\<rparr>)"

definition no_proxy_consume :: "outgoing_direction \<Rightarrow> nat \<Rightarrow> no_proxy \<Rightarrow> no_proxy option" where
  "no_proxy_consume d n s = (case d of
     ToServer \<Rightarrow> map_option (\<lambda>b. s\<lparr>np_server_outbuf := b\<rparr>) (drain n (np_server_outbuf s))
   | ToClient \<Rightarrow> map_option (\<lambda>b. s\<lparr>np_client_outbuf := b\<rparr>) (drain n (np_client_outbuf s)))"

definition no_proxy_peek :: "outgoing_direction \<Rightarrow> no_proxy \<Rightarrow> bytes" where
  "no_proxy_peek d s = (case d of ToServer \<Rightarrow> np_server_outbuf s | ToClient \<Rightarrow> np_client_outbuf s)"

definition no_proxy_udp_associate :: "no_proxy \<Rightarrow> socket_addr option" where
  "no_proxy_udp_associate s = (if np_udp_associate s then Some (dst (np_info s)) else None)"

definition no_proxy_ops :: "no_proxy handler_ops" where
  "no_proxy_ops = \<lparr>h_push = (\<lambda>d buffer s. Some (no_proxy_push d buffer s)), h_consume = no_proxy_consume, h_peek = no_proxy_peek,
     h_established = (\<lambda>_. True), h_data_len = (\<lambda>d s. length (no_proxy_peek d s)), h_reset = (\<lambda>_. False),
     h_server_addr = (\<lambda>s. dst (np_info s)), h_session_info = np_info, h_domain_name = np_domain_name,
     h_udp_associate = no_proxy_udp_associate\<rparr>"

definition no_proxy_new :: "session_info \<Rightarrow> string option \<Rightarrow> bool \<Rightarrow> no_proxy" where
  "no_proxy_new i domain udp_associate =
     \<lparr>np_info = i, np_domain_name = domain, np_client_outbuf = [], np_server_outbuf = [],
      np_udp_associate = udp_associate\<rparr>"

section \<open>The contract of the trait\<close>

lemmas step_defs = receive_server_hello_def receive_server_hello_socks4_def
  receive_server_hello_socks5_def send_auth_data_def receive_auth_data_def send_request_socks5_def
  receive_connection_status_def relay_traffic_def

definition socks_inv :: "socks \<Rightarrow> bool" where
  "socks_inv s = (sk_state s = SocksEstablished \<longrightarrow> sk_server_inbuf s = [] \<and> sk_client_inbuf s = [])"

lemma dispatch_done_inv: "dispatch C s = Done r s' \<Longrightarrow> socks_inv s'"
  by (auto simp: dispatch_def step_defs socks_inv_def Let_def
      split: socks_state.splits socks_version.splits sum.splits prod.splits option.splits if_splits)

lemma state_change_inv: "socks_inv (snd (state_change C s))"
proof (induction C s rule: state_change.induct)
  case (1 C s)
  then show ?case
    by (subst state_change.simps) (auto dest: dispatch_done_inv split: step_result.splits)
qed

lemma state_change_established:
  "sk_state s = SocksEstablished \<Longrightarrow> state_change C s = (Inr (), s\<lparr>
     sk_client_outbuf := sk_client_outbuf s @ sk_server_inbuf s,
     sk_server_outbuf := sk_server_outbuf s @ sk_client_inbuf s,
     sk_server_inbuf := [], sk_client_inbuf := []\<rparr>)"
  by (subst state_change.simps) (simp add: dispatch_def relay_traffic_def)

lemma socks_ops_simps [simp]:
  "h_push (socks_ops C) = (\<lambda>d buffer s. Some (socks_push C d buffer s))" "h_consume (socks_ops C) = socks_consume"
  "h_peek (socks_ops C) = socks_peek" "h_established (socks_ops C) = socks_established"
  "h_udp_associate (socks_ops C) = sk_udp_associate"
  by (simp_all add: socks_ops_def)

interpretation sk: total_proxy_handler "socks_ops C" socks_inv for C
proof unfold_locales
  fix n d h
  assume "n \<le> length (h_peek (socks_ops C) d h)"
  then show "\<exists>h'. h_consume (socks_ops C) d n h = Some h'
      \<and> h_peek (socks_ops C) d h' = drop n (h_peek (socks_ops C) d h)
      \<and> (\<forall>d'. d' \<noteq> d \<longrightarrow> h_peek (socks_ops C) d' h' = h_peek (socks_ops C) d' h)
      \<and> h_established (socks_ops C) h' = h_established (socks_ops C) h
      \<and> h_udp_associate (socks_ops C) h' = h_udp_associate (socks_ops C) h \<and> (socks_inv h \<longrightarrow> socks_inv h')"
    by (cases d) (auto simp: socks_consume_def socks_peek_def drain_def socks_established_def socks_inv_def
        split: outgoing_direction.splits)
next
  fix h i data
  assume "socks_inv h" "h_established (socks_ops C) h"
  then show "\<exists>h'. h_push (socks_ops C) i data h = Some (Inr (), h') \<and> socks_inv h'
      \<and> h_established (socks_ops C) h'
      \<and> h_peek (socks_ops C) (forward i) h' = h_peek (socks_ops C) (forward i) h @ data
      \<and> (\<forall>d. d \<noteq> forward i \<longrightarrow> h_peek (socks_ops C) d h' = h_peek (socks_ops C) d h)"
    by (cases i) (auto simp: socks_push_def socks_established_def socks_inv_def forward_def socks_peek_def
        state_change_established split: outgoing_direction.splits)
next
  fix h i data r h'
  assume "socks_inv h" "h_push (socks_ops C) i data h = Some (r, h')"
  then show "socks_inv h'" using state_change_inv by (auto simp: socks_push_def) (metis snd_conv)
next
  fix i data h
  show "h_push (socks_ops C) i data h \<noteq> None" by simp
qed

lemma no_proxy_udp_associate_update [simp]:
  "no_proxy_udp_associate (s\<lparr>np_server_outbuf := b\<rparr>) = no_proxy_udp_associate s"
  "no_proxy_udp_associate (s\<lparr>np_client_outbuf := b\<rparr>) = no_proxy_udp_associate s"
  by (simp_all add: no_proxy_udp_associate_def)

interpretation np: total_proxy_handler no_proxy_ops "\<lambda>_. True"
  by unfold_locales
    (auto simp: no_proxy_ops_def no_proxy_consume_def no_proxy_peek_def no_proxy_push_def drain_def
      forward_def split: outgoing_direction.splits incoming_direction.splits)

section \<open>Messages that arrive in pieces\<close>

text \<open>
  What the source relies on of a decoder: it reads a message whatever follows it, and reports an
  unexpected end of input on every proper prefix.
\<close>

definition reads_as :: "(bytes \<Rightarrow> ('a \<times> nat) io_result) \<Rightarrow> bytes \<Rightarrow> 'a \<Rightarrow> bool" where
  "reads_as rd msg v = (msg \<noteq> [] \<and> (\<forall>rest. rd (msg @ rest) = Inr (v, length msg))
     \<and> (\<forall>q. strict_prefix q msg \<longrightarrow> (\<exists>e. rd q = Inl e \<and> io_kind e = UnexpectedEof)))"

lemma outbuf_empty [simp]: "sk_server_outbuf s = [] \<Longrightarrow> s\<lparr>sk_server_outbuf := []\<rparr> = s"
  by (cases s) simp

lemma inbuf_empty:
  "sk_server_inbuf s = [] \<Longrightarrow> s\<lparr>sk_server_inbuf := [], sk_state := x\<rparr> = s\<lparr>sk_state := x\<rparr>"
  by (cases s) simp

lemma loop_chunk:
  assumes "sk_state s \<noteq> SocksEstablished" "c \<noteq> []"
    and "state_change C (s\<lparr>sk_server_inbuf := sk_server_inbuf s @ c\<rparr>) = (Inr (), s')"
  shows "proxy_session_loop (socks_ops C) writes_succeed (Inr c # es) s w
    = proxy_session_loop (socks_ops C) writes_succeed es (s'\<lparr>sk_server_outbuf := []\<rparr>) (w @ sk_server_outbuf s')"
  using assms
  by (subst proxy_session_loop.simps)
    (simp add: socks_established_def socks_push_def socks_peek_def flush_to_server_def writes_succeed_def
      socks_consume_def drain_def)

lemma phase:
  assumes "sk_state s \<noteq> SocksEstablished" "sk_server_outbuf s = []"
    and wait: "\<And>q. strict_prefix q m \<Longrightarrow>
      state_change C (s\<lparr>sk_server_inbuf := q\<rparr>) = (Inr (), s\<lparr>sk_server_inbuf := q\<rparr>)"
    and fire: "\<And>q. state_change C (s\<lparr>sk_server_inbuf := m @ q\<rparr>) = (Inr (), f q)"
    and "strict_prefix (sk_server_inbuf s) m" "[] \<notin> set cs" "sk_server_inbuf s @ concat cs = m @ app"
  shows "\<exists>q rest. q @ concat rest = app \<and> [] \<notin> set rest
    \<and> proxy_session_loop (socks_ops C) writes_succeed (map Inr cs @ es) s w
      = proxy_session_loop (socks_ops C) writes_succeed (map Inr rest @ es) ((f q)\<lparr>sk_server_outbuf := []\<rparr>)
          (w @ sk_server_outbuf (f q))"
  using assms
proof (induction cs arbitrary: s)
  case Nil
  then show ?case by (auto simp: strict_prefix_def prefix_def)
next
  case (Cons c cs)
  let ?b = "sk_server_inbuf s @ c"
  have eq: "?b @ concat cs = m @ app" and c: "c \<noteq> []" using Cons.prems by auto
  show ?case
  proof (cases "strict_prefix ?b m")
    case True
    have "proxy_session_loop (socks_ops C) writes_succeed (map Inr (c # cs) @ es) s w
        = proxy_session_loop (socks_ops C) writes_succeed (map Inr cs @ es) (s\<lparr>sk_server_inbuf := ?b\<rparr>) w"
      using loop_chunk [OF Cons.prems(1) c Cons.prems(3) [OF True]] Cons.prems(2) by simp
    then show ?thesis
      using Cons.IH [of "s\<lparr>sk_server_inbuf := ?b\<rparr>"] Cons.prems True eq by simp
  next
    case False
    then obtain q where q: "?b = m @ q"
      using eq by (metis append_eq_append_conv2 prefixI strict_prefixI append_Nil2)
    then have "q @ concat cs = app" using eq by simp
    moreover have "proxy_session_loop (socks_ops C) writes_succeed (map Inr (c # cs) @ es) s w
        = proxy_session_loop (socks_ops C) writes_succeed (map Inr cs @ es) ((f q)\<lparr>sk_server_outbuf := []\<rparr>)
            (w @ sk_server_outbuf (f q))"
      using loop_chunk [OF Cons.prems(1) c] Cons.prems(4) [of q] q by simp
    ultimately show ?thesis using Cons.prems(6) by auto
  qed
qed

lemma nothing_left: "q @ concat rest = [] \<Longrightarrow> [] \<notin> set rest \<Longrightarrow> q = [] \<and> rest = []"
  by (cases rest) auto

lemma phase_exact:
  assumes "sk_state s \<noteq> SocksEstablished" "sk_server_outbuf s = []"
    and "\<And>q. strict_prefix q m \<Longrightarrow>
      state_change C (s\<lparr>sk_server_inbuf := q\<rparr>) = (Inr (), s\<lparr>sk_server_inbuf := q\<rparr>)"
    and "\<And>q. state_change C (s\<lparr>sk_server_inbuf := m @ q\<rparr>) = (Inr (), f q)"
    and "strict_prefix (sk_server_inbuf s) m" "[] \<notin> set cs" "sk_server_inbuf s @ concat cs = m"
  shows "proxy_session_loop (socks_ops C) writes_succeed (map Inr cs @ es) s w
    = proxy_session_loop (socks_ops C) writes_succeed es ((f [])\<lparr>sk_server_outbuf := []\<rparr>) (w @ sk_server_outbuf (f []))"
proof -
  obtain q rest where *: "q @ concat rest = []" "[] \<notin> set rest"
    "proxy_session_loop (socks_ops C) writes_succeed (map Inr cs @ es) s w
      = proxy_session_loop (socks_ops C) writes_succeed (map Inr rest @ es) ((f q)\<lparr>sk_server_outbuf := []\<rparr>)
          (w @ sk_server_outbuf (f q))"
    using phase [of s m C f cs "[]" es w, OF assms(1-6)] assms(7) by auto
  show ?thesis using *(3) nothing_left [OF *(1,2)] by simp
qed

section \<open>Phases of the handshake\<close>

lemma established_hands_over:
  assumes "sk_state s = SocksEstablished" "socks_inv s" "sk_server_outbuf s = []"
    and "sk_client_outbuf s @ concat rest = app" "sk_udp_associate s = udp"
  shows "handed_over (socks_ops C) socks_inv (proxy_session_loop (socks_ops C) writes_succeed (map Inr rest) s w) udp w app"
  using assms by (subst proxy_session_loop.simps)
    (auto simp: handed_over_def socks_established_def socks_peek_def)

lemma reads_asD:
  assumes "reads_as rd m v"
  shows "strict_prefix [] m" "rd (m @ q) = Inr (v, length m)"
    and "strict_prefix q m \<Longrightarrow> \<exists>e. rd q = Inl e \<and> io_kind e = UnexpectedEof"
  using assms by (auto simp: reads_as_def strict_prefix_def)

lemma request_address_update [simp]:
  "request_address C (s\<lparr>sk_server_inbuf := b\<rparr>) = request_address C s"
  "request_address C (s\<lparr>sk_server_outbuf := b\<rparr>) = request_address C s"
  "request_address C (s\<lparr>sk_state := st\<rparr>) = request_address C s"
  by (simp_all add: request_address_def cong: option.case_cong split: option.split)

lemma auth_username_update [simp]:
  "auth_username (s\<lparr>sk_server_inbuf := b\<rparr>) n = auth_username s n"
  "auth_username (s\<lparr>sk_server_outbuf := b\<rparr>) n = auth_username s n"
  "auth_username (s\<lparr>sk_state := st\<rparr>) n = auth_username s n"
  by (simp_all add: auth_username_def split: socks_command.split)

lemma state_change_request:
  "sk_state s = SendRequest \<Longrightarrow> sc_request C (sk_command s) (request_address C s) = Inr out \<Longrightarrow>
   state_change C s = (Inr (), s\<lparr>sk_server_outbuf := sk_server_outbuf s @ out, sk_state := ReceiveResponse\<rparr>)"
  by (subst state_change.simps) (simp add: dispatch_def send_request_socks5_def)


lemma reply_phase:
  assumes st: "sk_state s = ReceiveResponse" "sk_server_outbuf s = []" "sk_server_inbuf s = []"
      "sk_client_inbuf s = []" "sk_client_outbuf s = []" "sk_udp_associate s = None"
    and rd: "reads_as (sc_reply_read C) m (None, a)"
    and sa: "sc_socket_addr C a = Inr sa"
    and cs: "[] \<notin> set cs" "concat cs = m @ app"
  shows "handed_over (socks_ops C) socks_inv (proxy_session_loop (socks_ops C) writes_succeed (map Inr cs) s w)
    (if sk_command s = UdpAssociate then Some sa else None) w app"
proof -
  let ?udp = "if sk_command s = UdpAssociate then Some sa else None"
  let ?f = "\<lambda>q. s\<lparr>sk_server_inbuf := [], sk_client_outbuf := q, sk_state := SocksEstablished,
      sk_udp_associate := ?udp\<rparr>"
  have wait: "state_change C (s\<lparr>sk_server_inbuf := q\<rparr>) = (Inr (), s\<lparr>sk_server_inbuf := q\<rparr>)"
    if "strict_prefix q m" for q
    using reads_asD(3) [OF rd that] st
    by (subst state_change.simps) (auto simp: dispatch_def receive_connection_status_def)
  have fire: "state_change C (s\<lparr>sk_server_inbuf := m @ q\<rparr>) = (Inr (), ?f q)" for q
    using st sa by (subst state_change.simps)
      (simp add: dispatch_def receive_connection_status_def reads_asD(2) [OF rd] state_change_established)
  obtain q rest where "q @ concat rest = app" and run:
    "proxy_session_loop (socks_ops C) writes_succeed (map Inr cs @ []) s w
      = proxy_session_loop (socks_ops C) writes_succeed (map Inr rest @ []) ((?f q)\<lparr>sk_server_outbuf := []\<rparr>)
          (w @ sk_server_outbuf (?f q))"
    using phase [of s m C ?f cs app "[]" w, OF _ st(2) wait fire] reads_asD(1) [OF rd] st cs by auto
  then have "handed_over (socks_ops C) socks_inv (proxy_session_loop (socks_ops C) writes_succeed (map Inr rest) (?f q) w) ?udp w app"
    using st by (intro established_hands_over) (auto simp: socks_inv_def)
  then show ?thesis using run st(2) by simp
qed


lemma hello_phase:
  assumes st: "sk_state s = ServerHello" "sk_version s = SocksV5" "sk_server_outbuf s = []"
      "sk_server_inbuf s = []"
    and rd: "reads_as (sc_hello_read C) m meth"
    and nx: "\<And>q. state_change C (s\<lparr>sk_server_inbuf := q,
        sk_state := (if meth = sc_user_pass C then SendAuthData else SendRequest)\<rparr>)
      = (Inr (), s\<lparr>sk_server_inbuf := q, sk_server_outbuf := out, sk_state := nxt\<rparr>)"
    and ok: "meth = sc_no_auth C \<or> meth = sc_user_pass C \<and> sk_credentials s \<noteq> None"
    and cs: "[] \<notin> set cs" "concat cs = m"
  shows "proxy_session_loop (socks_ops C) writes_succeed (map Inr cs @ es) s w
    = proxy_session_loop (socks_ops C) writes_succeed es (s\<lparr>sk_state := nxt\<rparr>) (w @ out)"
proof -
  let ?f = "\<lambda>q. s\<lparr>sk_server_inbuf := q, sk_server_outbuf := out, sk_state := nxt\<rparr>"
  have wait: "state_change C (s\<lparr>sk_server_inbuf := q\<rparr>) = (Inr (), s\<lparr>sk_server_inbuf := q\<rparr>)"
    if "strict_prefix q m" for q
    using reads_asD(3) [OF rd that] st
    by (subst state_change.simps) (auto simp: dispatch_def receive_server_hello_def receive_server_hello_socks5_def)
  have "dispatch C (s\<lparr>sk_server_inbuf := m @ q\<rparr>) = Again (s\<lparr>sk_server_inbuf := q,
      sk_state := (if meth = sc_user_pass C then SendAuthData else SendRequest)\<rparr>)" for q
    using st ok by (auto simp: dispatch_def receive_server_hello_def receive_server_hello_socks5_def
        reads_asD(2) [OF rd])
  then have fire: "state_change C (s\<lparr>sk_server_inbuf := m @ q\<rparr>) = (Inr (), ?f q)" for q
    using nx by (subst state_change.simps) simp
  show ?thesis
    using phase_exact [of s m C ?f cs es w, OF _ st(3) wait fire] reads_asD(1) [OF rd] st cs
    by (simp add: inbuf_empty)
qed

text \<open>The handler as \<^verbatim>\<open>new_proxy_handler\<close> returns it, and after its first flush.\<close>

lemma new_socks5_handler:
  assumes "new_socks_handler C server cred SocksV5 i domain udp = Inr h"
  shows "sk_state h = ServerHello" "sk_version h = SocksV5" "sk_server_inbuf h = []" "sk_client_inbuf h = []"
    "sk_client_outbuf h = []" "sk_udp_associate h = None" "sk_credentials h = cred"
    "sk_command h = (if udp then UdpAssociate else Connect)"
  using assms by (auto simp: new_socks_handler_def error_into_io_result_def socks_new_def send_client_hello_def
      send_client_hello_socks5_def rbind_def Let_def split: sum.splits)

lemma session_start:
  assumes "sk_state h \<noteq> SocksEstablished" "sk_server_outbuf h \<noteq> []"
  shows "handle_proxy_session (socks_ops C) writes_succeed es h
    = proxy_session_loop (socks_ops C) writes_succeed es (h\<lparr>sk_server_outbuf := []\<rparr>) (sk_server_outbuf h)"
  using assms by (simp add: handle_proxy_session_def flush_to_server_def writes_succeed_def socks_established_def
      socks_peek_def socks_consume_def drain_def)

section \<open>Correctness of the handshakes\<close>

definition demo_socks :: socks_codec where
  "demo_socks = \<lparr>sc_v4 = 4, sc_connect = 1, sc_no_auth = 0, sc_user_pass = 2,
     sc_unspecified_v4 = SocketAddress (SocketAddr (V4 0) 0),
     sc_hello = (\<lambda>ms. Inr (5 # of_nat (length ms) # ms)),
     sc_hello_read = (\<lambda>b. case b of v # m # _ \<Rightarrow> Inr (m, 2) | _ \<Rightarrow> Inl (IoError UnexpectedEof [])),
     sc_auth = (\<lambda>u p. Inr (1 # of_nat (length u) # string_bytes u @ of_nat (length p) # string_bytes p)),
     sc_auth_read = (\<lambda>b. case b of v # st # _ \<Rightarrow> Inr (if st = 0 then None else Some ''Failed'', 2)
        | _ \<Rightarrow> Inl (IoError UnexpectedEof [])),
     sc_request = (\<lambda>c a. Inr [5, (case c of Connect \<Rightarrow> 1 | Bind \<Rightarrow> 2 | UdpAssociate \<Rightarrow> 3), 0]),
     sc_reply_read = (\<lambda>b. case b of v # st # _ \<Rightarrow>
          Inr ((if st = 0 then None else Some ''General failure'', SocketAddress (SocketAddr (V4 0) 0)), 2)
        | _ \<Rightarrow> Inl (IoError UnexpectedEof [])),
     sc_socket_addr = (\<lambda>a. case a of SocketAddress sa \<Rightarrow> Inr sa | _ \<Rightarrow> Inl (IoError OtherKind []))\<rparr>"

definition demo_socks_info :: session_info where
  "demo_socks_info = \<lparr>src = SocketAddr (V4 1) 5000, dst = SocketAddr (V4 2) 80, protocol = Tcp, session_id = 0\<rparr>"

definition demo_socks_handler :: "user_key option \<Rightarrow> socks" where
  "demo_socks_handler cred = \<lparr>sk_server_addr = SocketAddr (V4 9) 1080, sk_info = demo_socks_info,
     sk_domain_name = None, sk_state = ServerHello, sk_client_inbuf = [], sk_server_inbuf = [],
     sk_client_outbuf = [],
     sk_server_outbuf = (if cred = None then [5, 3, 0, 4, 100] else [5, 4, 0, 4, 100, 2]),
     sk_version = SocksV5, sk_credentials = cred, sk_command = Connect, sk_udp_associate = None\<rparr>"

lemma demo_socks_new:
  "new_socks_handler demo_socks (SocketAddr (V4 9) 1080) cred SocksV5 demo_socks_info None False
    = Inr (demo_socks_handler cred)"
  by (auto simp: new_socks_handler_def error_into_io_result_def socks_new_def send_client_hello_def
      send_client_hello_socks5_def demo_socks_def demo_socks_handler_def)

lemma demo_socks_codes: "sc_v4 demo_socks = 4" "sc_connect demo_socks = 1"
  by (simp_all add: demo_socks_def)

lemma demo_socks_dst:
  "is_ipv4 (sa_ip (dst demo_socks_info))" "to_be_bytes (sa_port (dst demo_socks_info)) = [0, 80]"
  by (simp_all add: demo_socks_info_def, code_simp)

lemma demo_established:
  "socks_inv ((demo_socks_handler c)\<lparr>sk_state := SocksEstablished\<rparr>)"
  "socks_established ((demo_socks_handler c)\<lparr>sk_state := SocksEstablished\<rparr>)"
  "socks_peek ToClient ((demo_socks_handler c)\<lparr>sk_state := SocksEstablished\<rparr>) = []"
  by (simp_all add: socks_inv_def socks_established_def socks_peek_def demo_socks_handler_def)

lemma two_octet_prefix: "strict_prefix q [a, b] \<longleftrightarrow> q = [] \<or> q = [a]"
  by (auto simp: strict_prefix_def prefix_Cons)

lemma demo_socks_reads:
  "reads_as (sc_hello_read demo_socks) [5, m] m"
  "reads_as (sc_auth_read demo_socks) [1, 0] None"
  "reads_as (sc_reply_read demo_socks) [5, 0] (None, SocketAddress (SocketAddr (V4 0) 0))"
  by (auto simp: reads_as_def demo_socks_def two_octet_prefix)

text \<open>
  C16. SOCKS5 without authentication.  However the server's greeting and reply are cut into reads, the
  session sends the greeting and then exactly one request, is established, and hands over every octet
  that follows the reply: what the handler holds for the client and what is still unread is the
  application data, no more and no less.
\<close>

theorem socks5_handshake:
  assumes "new_socks_handler C server cred SocksV5 i domain udp = Inr h" "socks_peek ToServer h \<noteq> []"
    and "reads_as (sc_hello_read C) m1 (sc_no_auth C)" "sc_no_auth C \<noteq> sc_user_pass C"
    and "sc_request C (sk_command h) (request_address C h) = Inr req"
    and "reads_as (sc_reply_read C) m2 (None, a)" "sc_socket_addr C a = Inr sa"
    and "[] \<notin> set cs1" "concat cs1 = m1" "[] \<notin> set cs2" "concat cs2 = m2 @ app"
  shows "handed_over (socks_ops C) socks_inv (handle_proxy_session (socks_ops C) writes_succeed (map Inr (cs1 @ cs2)) h)
    (if udp then Some sa else None) (socks_peek ToServer h @ req) app"
proof -
  note h = new_socks5_handler [OF assms(1)]
  let ?s = "h\<lparr>sk_server_outbuf := []\<rparr>"
  have "proxy_session_loop (socks_ops C) writes_succeed (map Inr cs1 @ map Inr cs2) ?s (sk_server_outbuf h)
      = proxy_session_loop (socks_ops C) writes_succeed (map Inr cs2) (?s\<lparr>sk_state := ReceiveResponse\<rparr>)
          (sk_server_outbuf h @ req)"
    using h assms(3-5,8,9) by (intro hello_phase) (auto simp: state_change_request)
  moreover have "handed_over (socks_ops C) socks_inv (proxy_session_loop (socks_ops C) writes_succeed (map Inr cs2)
      (?s\<lparr>sk_state := ReceiveResponse\<rparr>) (sk_server_outbuf h @ req))
      (if sk_command (?s\<lparr>sk_state := ReceiveResponse\<rparr>) = UdpAssociate then Some sa else None)
      (sk_server_outbuf h @ req) app"
    using h assms(6,7,10,11) by (intro reply_phase) auto
  ultimately show ?thesis using h assms(2) by (simp add: session_start socks_peek_def split: if_splits)
qed

theorem socks5_handshake_witness:
  "handed_over (socks_ops demo_socks) socks_inv (handle_proxy_session (socks_ops demo_socks) writes_succeed
     (map Inr ([[5], [0]] @ [[5], [0, 7], [8]])) (demo_socks_handler None))
     None ([5, 3, 0, 4, 100] @ [5, 1, 0]) [7, 8]"
  using socks5_handshake [OF demo_socks_new [of None] _ demo_socks_reads(1) [of "sc_no_auth demo_socks"] _ _
      demo_socks_reads(3), where ?cs1.0 = "[[5], [0]]" and ?cs2.0 = "[[5], [0, 7], [8]]" and app = "[7, 8]"
      and req = "[5, 1, 0]" and sa = "SocketAddr (V4 0) 0"]
  by (simp add: demo_socks_handler_def socks_peek_def demo_socks_def)



text \<open>
  SOCKS4.  For an IPv4 destination the session sends one request, in which a domain name is carried
  after the terminated user field, and nothing else; an eight-octet reply that grants it, however it is
  cut into reads, establishes the session and every later octet is handed over.
\<close>

theorem socks4_handshake:
  assumes "is_ipv4 (sa_ip (dst i))" "length m = 8" "m ! 1 = 0x5a" "[] \<notin> set cs" "concat cs = m @ app"
  shows "\<exists>h. new_socks_handler C server cred SocksV4 i domain udp = Inr h
    \<and> socks_peek ToServer h = [sc_v4 C, sc_connect C] @ to_be_bytes (sa_port (dst i))
        @ (case domain of Some d \<Rightarrow> [0, 0, 0, of_nat (length d)] | None \<Rightarrow> octets (sa_ip (dst i)))
        @ (case cred of None \<Rightarrow> [] | Some c \<Rightarrow> string_bytes (username c)
             @ (if password c = [] then [] else 58 # string_bytes (password c)))
        @ [0] @ (case domain of Some d \<Rightarrow> string_bytes d @ [0] | None \<Rightarrow> [])
    \<and> handed_over (socks_ops C) socks_inv (handle_proxy_session (socks_ops C) writes_succeed (map Inr cs) h) None (socks_peek ToServer h) app"
proof -
  obtain h where new: "new_socks_handler C server cred SocksV4 i domain udp = Inr h"
    and out: "sk_server_outbuf h = [sc_v4 C, sc_connect C] @ to_be_bytes (sa_port (dst i))
        @ (case domain of Some d \<Rightarrow> [0, 0, 0, of_nat (length d)] | None \<Rightarrow> octets (sa_ip (dst i)))
        @ (case cred of None \<Rightarrow> [] | Some c \<Rightarrow> string_bytes (username c)
             @ (if password c = [] then [] else 58 # string_bytes (password c)))
        @ [0] @ (case domain of Some d \<Rightarrow> string_bytes d @ [0] | None \<Rightarrow> [])"
    and h: "sk_state h = ServerHello" "sk_version h = SocksV4" "sk_server_inbuf h = []" "sk_client_inbuf h = []"
      "sk_client_outbuf h = []" "sk_udp_associate h = None"
    using assms(1) by (cases domain) (auto simp: new_socks_handler_def error_into_io_result_def socks_new_def
        send_client_hello_def send_client_hello_socks4_def)
  let ?s = "h\<lparr>sk_server_outbuf := []\<rparr>" and ?w = "sk_server_outbuf h"
  let ?f = "\<lambda>q. ?s\<lparr>sk_server_inbuf := [], sk_client_outbuf := q, sk_state := SocksEstablished\<rparr>"
  have wait: "state_change C (?s\<lparr>sk_server_inbuf := q\<rparr>) = (Inr (), ?s\<lparr>sk_server_inbuf := q\<rparr>)"
    if "strict_prefix q m" for q
    using prefix_length_less [OF that] assms(2) h by (subst state_change.simps)
      (simp add: dispatch_def receive_server_hello_def receive_server_hello_socks4_def)
  have fire: "state_change C (?s\<lparr>sk_server_inbuf := m @ q\<rparr>) = (Inr (), ?f q)" for q
    using assms(2,3) h by (subst state_change.simps) (simp add: dispatch_def receive_server_hello_def
        receive_server_hello_socks4_def state_change_established nth_append)
  have m: "strict_prefix (sk_server_inbuf ?s) m" using assms(2) h(3) by (auto simp: strict_prefix_def)
  obtain q rest where "q @ concat rest = app" and run:
    "proxy_session_loop (socks_ops C) writes_succeed (map Inr cs @ []) ?s ?w
      = proxy_session_loop (socks_ops C) writes_succeed (map Inr rest @ []) ((?f q)\<lparr>sk_server_outbuf := []\<rparr>)
          (?w @ sk_server_outbuf (?f q))"
    using phase [of ?s m C ?f cs app "[]" ?w, OF _ _ wait fire m assms(4)] h assms(5) by auto
  then have "handed_over (socks_ops C) socks_inv (proxy_session_loop (socks_ops C) writes_succeed (map Inr rest) (?f q) ?w) None ?w app"
    using h by (intro established_hands_over) (auto simp: socks_inv_def)
  then have "handed_over (socks_ops C) socks_inv (handle_proxy_session (socks_ops C) writes_succeed (map Inr cs) h) None ?w app"
    using run h out by (simp add: session_start)
  then show ?thesis using new out by (simp add: socks_peek_def)
qed

theorem socks4_handshake_witness:
  "\<exists>h. new_socks_handler demo_socks (SocketAddr (V4 9) 1080) None SocksV4 demo_socks_info (Some ''ab'') False = Inr h
    \<and> socks_peek ToServer h = [4, 1, 0, 80, 0, 0, 0, 2, 0, 97, 98, 0]
    \<and> handed_over (socks_ops demo_socks) socks_inv (handle_proxy_session (socks_ops demo_socks) writes_succeed
        (map Inr [[0, 0x5a, 0], [0, 0, 0, 0, 0, 6]]) h) None (socks_peek ToServer h) [6]"
  using socks4_handshake [where C = demo_socks and server = "SocketAddr (V4 9) 1080" and cred = None
      and i = demo_socks_info and domain = "Some ''ab''" and udp = False
      and m = "[0, 0x5a, 0, 0, 0, 0, 0, 0]" and cs = "[[0, 0x5a, 0], [0, 0, 0, 0, 0, 6]]" and app = "[6]"]
  by (simp add: demo_socks_dst demo_socks_codes string_bytes_def)

text \<open>
  C37. The SOCKS relay keeps order.  Once established, any interleaving of pushes from both sides and of
  partial removals succeeds, stays established, and what was taken in a direction followed by what is
  still buffered there is what was buffered before followed by what was pushed towards it.
\<close>

theorem socks_relay_fifo:
  assumes "socks_inv h" "socks_established h"
  shows "\<exists>h' out. relay_run (socks_ops C) es h = Some (h', out) \<and> socks_inv h' \<and> socks_established h'
    \<and> (\<forall>d. out d @ socks_peek d h' = socks_peek d h @ pushed d es)"
  using sk.relay_fifo [of h C es] assms by simp

theorem socks_relay_fifo_witness:
  "\<exists>h' out. relay_run (socks_ops demo_socks)
      [PushData FromServer [1, 2], TakeData ToClient 1, PushData FromClient [3]]
      ((demo_socks_handler None)\<lparr>sk_state := SocksEstablished\<rparr>) = Some (h', out) \<and> socks_inv h'
    \<and> socks_established h' \<and> out ToClient @ socks_peek ToClient h' = [1, 2]"
proof -
  let ?h = "(demo_socks_handler None)\<lparr>sk_state := SocksEstablished\<rparr>"
  let ?es = "[PushData FromServer [1, 2], TakeData ToClient 1, PushData FromClient [3]]"
  obtain h' out where *: "relay_run (socks_ops demo_socks) ?es ?h = Some (h', out)" "socks_inv h'"
    "socks_established h'" "\<forall>d. out d @ socks_peek d h' = socks_peek d ?h @ pushed d ?es"
    using socks_relay_fifo [OF demo_established(1,2), of demo_socks ?es] by blast
  moreover have "out ToClient @ socks_peek ToClient h' = [1, 2]"
    using spec [OF *(4), of ToClient] unfolding demo_established by (simp add: forward_def)
  ultimately show ?thesis by blast
qed



end
