(* ===== verification/Http.thy ===== *)
theory Http
  imports ProxyHandler Persistence "HOL-Library.Sublist"
begin

text \<open>
  The HTTP CONNECT handshake, \<^verbatim>\<open>src/http.rs\<close>, with its Basic and Digest authentication.  The parser
  of response heads, the Digest computation and Base64 are third-party code: the functions of
  \<^verbatim>\<open>http_lib\<close> are arguments.  The Digest state is shared by the handlers of one manager; a
  handler's record holds its present value.  Sizes are those of a 64-bit target, where the sum of a
  content length and a head length wraps in a build without overflow checks.
\<close>

section \<open>State\<close>

datatype authentication_scheme = NoAuthentication | Basic | Digest

datatype http_state = HttpSendRequest | ExpectResponseHeaders | ExpectResponse | HttpReset | HttpEstablished

text \<open>
  A parsed response head: the fields are absent when the parser did not set them, and the headers
  are the sixteen slots given to it, unused slots having an empty name and value.
\<close>

record http_head =
  hh_code :: "nat option"
  hh_version :: "nat option"
  hh_reason :: "string option"
  hh_headers :: "(string \<times> bytes) list"

datatype http_status = PartialHead | CompleteHead nat http_head

record 'd http_lib =
  hl_base64 :: "string \<Rightarrow> string"
  hl_parse :: "bytes \<Rightarrow> http_status result"
  hl_digest_parse :: "string \<Rightarrow> 'd result"
  hl_stale :: "'d \<Rightarrow> bool"
  hl_respond :: "'d \<Rightarrow> string \<Rightarrow> string \<Rightarrow> string \<Rightarrow> (string + string) \<times> 'd"

record 'd http =
  hc_server_addr :: socket_addr
  hc_state :: http_state
  hc_client_inbuf :: bytes
  hc_server_inbuf :: bytes
  hc_client_outbuf :: bytes
  hc_server_outbuf :: bytes
  hc_crlf_state :: nat
  hc_counter :: nat
  hc_skip :: nat
  hc_digest_state :: "'d option"
  hc_before :: bool
  hc_credentials :: "user_key option"
  hc_info :: session_info
  hc_domain_name :: "string option"

section \<open>Requests\<close>

definition crlf :: string where
  "crlf = [char_of (13 :: nat), char_of (10 :: nat)]"

definition basic_auth_header_value :: "'d http_lib \<Rightarrow> user_key \<Rightarrow> string" where
  "basic_auth_header_value L c = ''Basic '' @ hl_base64 L (username c @ '':'' @ password c)"

definition is_digest_scheme :: "bytes \<Rightarrow> bool" where
  "is_digest_scheme auth_data = (length auth_data \<ge> 6
     \<and> to_ascii_lowercase (map (\<lambda>b. char_of (unat b)) (take 6 auth_data)) = ''digest'')"

definition target_host :: "'d http \<Rightarrow> string" where
  "target_host s = (case hc_domain_name s of
     Some d \<Rightarrow> d @ '':'' @ decimal (unat (sa_port (dst (hc_info s))))
   | None \<Rightarrow> socket_addr_text (dst (hc_info s)))"

definition http_send_auth_data ::
  "'d http_lib \<Rightarrow> authentication_scheme \<Rightarrow> 'd http \<Rightarrow> unit result \<times> 'd http" where
  "http_send_auth_data L scheme s = (case hc_credentials s of
     None \<Rightarrow> (Inr (), s)
   | Some c \<Rightarrow> (case scheme of
       Digest \<Rightarrow> (case hc_digest_state s of
           None \<Rightarrow> (Inl (StringError ''Digest auth state is missing''), s)
         | Some d \<Rightarrow> (case hl_respond L d (username c) (password c) (target_host s) of
             (Inl e, d') \<Rightarrow> (Inl (StringError (''Digest auth response failed: '' @ e)), s\<lparr>hc_digest_state := Some d'\<rparr>)
           | (Inr header, d') \<Rightarrow> (Inr (), s\<lparr>hc_digest_state := Some d',
               hc_server_outbuf := hc_server_outbuf s
                 @ string_bytes (''Proxy-Authorization: '' @ header @ crlf)\<rparr>)))
     | Basic \<Rightarrow> (Inr (), s\<lparr>hc_server_outbuf := hc_server_outbuf s
           @ string_bytes (''Proxy-Authorization: '' @ basic_auth_header_value L c @ crlf)\<rparr>)
     | NoAuthentication \<Rightarrow> (Inr (), s)))"

definition send_tunnel_request :: "'d http_lib \<Rightarrow> 'd http \<Rightarrow> unit result \<times> 'd http" where
  "send_tunnel_request L s =
     (let host = target_host s;
          s1 = s\<lparr>hc_server_outbuf := hc_server_outbuf s
            @ string_bytes (''CONNECT '' @ host @ '' HTTP/1.1'' @ crlf @ ''Host: '' @ host @ crlf)\<rparr>;
          scheme = (if hc_digest_state s = None then Basic else Digest) in
      case http_send_auth_data L scheme s1 of
        (Inl e, s2) \<Rightarrow> (Inl e, s2)
      | (Inr _, s2) \<Rightarrow> (Inr (), s2\<lparr>hc_server_outbuf := hc_server_outbuf s2 @ string_bytes crlf\<rparr>))"

definition http_new ::
  "'d http_lib \<Rightarrow> socket_addr \<Rightarrow> session_info \<Rightarrow> string option \<Rightarrow> user_key option \<Rightarrow> 'd option \<Rightarrow> 'd http result" where
  "http_new L server i domain cred digest =
     (case send_tunnel_request L
        \<lparr>hc_server_addr = server, hc_state = ExpectResponseHeaders, hc_client_inbuf = [], hc_server_inbuf = [],
         hc_client_outbuf = [], hc_server_outbuf = [], hc_crlf_state = 0, hc_counter = 0, hc_skip = 0,
         hc_digest_state = digest, hc_before = False, hc_credentials = cred, hc_info = i,
         hc_domain_name = domain\<rparr> of
        (Inl e, _) \<Rightarrow> Inl e
      | (Inr _, s) \<Rightarrow> Inr s)"

section \<open>Responses\<close>

text \<open>The search for two line feeds with at most carriage returns between them.\<close>

fun crlf_scan :: "bytes \<Rightarrow> nat \<Rightarrow> nat \<Rightarrow> nat \<times> nat" where
  "crlf_scan [] counter st = (counter, st)"
| "crlf_scan (b # bs) counter st =
     (let st' = (if b = 10 then st + 1 else if b \<noteq> 13 then 0 else st) in
      if st' = 2 then (counter + 1, st') else crlf_scan bs (counter + 1) st')"

text \<open>
  The map of headers: names are compared without regard to ASCII case and a later slot replaces an
  earlier one.
\<close>

definition header_get :: "(string \<times> bytes) list \<Rightarrow> string \<Rightarrow> bytes option" where
  "header_get hs name = map_of (rev (map (\<lambda>(n, v). (to_ascii_lowercase n, v)) hs)) (to_ascii_lowercase name)"

definition bytes_string :: "bytes \<Rightarrow> string" where
  "bytes_string bs = map (\<lambda>b. char_of (unat b)) bs"

definition digit_of :: "char \<Rightarrow> nat option" where
  "digit_of c = (if 48 \<le> (of_char c :: nat) \<and> (of_char c :: nat) \<le> 57 then Some (of_char c - 48) else None)"

text \<open>Parsing an unsigned integer: an optional plus sign and decimal digits, below \<^verbatim>\<open>2 ^ 64\<close>.\<close>

fun parse_digits :: "string \<Rightarrow> nat \<Rightarrow> nat option" where
  "parse_digits [] acc = Some acc"
| "parse_digits (c # cs) acc = (case digit_of c of
     None \<Rightarrow> None
   | Some d \<Rightarrow> if acc * 10 + d > usize_max then None else parse_digits cs (acc * 10 + d))"

definition parse_usize :: "string \<Rightarrow> nat option" where
  "parse_usize s = (let ds = (case s of c # cs \<Rightarrow> if c = CHR ''+'' then cs else s | [] \<Rightarrow> s) in
     if ds = [] then None else parse_digits ds 0)"

fun split_comma :: "string \<Rightarrow> string \<Rightarrow> string list" where
  "split_comma [] acc = [acc]"
| "split_comma (c # cs) acc = (if c = CHR '','' then acc # split_comma cs [] else split_comma cs (acc @ [c]))"

fun all_equal_lengths :: "nat \<Rightarrow> string list \<Rightarrow> unit result" where
  "all_equal_lengths f [] = Inr ()"
| "all_equal_lengths f (k # ks) = (case parse_usize k of
     None \<Rightarrow> Inl IntParseError
   | Some x \<Rightarrow> if x \<noteq> f then Inl (StringError ''Malformed response'') else all_equal_lengths f ks)"

definition content_length :: "bytes \<Rightarrow> nat result" where
  "content_length v =
     (if \<not> valid_utf8 (bytes_string v) then Inl Utf8
      else case parse_usize (bytes_string v) of
          Some x \<Rightarrow> Inr x
        | None \<Rightarrow> (case split_comma (bytes_string v) [] of
            [] \<Rightarrow> Inl (StringError ''Malformed response'')
          | first # rest \<Rightarrow> (case parse_usize first of
              None \<Rightarrow> Inl IntParseError
            | Some f \<Rightarrow> rbind (all_equal_lengths f rest) (\<lambda>_. Inr f))))"

section \<open>The state machine\<close>

datatype 'd http_step = HDone "unit result" "'d http" | HAgain "'d http"

text \<open>The reaction to a 407 response: the Digest challenge is taken and the request sent again.\<close>

definition restart_request :: "'d http_lib \<Rightarrow> 'd http \<Rightarrow> 'd http_step" where
  "restart_request L s =
     (case send_tunnel_request L (s\<lparr>hc_server_inbuf := [], hc_server_outbuf := []\<rparr>) of
        (Inl e, s1) \<Rightarrow> HDone (Inl e) s1
      | (Inr _, s1) \<Rightarrow> HDone (Inr ()) (s1\<lparr>hc_state := HttpReset\<rparr>))"

definition proxy_auth_required :: "'d http_lib \<Rightarrow> nat \<Rightarrow> nat \<Rightarrow> (string \<times> bytes) list \<Rightarrow> 'd http \<Rightarrow> 'd http_step" where
  "proxy_auth_required L len version hs s = (case header_get hs ''Proxy-Authenticate'' of
     None \<Rightarrow> HDone (Inl (StringError ''Proxy requires auth but didn't send authentication details'')) s
   | Some auth_data \<Rightarrow>
       if \<not> is_digest_scheme auth_data then
         HDone (Inl (StringError ''Proxy authentication method is not supported; only Digest is supported'')) s
       else if \<not> valid_utf8 (bytes_string auth_data) then HDone (Inl Utf8) s
       else (case hl_digest_parse L (bytes_string auth_data) of
           Inl e \<Rightarrow> HDone (Inl e) s
         | Inr d \<Rightarrow>
             if hc_before s \<and> \<not> hl_stale L d then HDone (Inl (StringError ''Bad credentials'')) s
             else
               (let s1 = s\<lparr>hc_digest_state := Some d, hc_before := True\<rparr>;
                    closed = (case header_get hs ''Connection'' of
                       Some v \<Rightarrow> to_ascii_lowercase (bytes_string v) = ''close'' | None \<Rightarrow> False) in
                if closed \<or> version = 0 then restart_request L s1
                else if header_get hs ''Transfer-Encoding'' \<noteq> None then
                  HDone (Inl (StringError ''Header Transfer-Encoding not supported'')) s1
                else case header_get hs ''Content-Length'' of
                    None \<Rightarrow> restart_request L s1
                  | Some v \<Rightarrow> (case content_length v of
                      Inl e \<Rightarrow> HDone (Inl e) s1
                    | Inr n \<Rightarrow> HAgain (s1\<lparr>hc_state := ExpectResponse, hc_skip := (n + len) mod 2 ^ 64\<rparr>)))))"

definition on_head :: "'d http_lib \<Rightarrow> nat \<Rightarrow> 'd http \<Rightarrow> 'd http_step" where
  "on_head L header_size s = (case hl_parse L (hc_server_inbuf s) of
     Inl e \<Rightarrow> HDone (Inl e) s
   | Inr PartialHead \<Rightarrow> HDone (Inr ()) s
   | Inr (CompleteHead len h) \<Rightarrow> (case hh_code h of
       None \<Rightarrow> HDone (Inl (StringError ''Malformed HTTP proxy response: missing status code'')) s
     | Some code \<Rightarrow> (case hh_version h of
         None \<Rightarrow> HDone (Inl (StringError ''Malformed HTTP proxy response: missing HTTP version'')) s
       | Some version \<Rightarrow>
           if code = 200 then
             HAgain (s\<lparr>hc_state := HttpEstablished, hc_server_inbuf := drop header_size (hc_server_inbuf s)\<rparr>)
           else if code \<noteq> 407 then
             (case hh_reason h of
                None \<Rightarrow> HDone (Inl (StringError ''Malformed HTTP proxy response: missing reason phrase'')) s
              | Some reason \<Rightarrow> HDone (Inl (StringError
                  (''Expected success status code. Server replied with '' @ decimal code
                   @ '' [Reason: '' @ reason @ ''].''))) s)
           else proxy_auth_required L len version (hh_headers h) s)))"

definition http_turn :: "'d http_lib \<Rightarrow> 'd http \<Rightarrow> 'd http_step" where
  "http_turn L s = (case hc_state s of
     ExpectResponseHeaders \<Rightarrow>
       (case crlf_scan (drop (hc_counter s) (hc_server_inbuf s)) (hc_counter s) (hc_crlf_state s) of
          (counter, st) \<Rightarrow>
            if st \<noteq> 2 then HDone (Inr ()) (s\<lparr>hc_counter := counter, hc_crlf_state := st\<rparr>)
            else on_head L counter (s\<lparr>hc_counter := 0, hc_crlf_state := 0\<rparr>))
   | ExpectResponse \<Rightarrow>
       (let cnt = min (hc_skip s) (length (hc_server_inbuf s));
            s1 = s\<lparr>hc_server_inbuf := drop cnt (hc_server_inbuf s), hc_skip := hc_skip s - cnt\<rparr> in
        if hc_skip s1 = 0 then
          (case send_tunnel_request L s1 of
             (Inl e, s2) \<Rightarrow> HDone (Inl e) s2
           | (Inr _, s2) \<Rightarrow> HAgain (s2\<lparr>hc_state := ExpectResponseHeaders\<rparr>))
        else HDone (Inr ()) s1)
   | HttpEstablished \<Rightarrow> HDone (Inr ()) (s\<lparr>
       hc_client_outbuf := hc_client_outbuf s @ hc_server_inbuf s,
       hc_server_outbuf := hc_server_outbuf s @ hc_client_inbuf s,
       hc_server_inbuf := [], hc_client_inbuf := []\<rparr>)
   | HttpReset \<Rightarrow> HAgain (s\<lparr>hc_state := ExpectResponseHeaders\<rparr>)
   | HttpSendRequest \<Rightarrow> HDone (Inr ()) s)"

text \<open>The recursive calls need not end, so the result is optional.\<close>

partial_function (option) http_state_change :: "'d http_lib \<Rightarrow> 'd http \<Rightarrow> (unit result \<times> 'd http) option" where
  "http_state_change L s = (case http_turn L s of
     HDone r s' \<Rightarrow> Some (r, s')
   | HAgain s' \<Rightarrow> http_state_change L s')"

section \<open>The trait implementation\<close>

definition http_push ::
  "'d http_lib \<Rightarrow> incoming_direction \<Rightarrow> bytes \<Rightarrow> 'd http \<Rightarrow> (unit io_result \<times> 'd http) option" where
  "http_push L d buffer s = map_option (\<lambda>(r, s'). (error_into_io_result r, s')) (http_state_change L (case d of
     FromServer \<Rightarrow> s\<lparr>hc_server_inbuf := hc_server_inbuf s @ buffer\<rparr>
   | FromClient \<Rightarrow> s\<lparr>hc_client_inbuf := hc_client_inbuf s @ buffer\<rparr>))"

definition http_consume :: "outgoing_direction \<Rightarrow> nat \<Rightarrow> 'd http \<Rightarrow> 'd http option" where
  "http_consume d n s =
     (if d = ToServer then map_option (\<lambda>b. s\<lparr>hc_server_outbuf := b\<rparr>) (drain n (hc_server_outbuf s))
      else map_option (\<lambda>b. s\<lparr>hc_client_outbuf := b\<rparr>) (drain n (hc_client_outbuf s)))"

definition http_peek :: "outgoing_direction \<Rightarrow> 'd http \<Rightarrow> bytes" where
  "http_peek d s = (if d = ToServer then hc_server_outbuf s else hc_client_outbuf s)"

definition http_established :: "'d http \<Rightarrow> bool" where
  "http_established s = (hc_state s = HttpEstablished)"

definition http_data_len :: "outgoing_direction \<Rightarrow> 'd http \<Rightarrow> nat" where
  "http_data_len d s = (case d of ToServer \<Rightarrow> length (hc_server_outbuf s) | ToClient \<Rightarrow> length (hc_client_outbuf s))"

definition http_reset :: "'d http \<Rightarrow> bool" where
  "http_reset s = (hc_state s = HttpReset)"

definition http_ops :: "'d http_lib \<Rightarrow> 'd http handler_ops" where
  "http_ops L = \<lparr>h_push = http_push L, h_consume = http_consume, h_peek = http_peek,
     h_established = http_established, h_data_len = http_data_len, h_reset = http_reset,
     h_server_addr = hc_server_addr, h_session_info = hc_info, h_domain_name = hc_domain_name,
     h_udp_associate = (\<lambda>_. None)\<rparr>"

definition new_http_handler ::
  "'d http_lib \<Rightarrow> socket_addr \<Rightarrow> user_key option \<Rightarrow> 'd option \<Rightarrow> session_info \<Rightarrow> string option \<Rightarrow> 'd http io_result" where
  "new_http_handler L server cred digest i domain =
     (if protocol i \<noteq> Tcp then Inl (IoError OtherKind ''Protocol not supported by HTTP proxy'')
      else error_into_io_result (http_new L server i domain cred digest))"

section \<open>The contract of the trait\<close>

definition http_inv :: "'d http \<Rightarrow> bool" where
  "http_inv s = (hc_state s = HttpEstablished \<longrightarrow> hc_server_inbuf s = [] \<and> hc_client_inbuf s = [])"

lemma send_tunnel_request_state:
  "send_tunnel_request L s = (r, s') \<Longrightarrow> hc_state s' = hc_state s"
  by (auto simp: send_tunnel_request_def http_send_auth_data_def Let_def
      split: prod.splits sum.splits option.splits authentication_scheme.splits)

lemma restart_request_state:
  "restart_request L s = HDone r s' \<Longrightarrow> hc_state s \<noteq> HttpEstablished \<Longrightarrow> hc_state s' \<noteq> HttpEstablished"
  by (auto simp: restart_request_def dest: send_tunnel_request_state split: prod.splits sum.splits)

lemma proxy_auth_required_state:
  assumes "proxy_auth_required L len version hs s = HDone r s'" "hc_state s \<noteq> HttpEstablished"
  shows "hc_state s' \<noteq> HttpEstablished"
  using assms unfolding proxy_auth_required_def Let_def
  by (auto dest: restart_request_state split: option.splits if_splits sum.splits)

lemma on_head_state:
  assumes "on_head L n s = HDone r s'" "hc_state s \<noteq> HttpEstablished"
  shows "hc_state s' \<noteq> HttpEstablished"
  using assms unfolding on_head_def
  by (auto dest: proxy_auth_required_state split: sum.splits http_status.splits option.splits if_splits)

lemma http_turn_done_inv: "http_turn L s = HDone r s' \<Longrightarrow> http_inv s'"
  using on_head_state [of L _ "s\<lparr>hc_counter := 0, hc_crlf_state := 0\<rparr>" r s'] send_tunnel_request_state [of L]
  unfolding http_turn_def http_inv_def Let_def
  by (auto split: http_state.splits prod.splits if_splits sum.splits)

lemma http_state_change_inv: "http_state_change L s = Some (r, s') \<Longrightarrow> http_inv s'"
proof -
  assume "http_state_change L s = Some (r, s')"
  then have "http_inv (snd (r, s'))"
    by (rule http_state_change.raw_induct [of "\<lambda>L s y. http_inv (snd y)", rotated])
      (auto dest: http_turn_done_inv split: http_step.splits)
  then show ?thesis by simp
qed

lemma http_state_change_established:
  "hc_state s = HttpEstablished \<Longrightarrow> http_state_change L s = Some (Inr (), s\<lparr>
     hc_client_outbuf := hc_client_outbuf s @ hc_server_inbuf s,
     hc_server_outbuf := hc_server_outbuf s @ hc_client_inbuf s,
     hc_server_inbuf := [], hc_client_inbuf := []\<rparr>)"
  by (subst http_state_change.simps) (simp add: http_turn_def)

lemma http_ops_simps [simp]:
  "h_push (http_ops L) = http_push L" "h_consume (http_ops L) = http_consume"
  "h_peek (http_ops L) = http_peek" "h_established (http_ops L) = http_established"
  "h_udp_associate (http_ops L) = (\<lambda>_. None)"
  by (simp_all add: http_ops_def)

lemma direction_neq [simp]: "d \<noteq> ToServer \<longleftrightarrow> d = ToClient" "d \<noteq> ToClient \<longleftrightarrow> d = ToServer"
  by (cases d; simp)+

interpretation ht: proxy_handler "http_ops L" http_inv for L
proof unfold_locales
  fix n d h
  assume "n \<le> length (h_peek (http_ops L) d h)"
  then show "\<exists>h'. h_consume (http_ops L) d n h = Some h'
      \<and> h_peek (http_ops L) d h' = drop n (h_peek (http_ops L) d h)
      \<and> (\<forall>d'. d' \<noteq> d \<longrightarrow> h_peek (http_ops L) d' h' = h_peek (http_ops L) d' h)
      \<and> h_established (http_ops L) h' = h_established (http_ops L) h
      \<and> h_udp_associate (http_ops L) h' = h_udp_associate (http_ops L) h \<and> (http_inv h \<longrightarrow> http_inv h')"
    by (cases d) (auto simp: http_consume_def http_peek_def drain_def http_established_def http_inv_def)
next
  fix h i data
  assume "http_inv h" "h_established (http_ops L) h"
  then show "\<exists>h'. h_push (http_ops L) i data h = Some (Inr (), h') \<and> http_inv h'
      \<and> h_established (http_ops L) h'
      \<and> h_peek (http_ops L) (forward i) h' = h_peek (http_ops L) (forward i) h @ data
      \<and> (\<forall>d. d \<noteq> forward i \<longrightarrow> h_peek (http_ops L) d h' = h_peek (http_ops L) d h)"
    by (cases i) (auto simp: http_push_def http_established_def http_inv_def forward_def http_peek_def
        http_state_change_established error_into_io_result_def)
next
  fix h i data r h'
  assume "h_push (http_ops L) i data h = Some (r, h')"
  then show "http_inv h'" by (auto simp: http_push_def dest: http_state_change_inv)
qed

section \<open>Heads that arrive in pieces\<close>

lemma crlf_scan_append:
  "st < 2 \<Longrightarrow> crlf_scan (xs @ ys) c st = (case crlf_scan xs c st of
     (c', st') \<Rightarrow> if st' = 2 then (c', st') else crlf_scan ys c' st')"
  by (induction xs arbitrary: c st) (auto simp: Let_def)

lemma crlf_scan_bounds:
  assumes "st < 2" "crlf_scan xs c st = (c', st')"
  shows "st' \<le> 2 \<and> c' \<le> c + length xs \<and> (st' \<noteq> 2 \<longrightarrow> c' = c + length xs)"
  using assms
proof (induction xs arbitrary: c st)
  case (Cons b bs)
  let ?st = "if b = 10 then st + 1 else if b \<noteq> 13 then 0 else st"
  show ?case
  proof (cases "?st = 2")
    case False
    then have "?st < 2" using Cons.prems(1) by auto
    moreover have "crlf_scan bs (c + 1) ?st = (c', st')" using Cons.prems(2) False by (simp add: Let_def)
    ultimately show ?thesis using Cons.IH [of ?st "c + 1"] by simp
  qed (use Cons.prems in \<open>auto simp: Let_def\<close>)
qed auto

text \<open>A complete head: the search succeeds at its end and not before.\<close>

definition is_head :: "bytes \<Rightarrow> bool" where
  "is_head m = (crlf_scan m 0 0 = (length m, 2))"

lemma is_head_prefix:
  assumes "is_head m" "strict_prefix q m"
  shows "crlf_scan q 0 0 = (length q, snd (crlf_scan q 0 0))" "snd (crlf_scan q 0 0) < 2"
proof -
  obtain zs where m: "m = q @ zs" "zs \<noteq> []" using assms(2) by (auto simp: strict_prefix_def prefix_def)
  obtain c st where s: "crlf_scan q 0 0 = (c, st)" by fastforce
  note b = crlf_scan_bounds [OF _ s]
  have "st \<noteq> 2"
  proof
    assume "st = 2"
    then have "crlf_scan m 0 0 = (c, 2)" using crlf_scan_append [of 0 q zs 0] m s by simp
    then show False using assms(1) b m by (simp add: is_head_def)
  qed
  then show "crlf_scan q 0 0 = (length q, snd (crlf_scan q 0 0))" "snd (crlf_scan q 0 0) < 2"
    using s b by auto
qed

lemma is_head_scan: "is_head m \<Longrightarrow> crlf_scan (m @ q) 0 0 = (length m, 2)"
  using crlf_scan_append [of 0 m q 0] by (simp add: is_head_def)

lemma is_head_Nil: "is_head m \<Longrightarrow> m \<noteq> []"
  by (auto simp: is_head_def)

text \<open>A handler that has read \<^verbatim>\<open>q\<close> of a head.\<close>

definition reading :: "'d http \<Rightarrow> bytes \<Rightarrow> 'd http" where
  "reading b q = b\<lparr>hc_state := ExpectResponseHeaders, hc_server_inbuf := q, hc_counter := length q,
     hc_crlf_state := snd (crlf_scan q 0 0)\<rparr>"

definition head_seen :: "'d http \<Rightarrow> bytes \<Rightarrow> 'd http" where
  "head_seen b q = b\<lparr>hc_state := ExpectResponseHeaders, hc_server_inbuf := q, hc_counter := 0, hc_crlf_state := 0\<rparr>"

lemma reading_simps [simp]:
  "hc_state (reading b q) = ExpectResponseHeaders" "hc_server_inbuf (reading b q) = q"
  "hc_server_outbuf (reading b q) = hc_server_outbuf b" "hc_client_outbuf (reading b q) = hc_client_outbuf b"
  "(reading b q)\<lparr>hc_server_outbuf := x\<rparr> = reading (b\<lparr>hc_server_outbuf := x\<rparr>) q"
  by (simp_all add: reading_def)

lemma reading_push:
  assumes "is_head m" "strict_prefix q m"
  shows "http_turn L ((reading b q)\<lparr>hc_server_inbuf := q @ c\<rparr>) = (case crlf_scan (q @ c) 0 0 of (n, st) \<Rightarrow>
      if st \<noteq> 2 then HDone (Inr ()) (b\<lparr>hc_state := ExpectResponseHeaders, hc_server_inbuf := q @ c,
        hc_counter := n, hc_crlf_state := st\<rparr>)
      else on_head L n (head_seen b (q @ c)))"
proof -
  obtain st where st: "crlf_scan q 0 0 = (length q, st)" "st < 2"
    using is_head_prefix [OF assms] by (metis snd_conv)
  then have "crlf_scan c (length q) st = crlf_scan (q @ c) 0 0"
    using crlf_scan_append [of 0 q c 0] by simp
  then show ?thesis using st
    by (cases b, cases "crlf_scan (q @ c) 0 0") (simp add: http_turn_def reading_def head_seen_def)
qed

lemma reading_more:
  assumes "is_head m" "strict_prefix q m" "strict_prefix (q @ c) m"
  shows "http_state_change L ((reading b q)\<lparr>hc_server_inbuf := q @ c\<rparr>) = Some (Inr (), reading b (q @ c))"
proof -
  obtain st where st: "crlf_scan (q @ c) 0 0 = (length (q @ c), st)" "st < 2"
    using is_head_prefix [OF assms(1,3)] by (metis snd_conv)
  have "http_turn L ((reading b q)\<lparr>hc_server_inbuf := q @ c\<rparr>) = HDone (Inr ()) (reading b (q @ c))"
    unfolding reading_push [OF assms(1,2)] using st by (simp add: reading_def)
  then show ?thesis by (subst http_state_change.simps) simp
qed

lemma reading_done:
  assumes "is_head m" "strict_prefix q m" "q @ c = m @ x"
  shows "http_state_change L ((reading b q)\<lparr>hc_server_inbuf := q @ c\<rparr>)
    = (case on_head L (length m) (head_seen b (m @ x)) of HDone r s' \<Rightarrow> Some (r, s') | HAgain s' \<Rightarrow> http_state_change L s')"
proof -
  have "http_turn L ((reading b q)\<lparr>hc_server_inbuf := q @ c\<rparr>) = on_head L (length m) (head_seen b (m @ x))"
    using reading_push [OF assms(1,2), of L c b] is_head_scan [OF assms(1), of x] unfolding assms(3) by simp
  then show ?thesis by (subst http_state_change.simps) simp
qed

lemma http_outbuf_empty [simp]: "hc_server_outbuf s = [] \<Longrightarrow> s\<lparr>hc_server_outbuf := []\<rparr> = s"
  by (cases s) simp

lemma http_loop_chunk:
  assumes "hc_state s \<noteq> HttpEstablished" "c \<noteq> []"
    and "http_state_change L (s\<lparr>hc_server_inbuf := hc_server_inbuf s @ c\<rparr>) = Some (Inr (), s')"
  shows "proxy_session_loop (http_ops L) writes_succeed (Inr c # rs) s w
    = proxy_session_loop (http_ops L) writes_succeed rs (s'\<lparr>hc_server_outbuf := []\<rparr>) (w @ hc_server_outbuf s')"
  using assms
  by (subst proxy_session_loop.simps)
    (simp add: http_established_def http_push_def http_peek_def flush_to_server_def writes_succeed_def
      http_consume_def drain_def error_into_io_result_def)

lemma head_phase:
  assumes head: "is_head m" and out: "hc_server_outbuf b = []"
    and fire: "\<And>q. prefix q app \<Longrightarrow> (case on_head L (length m) (head_seen b (m @ q)) of
        HDone r s' \<Rightarrow> Some (r, s') | HAgain s' \<Rightarrow> http_state_change L s') = Some (Inr (), f q)"
    and "strict_prefix q0 m" "[] \<notin> set cs" "q0 @ concat cs = m @ app"
  shows "\<exists>q rest. q @ concat rest = app \<and> [] \<notin> set rest
    \<and> proxy_session_loop (http_ops L) writes_succeed (map Inr cs @ es) (reading b q0) w
      = proxy_session_loop (http_ops L) writes_succeed (map Inr rest @ es) ((f q)\<lparr>hc_server_outbuf := []\<rparr>)
          (w @ hc_server_outbuf (f q))"
  using assms(4-6)
proof (induction cs arbitrary: q0)
  case Nil
  then show ?case by (auto simp: strict_prefix_def prefix_def)
next
  case (Cons c cs)
  have c: "c \<noteq> []" and eq: "(q0 @ c) @ concat cs = m @ app" using Cons.prems by auto
  show ?case
  proof (cases "strict_prefix (q0 @ c) m")
    case True
    have "proxy_session_loop (http_ops L) writes_succeed (map Inr (c # cs) @ es) (reading b q0) w
        = proxy_session_loop (http_ops L) writes_succeed (map Inr cs @ es) (reading b (q0 @ c)) w"
      using http_loop_chunk [of "reading b q0" c L "reading b (q0 @ c)"] reading_more [OF head Cons.prems(1) True, of L b] c out
      by simp
    then show ?thesis using Cons.IH [OF True] Cons.prems(2) eq by simp
  next
    case False
    then obtain x where x: "q0 @ c = m @ x"
      using eq by (metis append_eq_append_conv2 prefixI strict_prefixI append_Nil2)
    then have app: "x @ concat cs = app" using eq by simp
    then have "prefix x app" by (rule prefixI [OF sym])
    then have "proxy_session_loop (http_ops L) writes_succeed (map Inr (c # cs) @ es) (reading b q0) w
        = proxy_session_loop (http_ops L) writes_succeed (map Inr cs @ es) ((f x)\<lparr>hc_server_outbuf := []\<rparr>)
            (w @ hc_server_outbuf (f x))"
      using http_loop_chunk [of "reading b q0" c L "f x"] reading_done [OF head Cons.prems(1) x, of L b] fire [OF \<open>prefix x app\<close>] c by simp
    then show ?thesis using Cons.prems(2) app by auto
  qed
qed

section \<open>What a handshake sends\<close>

definition connect_host :: "session_info \<Rightarrow> string option \<Rightarrow> string" where
  "connect_host i domain = (case domain of
     Some d \<Rightarrow> d @ '':'' @ decimal (unat (sa_port (dst i)))
   | None \<Rightarrow> socket_addr_text (dst i))"

definition connect_request :: "string \<Rightarrow> string \<Rightarrow> bytes" where
  "connect_request host auth = string_bytes
     (''CONNECT '' @ host @ '' HTTP/1.1'' @ crlf @ ''Host: '' @ host @ crlf @ auth @ crlf)"

text \<open>The authorization line of a request and the Digest state after it.\<close>

definition auth_line :: "'d http_lib \<Rightarrow> user_key option \<Rightarrow> 'd option \<Rightarrow> string \<Rightarrow> (string \<times> 'd option) option" where
  "auth_line L cred digest host = (case cred of
     None \<Rightarrow> Some ([], digest)
   | Some c \<Rightarrow> (case digest of
       None \<Rightarrow> Some (''Proxy-Authorization: '' @ basic_auth_header_value L c @ crlf, None)
     | Some d \<Rightarrow> (case hl_respond L d (username c) (password c) host of
         (Inr hdr, d') \<Rightarrow> Some (''Proxy-Authorization: '' @ hdr @ crlf, Some d')
       | (Inl _, _) \<Rightarrow> None)))"

lemma target_host_eq: "target_host s = connect_host (hc_info s) (hc_domain_name s)"
  by (simp add: target_host_def connect_host_def)

lemma connect_request_nonempty [simp]: "connect_request host a \<noteq> []"
  by (simp add: connect_request_def string_bytes_def)

lemma send_tunnel_request_line:
  assumes "auth_line L (hc_credentials s) (hc_digest_state s) (connect_host (hc_info s) (hc_domain_name s)) = Some (a, d)"
  shows "send_tunnel_request L s = (Inr (), s\<lparr>hc_digest_state := d,
    hc_server_outbuf := hc_server_outbuf s @ connect_request (connect_host (hc_info s) (hc_domain_name s)) a\<rparr>)"
proof -
  have [simp]: "target_host (s\<lparr>hc_server_outbuf := x\<rparr>) = connect_host (hc_info s) (hc_domain_name s)" for x
    by (simp add: target_host_eq)
  show ?thesis using assms
    by (cases s) (auto simp: send_tunnel_request_def http_send_auth_data_def auth_line_def connect_request_def
        target_host_eq string_bytes_def Let_def split: option.splits sum.splits prod.splits)
qed

lemma http_new_line:
  assumes "auth_line L cred digest (connect_host i domain) = Some (a, d)"
  shows "http_new L server i domain cred digest = Inr
    \<lparr>hc_server_addr = server, hc_state = ExpectResponseHeaders, hc_client_inbuf = [], hc_server_inbuf = [],
     hc_client_outbuf = [], hc_server_outbuf = connect_request (connect_host i domain) a, hc_crlf_state = 0,
     hc_counter = 0, hc_skip = 0, hc_digest_state = d, hc_before = False, hc_credentials = cred, hc_info = i,
     hc_domain_name = domain\<rparr>"
  unfolding http_new_def by (subst send_tunnel_request_line [where a = a and d = d]) (simp_all add: assms)

lemma http_session_start:
  assumes "hc_state h \<noteq> HttpEstablished" "hc_server_outbuf h \<noteq> []"
  shows "handle_proxy_session (http_ops L) writes_succeed es h
    = proxy_session_loop (http_ops L) writes_succeed es (h\<lparr>hc_server_outbuf := []\<rparr>) (hc_server_outbuf h)"
  using assms by (simp add: handle_proxy_session_def flush_to_server_def writes_succeed_def http_established_def
      http_peek_def http_consume_def drain_def)

text \<open>The new handler, its request sent, is reading a head.\<close>

definition waiting :: "socket_addr \<Rightarrow> session_info \<Rightarrow> string option \<Rightarrow> user_key option \<Rightarrow> 'd option \<Rightarrow> 'd http" where
  "waiting server i domain cred d =
    \<lparr>hc_server_addr = server, hc_state = ExpectResponseHeaders, hc_client_inbuf = [], hc_server_inbuf = [],
     hc_client_outbuf = [], hc_server_outbuf = [], hc_crlf_state = 0,
     hc_counter = 0, hc_skip = 0, hc_digest_state = d, hc_before = False, hc_credentials = cred, hc_info = i,
     hc_domain_name = domain\<rparr>"

lemma new_handler_session:
  assumes "protocol i = Tcp" "auth_line L cred digest (connect_host i domain) = Some (a, d)"
  shows "\<exists>h. new_http_handler L server cred digest i domain = Inr h
    \<and> handle_proxy_session (http_ops L) writes_succeed es h
      = proxy_session_loop (http_ops L) writes_succeed es (reading (waiting server i domain cred d) [])
          (connect_request (connect_host i domain) a)"
  unfolding new_http_handler_def http_new_line [OF assms(2)] error_into_io_result_def using assms(1)
  by (simp add: http_session_start reading_def waiting_def)

section \<open>Heads and challenges\<close>

definition head_parses :: "'d http_lib \<Rightarrow> bytes \<Rightarrow> http_head \<Rightarrow> bool" where
  "head_parses L m h = (is_head m \<and> (\<forall>q. hl_parse L (m @ q) = Inr (CompleteHead (length m) h)))"

definition digest_challenge :: "'d http_lib \<Rightarrow> http_head \<Rightarrow> 'd \<Rightarrow> bool" where
  "digest_challenge L h d = (hh_code h = Some 407 \<and> hh_version h \<noteq> None
     \<and> (case header_get (hh_headers h) ''Proxy-Authenticate'' of
          None \<Rightarrow> False
        | Some v \<Rightarrow> is_digest_scheme v \<and> valid_utf8 (bytes_string v) \<and> hl_digest_parse L (bytes_string v) = Inr d))"

definition closes :: "http_head \<Rightarrow> bool" where
  "closes h = (hh_version h = Some 0
     \<or> (case header_get (hh_headers h) ''Connection'' of
          Some v \<Rightarrow> to_ascii_lowercase (bytes_string v) = ''close'' | None \<Rightarrow> False))"

definition body_length :: "http_head \<Rightarrow> nat option" where
  "body_length h = (if header_get (hh_headers h) ''Transfer-Encoding'' \<noteq> None then None
     else case header_get (hh_headers h) ''Content-Length'' of
         None \<Rightarrow> None
       | Some v \<Rightarrow> (case content_length v of Inl _ \<Rightarrow> None | Inr n \<Rightarrow> Some n))"

lemma on_head_success:
  assumes "head_parses L m h" "hh_code h = Some 200" "hh_version h \<noteq> None"
  shows "on_head L (length m) (head_seen b (m @ q))
    = HAgain ((head_seen b q)\<lparr>hc_state := HttpEstablished\<rparr>)"
  using assms by (cases b) (auto simp: on_head_def head_seen_def head_parses_def)

lemma on_head_keep_alive:
  assumes "head_parses L m h" "digest_challenge L h d" "\<not> closes h" "body_length h = Some n" "\<not> hc_before b"
  shows "on_head L (length m) (head_seen b (m @ q))
    = HAgain ((head_seen b (m @ q))\<lparr>hc_digest_state := Some d, hc_before := True, hc_state := ExpectResponse,
        hc_skip := (n + length m) mod 2 ^ 64\<rparr>)"
  using assms
  by (auto simp: on_head_def head_seen_def head_parses_def digest_challenge_def closes_def body_length_def
      proxy_auth_required_def Let_def split: option.splits if_splits sum.splits)

lemma success_phase:
  assumes "head_parses L m h" "hh_code h = Some 200" "hh_version h \<noteq> None"
    and "hc_server_outbuf b = []" "hc_client_outbuf b = []" "hc_client_inbuf b = []"
    and "[] \<notin> set cs" "concat cs = m @ app"
  shows "handed_over (http_ops L) http_inv
    (proxy_session_loop (http_ops L) writes_succeed (map Inr cs) (reading b []) w) None w app"
proof -
  let ?f = "\<lambda>q. b\<lparr>hc_state := HttpEstablished, hc_server_inbuf := [], hc_counter := 0, hc_crlf_state := 0,
    hc_client_outbuf := q\<rparr>"
  have head: "is_head m" using assms(1) by (simp add: head_parses_def)
  have fire: "(case on_head L (length m) (head_seen b (m @ q)) of HDone r s' \<Rightarrow> Some (r, s')
      | HAgain s' \<Rightarrow> http_state_change L s') = Some (Inr (), ?f q)" for q
    unfolding on_head_success [OF assms(1-3)] using assms(4-6)
    by (cases b) (simp add: http_state_change_established head_seen_def)
  obtain q rest where "q @ concat rest = app" and run:
    "proxy_session_loop (http_ops L) writes_succeed (map Inr cs @ []) (reading b []) w
      = proxy_session_loop (http_ops L) writes_succeed (map Inr rest @ []) ((?f q)\<lparr>hc_server_outbuf := []\<rparr>)
          (w @ hc_server_outbuf (?f q))"
    using head_phase [OF head assms(4) fire, where ?q0.0 = "[]" and cs = cs and es = "[]" and w = w and app = app]
      assms(7,8) is_head_Nil [OF head] by (auto simp: strict_prefix_def)
  then show ?thesis using assms(4-6) unfolding handed_over_def
    by (subst (asm) (2) proxy_session_loop.simps) (auto simp: http_established_def http_inv_def http_peek_def)
qed

lemma skip_turn:
  assumes "hc_state s = ExpectResponse" "hc_skip s = k + length (hc_server_inbuf s)" "hc_counter s = 0"
    and "hc_crlf_state s = 0"
    and "auth_line L (hc_credentials s) (hc_digest_state s) (connect_host (hc_info s) (hc_domain_name s)) = Some (a, d)"
  shows "http_state_change L s = Some (Inr (), if k = 0
    then reading (s\<lparr>hc_skip := 0, hc_digest_state := d, hc_server_outbuf := hc_server_outbuf s
      @ connect_request (connect_host (hc_info s) (hc_domain_name s)) a\<rparr>) []
    else s\<lparr>hc_server_inbuf := [], hc_skip := k\<rparr>)"
proof (cases "k = 0")
  case False
  then have "http_turn L s = HDone (Inr ()) (s\<lparr>hc_server_inbuf := [], hc_skip := k\<rparr>)"
    using assms(1,2) by (simp add: http_turn_def Let_def)
  then show ?thesis using False by (subst http_state_change.simps) simp
next
  case True
  let ?s = "reading (s\<lparr>hc_skip := 0, hc_digest_state := d, hc_server_outbuf := hc_server_outbuf s
      @ connect_request (connect_host (hc_info s) (hc_domain_name s)) a\<rparr>) []"
  have "http_turn L s = HAgain ?s"
    using assms True by (cases s) (simp add: http_turn_def Let_def send_tunnel_request_line reading_def)
  moreover have "http_turn L ?s = HDone (Inr ()) ?s"
    by (simp add: http_turn_def reading_def)
  ultimately have "http_state_change L s = http_state_change L ?s" "http_state_change L ?s = Some (Inr (), ?s)"
    by (subst http_state_change.simps, simp)+
  then show ?thesis using True by simp
qed

lemma skip_phase:
  assumes "hc_state s = ExpectResponse" "hc_server_inbuf s = []" "hc_skip s = length (concat cs)" "hc_counter s = 0"
    and "hc_crlf_state s = 0" "hc_server_outbuf s = []" "[] \<notin> set cs" "cs \<noteq> []"
    and "auth_line L (hc_credentials s) (hc_digest_state s) (connect_host (hc_info s) (hc_domain_name s)) = Some (a, d)"
  shows "proxy_session_loop (http_ops L) writes_succeed (map Inr cs @ es) s w
    = proxy_session_loop (http_ops L) writes_succeed es (reading (s\<lparr>hc_skip := 0, hc_digest_state := d\<rparr>) [])
        (w @ connect_request (connect_host (hc_info s) (hc_domain_name s)) a)"
  using assms
proof (induction cs arbitrary: s)
  case Nil
  then show ?case by simp
next
  case (Cons c cs)
  have c: "c \<noteq> []" using Cons.prems by auto
  note turn = skip_turn [of "s\<lparr>hc_server_inbuf := c\<rparr>" "length (concat cs)" L a d]
  show ?case
  proof (cases "cs = []")
    case True
    then show ?thesis using turn Cons.prems c by (cases s) (simp add: http_loop_chunk reading_def)
  next
    case False
    define k where "k = length (concat cs)"
    have "k \<noteq> 0" using False Cons.prems(7) by (cases cs) (auto simp: k_def)
    let ?s = "s\<lparr>hc_server_inbuf := [], hc_skip := length (concat cs)\<rparr>"
    have "hc_skip s = k + length c" using Cons.prems(3) by (simp add: k_def)
    then have "http_state_change L (s\<lparr>hc_server_inbuf := hc_server_inbuf s @ c\<rparr>) = Some (Inr (), ?s)"
      using turn [folded k_def] Cons.prems(1,2,4,5,9) \<open>k \<noteq> 0\<close> unfolding k_def [symmetric] by simp
    then have "proxy_session_loop (http_ops L) writes_succeed (map Inr (c # cs) @ es) s w
        = proxy_session_loop (http_ops L) writes_succeed (map Inr cs @ es) ?s w"
      using Cons.prems(1,6) c http_loop_chunk [of s c L ?s] by simp
    moreover have "reading (?s\<lparr>hc_skip := 0, hc_digest_state := d\<rparr>) [] = reading (s\<lparr>hc_skip := 0, hc_digest_state := d\<rparr>) []"
      by (simp add: reading_def)
    ultimately show ?thesis using Cons.IH [of ?s] Cons.prems False by simp
  qed
qed

text \<open>A challenge on a connection that stays open: its body is skipped and the request sent again.\<close>

lemma challenge_phase:
  assumes "head_parses L m h" "digest_challenge L h d" "\<not> closes h" "body_length h = Some (length body)"
    and "length body + length m < 2 ^ 64" "\<not> hc_before b" "hc_server_outbuf b = []"
    and "auth_line L (hc_credentials b) (Some d) (connect_host (hc_info b) (hc_domain_name b)) = Some (a, d')"
    and "[] \<notin> set cs" "concat cs = m @ body"
  shows "proxy_session_loop (http_ops L) writes_succeed (map Inr cs @ es) (reading b []) w
    = proxy_session_loop (http_ops L) writes_succeed es
        (reading (b\<lparr>hc_skip := 0, hc_digest_state := d', hc_before := True\<rparr>) [])
        (w @ connect_request (connect_host (hc_info b) (hc_domain_name b)) a)"
proof -
  let ?req = "connect_request (connect_host (hc_info b) (hc_domain_name b)) a"
  let ?t = "\<lambda>q. (head_seen b q)\<lparr>hc_digest_state := Some d, hc_before := True, hc_state := ExpectResponse,
    hc_skip := length body + length m\<rparr>"
  let ?f = "\<lambda>q. if length body - length q = 0
    then reading (b\<lparr>hc_skip := 0, hc_digest_state := d', hc_before := True, hc_server_outbuf := ?req\<rparr>) []
    else (?t [])\<lparr>hc_skip := length body - length q\<rparr>"
  have head: "is_head m" using assms(1) by (simp add: head_parses_def)
  have fire: "(case on_head L (length m) (head_seen b (m @ q)) of HDone r s' \<Rightarrow> Some (r, s')
      | HAgain s' \<Rightarrow> http_state_change L s') = Some (Inr (), ?f q)" if "prefix q body" for q
  proof -
    have "length q \<le> length body" using that by (rule prefix_length_le)
    then have "http_state_change L (?t (m @ q)) = Some (Inr (), ?f q)"
      using skip_turn [of "?t (m @ q)" "length body - length q" L a d'] assms(7,8)
      by (cases b) (simp add: head_seen_def reading_def)
    then show ?thesis unfolding on_head_keep_alive [OF assms(1-4,6)] using assms(5) by simp
  qed
  obtain q rest where q: "q @ concat rest = body" "[] \<notin> set rest" and run:
    "proxy_session_loop (http_ops L) writes_succeed (map Inr cs @ es) (reading b []) w
      = proxy_session_loop (http_ops L) writes_succeed (map Inr rest @ es) ((?f q)\<lparr>hc_server_outbuf := []\<rparr>)
          (w @ hc_server_outbuf (?f q))"
    using head_phase [OF head assms(7) fire, where ?q0.0 = "[]" and cs = cs and es = es and w = w]
      assms(9,10) is_head_Nil [OF head] by (auto simp: strict_prefix_def)
  show ?thesis
  proof (cases "rest = []")
    case True
    then show ?thesis using run q(1) assms(7) by (cases b) (simp add: reading_def)
  next
    case False
    define k where "k = length (concat rest)"
    have "k \<noteq> 0" using False q(2) by (cases rest) (auto simp: k_def)
    moreover have "length body - length q = k" using q(1) unfolding k_def by (metis add_diff_cancel_left' length_append)
    ultimately have "proxy_session_loop (http_ops L) writes_succeed (map Inr cs @ es) (reading b []) w
      = proxy_session_loop (http_ops L) writes_succeed (map Inr rest @ es) ((?t [])\<lparr>hc_skip := length (concat rest)\<rparr>) w"
      using run assms(7) unfolding k_def [symmetric] by (simp add: head_seen_def)
    also have "\<dots> = proxy_session_loop (http_ops L) writes_succeed es
        (reading (((?t [])\<lparr>hc_skip := length (concat rest)\<rparr>)\<lparr>hc_skip := 0, hc_digest_state := d'\<rparr>) []) (w @ ?req)"
      using skip_phase [of "(?t [])\<lparr>hc_skip := length (concat rest)\<rparr>" rest L a d' es w] q(2) False assms(7,8)
      by (simp add: head_seen_def)
    finally show ?thesis by (cases b) (simp add: head_seen_def reading_def)
  qed
qed

lemma on_head_close:
  assumes "head_parses L m h" "digest_challenge L h d" "closes h" "\<not> hc_before b"
    and "auth_line L (hc_credentials b) (Some d) (connect_host (hc_info b) (hc_domain_name b)) = Some (a, d')"
  shows "on_head L (length m) (head_seen b (m @ q))
    = HDone (Inr ()) ((head_seen b [])\<lparr>hc_digest_state := d', hc_before := True, hc_state := HttpReset,
        hc_server_outbuf := connect_request (connect_host (hc_info b) (hc_domain_name b)) a\<rparr>)"
proof -
  have "restart_request L ((head_seen b (m @ q))\<lparr>hc_digest_state := Some d, hc_before := True\<rparr>)
    = HDone (Inr ()) ((head_seen b [])\<lparr>hc_digest_state := d', hc_before := True, hc_state := HttpReset,
        hc_server_outbuf := connect_request (connect_host (hc_info b) (hc_domain_name b)) a\<rparr>)"
    using assms(5) by (cases b) (simp add: restart_request_def send_tunnel_request_line head_seen_def)
  then show ?thesis using assms(1-4)
    by (auto simp: on_head_def head_seen_def head_parses_def digest_challenge_def closes_def
        proxy_auth_required_def Let_def split: option.splits if_splits)
qed

section \<open>Termination of the state machine\<close>

text \<open>A head in the buffer whose length and announced body length have a sum that does not wrap.\<close>

definition no_wrap :: "'d http_lib \<Rightarrow> bytes \<Rightarrow> bool" where
  "no_wrap L bs = (case hl_parse L bs of
     Inr (CompleteHead len h) \<Rightarrow> 0 < len \<and> (case header_get (hh_headers h) ''Content-Length'' of
         None \<Rightarrow> True
       | Some v \<Rightarrow> (case content_length v of Inl _ \<Rightarrow> True | Inr n \<Rightarrow> n + len < 2 ^ 64))
   | _ \<Rightarrow> True)"

definition skip_pending :: "'d http \<Rightarrow> bool" where
  "skip_pending s = (hc_state s = ExpectResponse \<longrightarrow> 0 < hc_skip s)"

primrec state_rank :: "http_state \<Rightarrow> nat" where
  "state_rank HttpSendRequest = 0"
| "state_rank HttpEstablished = 0"
| "state_rank ExpectResponse = 1"
| "state_rank ExpectResponseHeaders = 2"
| "state_rank HttpReset = 3"

definition turns_left :: "'d http \<Rightarrow> nat" where
  "turns_left s = 4 * length (hc_server_inbuf s) + state_rank (hc_state s)"

lemma send_tunnel_request_inbuf:
  "send_tunnel_request L s = (r, s') \<Longrightarrow> hc_server_inbuf s' = hc_server_inbuf s"
  by (auto simp: send_tunnel_request_def http_send_auth_data_def Let_def
      split: prod.splits sum.splits option.splits authentication_scheme.splits)

lemma proxy_auth_required_again:
  assumes "proxy_auth_required L len v hs s = HAgain s'"
  shows "\<exists>w n. header_get hs ''Content-Length'' = Some w \<and> content_length w = Inr n
    \<and> hc_state s' = ExpectResponse \<and> hc_skip s' = (n + len) mod 2 ^ 64 \<and> hc_server_inbuf s' = hc_server_inbuf s"
  using assms unfolding proxy_auth_required_def restart_request_def Let_def
  by (auto split: option.splits if_splits sum.splits prod.splits)

lemma on_head_again:
  assumes "on_head L n s = HAgain s'" "no_wrap L (hc_server_inbuf s)"
  shows "(hc_state s' = HttpEstablished \<and> hc_server_inbuf s' = drop n (hc_server_inbuf s))
    \<or> (hc_state s' = ExpectResponse \<and> 0 < hc_skip s' \<and> hc_server_inbuf s' = hc_server_inbuf s)"
proof -
  obtain len h where parse: "hl_parse L (hc_server_inbuf s) = Inr (CompleteHead len h)"
    using assms(1) by (auto simp: on_head_def split: sum.splits http_status.splits)
  show ?thesis
  proof (cases "hh_code h = Some 200")
    case True
    then show ?thesis using assms(1) parse by (auto simp: on_head_def split: option.splits)
  next
    case False
    then obtain v where "proxy_auth_required L len v (hh_headers h) s = HAgain s'"
      using assms(1) parse by (auto simp: on_head_def split: option.splits if_splits)
    from proxy_auth_required_again [OF this] show ?thesis using assms(2) parse by (auto simp: no_wrap_def)
  qed
qed

lemma http_turn_again:
  assumes "http_turn L s = HAgain s'" "skip_pending s" "no_wrap L (hc_server_inbuf s)"
  shows "skip_pending s' \<and> turns_left s' < turns_left s \<and> (\<exists>k. hc_server_inbuf s' = drop k (hc_server_inbuf s))"
proof (cases "hc_state s")
  case ExpectResponseHeaders
  then obtain n where "on_head L n (s\<lparr>hc_counter := 0, hc_crlf_state := 0\<rparr>) = HAgain s'"
    using assms(1) by (auto simp: http_turn_def split: prod.splits if_splits)
  from on_head_again [OF this] assms(3) ExpectResponseHeaders show ?thesis
    by (auto simp: skip_pending_def turns_left_def intro: exI [of _ 0])
next
  case ExpectResponse
  let ?s = "s\<lparr>hc_server_inbuf := drop (hc_skip s) (hc_server_inbuf s), hc_skip := 0\<rparr>"
  have skip: "0 < hc_skip s" using assms(2) ExpectResponse by (simp add: skip_pending_def)
  have le: "hc_skip s \<le> length (hc_server_inbuf s)"
    using assms(1) ExpectResponse by (auto simp: http_turn_def Let_def min_def split: if_splits)
  obtain r s2 where req: "send_tunnel_request L ?s = (r, s2)" by fastforce
  have "http_turn L s = (case r of Inl e \<Rightarrow> HDone (Inl e) s2 | Inr _ \<Rightarrow> HAgain (s2\<lparr>hc_state := ExpectResponseHeaders\<rparr>))"
    using ExpectResponse le req by (simp add: http_turn_def Let_def)
  then have "s' = s2\<lparr>hc_state := ExpectResponseHeaders\<rparr>" using assms(1) by (simp split: sum.splits)
  then have "hc_state s' = ExpectResponseHeaders" "hc_server_inbuf s' = drop (hc_skip s) (hc_server_inbuf s)"
    using send_tunnel_request_inbuf [OF req] by simp_all
  then show ?thesis using ExpectResponse skip le 
    by (auto simp: skip_pending_def turns_left_def)
qed (use assms(1) in \<open>auto simp: http_turn_def skip_pending_def turns_left_def intro: exI [of _ 0]\<close>)

lemma http_turn_done:
  assumes "http_turn L s = HDone (Inr ()) s'"
  shows "skip_pending s'"
proof -
  have "skip_pending s'" if "on_head L n t = HDone (Inr ()) s'" "hc_state t = ExpectResponseHeaders" for n t
    using that by (auto simp: on_head_def proxy_auth_required_def restart_request_def Let_def skip_pending_def
        split: sum.splits http_status.splits option.splits if_splits prod.splits)
  then show ?thesis using assms
    by (auto simp: http_turn_def Let_def skip_pending_def split: http_state.splits prod.splits if_splits sum.splits)
qed

lemma http_state_change_returns:
  assumes "skip_pending s" "\<forall>k. no_wrap L (drop k (hc_server_inbuf s))"
  shows "\<exists>r s'. http_state_change L s = Some (r, s') \<and> (r = Inr () \<longrightarrow> skip_pending s')"
  using assms
proof (induction "turns_left s" arbitrary: s rule: less_induct)
  case less
  have wrap: "no_wrap L (hc_server_inbuf s)" using less.prems(2) [rule_format, of 0] by simp
  show ?case
  proof (cases "http_turn L s")
    case (HDone r s')
    then show ?thesis using http_turn_done [of L s s'] by (subst http_state_change.simps) auto
  next
    case (HAgain s')
    note again = http_turn_again [OF HAgain less.prems(1) wrap]
    then have "\<forall>k. no_wrap L (drop k (hc_server_inbuf s'))" using less.prems(2) by auto
    then show ?thesis using less.hyps [of s'] again HAgain by (subst http_state_change.simps) simp
  qed
qed

text \<open>A stale challenge whose sum wraps to nothing to skip is answered for ever.\<close>

definition wraps :: "bytes \<Rightarrow> 'd http \<Rightarrow> 'd http \<Rightarrow> bool" where
  "wraps m b s = (hc_server_inbuf s = m \<and> hc_counter s = 0 \<and> hc_crlf_state s = 0
     \<and> hc_credentials s = hc_credentials b \<and> hc_info s = hc_info b \<and> hc_domain_name s = hc_domain_name b
     \<and> (hc_state s = ExpectResponseHeaders \<or> hc_state s = ExpectResponse \<and> hc_skip s = 0))"

lemma wraps_turn:
  assumes "head_parses L m h" "digest_challenge L h d" "hl_stale L d" "\<not> closes h" "body_length h = Some n"
    and "n + length m = 2 ^ 64"
    and "\<forall>dg. auth_line L (hc_credentials b) dg (connect_host (hc_info b) (hc_domain_name b)) \<noteq> None"
    and "wraps m b s"
  shows "\<exists>s'. http_turn L s = HAgain s' \<and> wraps m b s'"
proof (cases "hc_state s = ExpectResponse")
  case True
  obtain a dg where "auth_line L (hc_credentials s) (hc_digest_state s) (connect_host (hc_info s) (hc_domain_name s)) = Some (a, dg)"
    using assms(7) [rule_format, of "hc_digest_state s"] assms(8) by (auto simp: wraps_def)
  then show ?thesis using True assms(8) by (auto simp: http_turn_def wraps_def Let_def send_tunnel_request_line)
next
  case False
  have head: "is_head m" using assms(1) by (simp add: head_parses_def)
  have parse: "hl_parse L m = Inr (CompleteHead (length m) h)" using assms(1) by (auto simp: head_parses_def dest: spec [of _ "[]"])
  have "http_turn L s = on_head L (length m) (s\<lparr>hc_counter := 0, hc_crlf_state := 0\<rparr>)"
    using False assms(8) head by (auto simp: http_turn_def wraps_def is_head_def)
  also have "\<dots> = HAgain (s\<lparr>hc_counter := 0, hc_crlf_state := 0, hc_digest_state := Some d, hc_before := True,
      hc_state := ExpectResponse, hc_skip := 0\<rparr>)"
    using assms(2-6,8) parse
    by (auto simp: on_head_def digest_challenge_def closes_def body_length_def wraps_def
        proxy_auth_required_def Let_def split: option.splits if_splits sum.splits)
  finally show ?thesis using assms(8) by (auto simp: wraps_def)
qed

lemma wraps_diverges:
  assumes turn: "\<And>s. wraps m b s \<Longrightarrow> \<exists>s'. http_turn L s = HAgain s' \<and> wraps m b s'" and "wraps m b s"
  shows "http_state_change L s = None"
proof (rule ccontr)
  assume "http_state_change L s \<noteq> None"
  then obtain y where "http_state_change L s = Some y" by auto
  then have "L = L \<longrightarrow> wraps m b s \<longrightarrow> False"
  proof (rule http_state_change.raw_induct [of "\<lambda>L' s y. L' = L \<longrightarrow> wraps m b s \<longrightarrow> False", rotated], intro impI)
    fix f L' s y
    assume IH: "\<And>L' s y. f L' s = Some y \<Longrightarrow> L' = L \<longrightarrow> wraps m b s \<longrightarrow> False"
      and body: "(case http_turn L' s of HDone r s' \<Rightarrow> Some (r, s') | HAgain s' \<Rightarrow> f L' s') = Some y"
      and L: "L' = L" and w: "wraps m b s"
    obtain s' where "http_turn L s = HAgain s'" "wraps m b s'" using turn [OF w] by blast
    then show False using body IH [of L s' y] L by simp
  qed
  then show False using assms(2) by simp
qed

section \<open>Correctness of the handshake\<close>

text \<open>
  An instance of the libraries: a head is told from its first octet, 50 for a success, 52 for a challenge
  with a body of two octets, 53 for one that closes and 54 for a stale one that announces a length near
  \<^verbatim>\<open>2 ^ 64\<close>.
\<close>

definition ok_head :: http_head where
  "ok_head = \<lparr>hh_code = Some 200, hh_version = Some 1, hh_reason = Some ''OK'', hh_headers = []\<rparr>"

definition challenge_head :: "(string \<times> string) list \<Rightarrow> http_head" where
  "challenge_head hs = \<lparr>hh_code = Some 407, hh_version = Some 1, hh_reason = None,
     hh_headers = map (\<lambda>(n, v). (n, string_bytes v)) ((''Proxy-Authenticate'', ''Digest x'') # hs)\<rparr>"

definition demo_http :: "nat http_lib" where
  "demo_http = \<lparr>hl_base64 = id,
     hl_parse = (\<lambda>bs. Inr (case bs of
         [] \<Rightarrow> PartialHead
       | b # _ \<Rightarrow> if b = 50 then CompleteHead 3 ok_head
           else if b = 52 then CompleteHead 3 (challenge_head [(''Content-Length'', ''2'')])
           else if b = 53 then CompleteHead 3 (challenge_head [(''Connection'', ''Close'')])
           else if b = 54 then CompleteHead 3 (challenge_head [(''Content-Length'', ''18446744073709551613'')])
           else PartialHead)),
     hl_digest_parse = (\<lambda>_. Inr 7), hl_stale = (\<lambda>_. True),
     hl_respond = (\<lambda>d u p uri. (Inr u, d + 1))\<rparr>"

definition demo_http_info :: session_info where
  "demo_http_info = \<lparr>src = SocketAddr (V4 1) 5, dst = SocketAddr (V4 2) 80, protocol = Tcp, session_id = 0\<rparr>"

lemma demo_heads:
  "head_parses demo_http [50, 10, 10] ok_head"
  "head_parses demo_http [52, 10, 10] (challenge_head [(''Content-Length'', ''2'')])"
  "head_parses demo_http [53, 10, 10] (challenge_head [(''Connection'', ''Close'')])"
  "head_parses demo_http [54, 10, 10] (challenge_head [(''Content-Length'', ''18446744073709551613'')])"
  by (simp_all add: head_parses_def is_head_def demo_http_def)

lemma lower_header_names [simp]:
  "to_ascii_lowercase ''Proxy-Authenticate'' = ''proxy-authenticate''"
  "to_ascii_lowercase ''Connection'' = ''connection''"
  "to_ascii_lowercase ''Transfer-Encoding'' = ''transfer-encoding''"
  "to_ascii_lowercase ''Content-Length'' = ''content-length''"
  by code_simp+

lemma demo_header_get:
  "header_get (hh_headers (challenge_head [(n, v)])) x = (if to_ascii_lowercase n = to_ascii_lowercase x
     then Some (string_bytes v)
     else if ''proxy-authenticate'' = to_ascii_lowercase x then Some (string_bytes ''Digest x'') else None)"
  by (simp add: header_get_def challenge_head_def)

lemma demo_digest_value:
  "is_digest_scheme (string_bytes ''Digest x'') \<and> valid_utf8 (bytes_string (string_bytes ''Digest x''))"
  "to_ascii_lowercase (bytes_string (string_bytes ''Close'')) = ''close''"
  by code_simp+

lemma demo_challenges:
  "digest_challenge demo_http (challenge_head [(''Content-Length'', v)]) 7"
  "digest_challenge demo_http (challenge_head [(''Connection'', v)]) 7"
  "closes (challenge_head [(''Connection'', ''Close'')])"
  "\<not> closes (challenge_head [(''Content-Length'', v)])"
proof -
  have "hh_code (challenge_head hs) = Some 407 \<and> hh_version (challenge_head hs) = Some 1" for hs
    by (simp add: challenge_head_def)
  moreover have "hl_digest_parse demo_http x = Inr 7" for x by (simp add: demo_http_def)
  ultimately show "digest_challenge demo_http (challenge_head [(''Content-Length'', v)]) 7"
    "digest_challenge demo_http (challenge_head [(''Connection'', v)]) 7"
    "closes (challenge_head [(''Connection'', ''Close'')])" "\<not> closes (challenge_head [(''Content-Length'', v)])"
    using demo_digest_value
    by (simp_all add: digest_challenge_def closes_def demo_header_get)
qed

lemma demo_lengths:
  "body_length (challenge_head [(''Content-Length'', ''2'')]) = Some 2"
  "body_length (challenge_head [(''Content-Length'', ''18446744073709551613'')]) = Some 18446744073709551613"
proof -
  have "header_get (hh_headers (challenge_head [(''Content-Length'', n)])) ''Transfer-Encoding'' = None"
    "header_get (hh_headers (challenge_head [(''Content-Length'', n)])) ''Content-Length'' = Some (string_bytes n)" for n
    by (simp_all add: demo_header_get)
  moreover have "content_length (string_bytes ''2'') = Inr 2"
    "content_length (string_bytes ''18446744073709551613'') = Inr 18446744073709551613"
    by (simp_all add: content_length_def string_bytes_def bytes_string_def parse_usize_def digit_of_def usize_max_def
        char_of_eq_iff)
  ultimately show "body_length (challenge_head [(''Content-Length'', ''2'')]) = Some 2"
    "body_length (challenge_head [(''Content-Length'', ''18446744073709551613'')]) = Some 18446744073709551613"
    by (simp_all add: body_length_def)
qed

text \<open>
  C5. HTTP CONNECT.  For a TCP destination the handler writes one CONNECT request, with the authorization
  line the credentials and the Digest state call for; when the proxy answers with a head of status 200,
  however its octets are cut into reads, the session is established, nothing more is written, and every
  octet after the head reaches the application, no more and no less.
\<close>

theorem http_connect:
  assumes "protocol i = Tcp" "auth_line L cred digest (connect_host i domain) = Some (a, d)"
    and "head_parses L m resp" "hh_code resp = Some 200" "hh_version resp \<noteq> None"
    and "[] \<notin> set cs" "concat cs = m @ app"
  shows "\<exists>h. new_http_handler L server cred digest i domain = Inr h
    \<and> handed_over (http_ops L) http_inv (handle_proxy_session (http_ops L) writes_succeed (map Inr cs) h) None
        (connect_request (connect_host i domain) a) app"
proof -
  obtain h where h: "new_http_handler L server cred digest i domain = Inr h"
    "handle_proxy_session (http_ops L) writes_succeed (map Inr cs) h
      = proxy_session_loop (http_ops L) writes_succeed (map Inr cs) (reading (waiting server i domain cred d) [])
          (connect_request (connect_host i domain) a)"
    using new_handler_session [OF assms(1,2)] by blast
  then show ?thesis using success_phase [OF assms(3-5) _ _ _ assms(6,7), of "waiting server i domain cred d"]
    by (simp add: waiting_def)
qed

theorem http_connect_witness:
  "\<exists>h. new_http_handler demo_http (SocketAddr (V4 9) 8080) None None demo_http_info (Some ''a.b'') = Inr h
    \<and> handed_over (http_ops demo_http) http_inv
        (handle_proxy_session (http_ops demo_http) writes_succeed (map Inr [[50, 10], [10, 1], [2]]) h) None
        (connect_request ''a.b:80'' []) [1, 2]"
proof -
  have host: "connect_host demo_http_info (Some ''a.b'') = ''a.b:80''" by code_simp
  show ?thesis
    using http_connect [of demo_http_info demo_http None None "Some ''a.b''" "[]" None, OF _ _ demo_heads(1),
        where cs = "[[50, 10], [10, 1], [2]]" and app = "[1, 2]" and server = "SocketAddr (V4 9) 8080"]
    unfolding host by (simp add: auth_line_def ok_head_def demo_http_info_def)
qed

text \<open>
  C15. The Digest handshake.  When the proxy answers the first request with a Digest challenge on a
  connection that stays open, the handler skips exactly the announced body, sends one request authorized
  for that challenge, and after a head of status 200 hands over every octet that follows; the
  cutting of either response into reads does not matter.
\<close>

theorem http_digest_retry:
  assumes "protocol i = Tcp" "auth_line L cred digest (connect_host i domain) = Some (a0, d0)"
    and "head_parses L m1 h1" "digest_challenge L h1 d" "\<not> closes h1" "body_length h1 = Some (length body)"
    and "length body + length m1 < 2 ^ 64"
    and "auth_line L cred (Some d) (connect_host i domain) = Some (a1, d1)"
    and "head_parses L m2 h2" "hh_code h2 = Some 200" "hh_version h2 \<noteq> None"
    and "[] \<notin> set cs1" "concat cs1 = m1 @ body" "[] \<notin> set cs2" "concat cs2 = m2 @ app"
  shows "\<exists>h. new_http_handler L server cred digest i domain = Inr h
    \<and> handed_over (http_ops L) http_inv (handle_proxy_session (http_ops L) writes_succeed (map Inr (cs1 @ cs2)) h) None
        (connect_request (connect_host i domain) a0 @ connect_request (connect_host i domain) a1) app"
proof -
  let ?b = "waiting server i domain cred d0" and ?host = "connect_host i domain"
  obtain h where h: "new_http_handler L server cred digest i domain = Inr h"
    "handle_proxy_session (http_ops L) writes_succeed (map Inr (cs1 @ cs2)) h
      = proxy_session_loop (http_ops L) writes_succeed (map Inr cs1 @ map Inr cs2) (reading ?b []) (connect_request ?host a0)"
    using new_handler_session [OF assms(1,2)] by fastforce
  have "proxy_session_loop (http_ops L) writes_succeed (map Inr cs1 @ map Inr cs2) (reading ?b []) (connect_request ?host a0)
      = proxy_session_loop (http_ops L) writes_succeed (map Inr cs2)
          (reading (?b\<lparr>hc_skip := 0, hc_digest_state := d1, hc_before := True\<rparr>) [])
          (connect_request ?host a0 @ connect_request ?host a1)"
    using challenge_phase [OF assms(3-7) _ _ _ assms(12,13), of ?b] assms(8) by (simp add: waiting_def)
  then show ?thesis using h success_phase [OF assms(9-11) _ _ _ assms(14,15),
        of "?b\<lparr>hc_skip := 0, hc_digest_state := d1, hc_before := True\<rparr>"]
    by (simp add: waiting_def)
qed

theorem http_digest_retry_witness:
  "\<exists>h. new_http_handler demo_http (SocketAddr (V4 9) 8080) (Some \<lparr>username = ''u'', password = ''p''\<rparr>) None
        demo_http_info (Some ''a.b'') = Inr h
    \<and> handed_over (http_ops demo_http) http_inv (handle_proxy_session (http_ops demo_http) writes_succeed
        (map Inr ([[52], [10, 10, 8], [9]] @ [[50, 10, 10, 1]])) h) None
        (connect_request ''a.b:80'' (''Proxy-Authorization: Basic u:p'' @ crlf)
          @ connect_request ''a.b:80'' (''Proxy-Authorization: u'' @ crlf)) [1]"
proof -
  let ?c = "\<lparr>username = ''u'', password = ''p''\<rparr>"
  have host: "connect_host demo_http_info (Some ''a.b'') = ''a.b:80''" by code_simp
  have line0: "auth_line demo_http (Some ?c) None ''a.b:80'' = Some (''Proxy-Authorization: Basic u:p'' @ crlf, None)"
    by (simp add: auth_line_def basic_auth_header_value_def demo_http_def)
  have line1: "auth_line demo_http (Some ?c) (Some 7) ''a.b:80'' = Some (''Proxy-Authorization: u'' @ crlf, Some 8)"
    by (simp add: auth_line_def demo_http_def)
  show ?thesis
    using http_digest_retry [of demo_http_info demo_http "Some ?c" None "Some ''a.b''" _ _, unfolded host,
        OF _ line0 demo_heads(2) demo_challenges(1) [of "''2''"] demo_challenges(4) [of "''2''"] _ _ line1 demo_heads(1),
        where ?cs1.0 = "[[52], [10, 10, 8], [9]]" and ?cs2.0 = "[[50, 10, 10, 1]]" and app = "[1]"
        and server = "SocketAddr (V4 9) 8080" and body = "[8, 9]"] demo_lengths(1)
    by (simp add: ok_head_def demo_http_info_def)
qed

text \<open>
  C39. A challenge that closes the connection is answered on that connection.  The handler asks for the
  connection to be reset, but the session writes the authorized request to the connection the proxy
  announced it would close, and fails when the proxy does close it.
\<close>

theorem http_close_not_reopened:
  assumes "protocol i = Tcp" "auth_line L cred digest (connect_host i domain) = Some (a0, d0)"
    and "head_parses L m resp" "digest_challenge L resp d" "closes resp"
    and "auth_line L cred (Some d) (connect_host i domain) = Some (a1, d1)"
    and "[] \<notin> set cs" "concat cs = m"
  shows "\<exists>h h'. new_http_handler L server cred digest i domain = Inr h \<and> http_reset h'
    \<and> handle_proxy_session (http_ops L) writes_succeed (map Inr cs @ [Inr []]) h
      = Some (Ready (Inl (StringError ''server closed accidentially'')), h',
          connect_request (connect_host i domain) a0 @ connect_request (connect_host i domain) a1, [])"
proof -
  let ?b = "waiting server i domain cred d0" and ?host = "connect_host i domain"
  let ?f = "(head_seen ?b [])\<lparr>hc_digest_state := d1, hc_before := True, hc_state := HttpReset,
    hc_server_outbuf := connect_request ?host a1\<rparr>"
  have head: "is_head m" using assms(3) by (simp add: head_parses_def)
  obtain h where h: "new_http_handler L server cred digest i domain = Inr h"
    "handle_proxy_session (http_ops L) writes_succeed (map Inr cs @ [Inr []]) h
      = proxy_session_loop (http_ops L) writes_succeed (map Inr cs @ [Inr []]) (reading ?b []) (connect_request ?host a0)"
    using new_handler_session [OF assms(1,2)] by blast
  have fire: "(case on_head L (length m) (head_seen ?b (m @ q)) of HDone r s' \<Rightarrow> Some (r, s')
      | HAgain s' \<Rightarrow> http_state_change L s') = Some (Inr (), ?f)" for q
    using on_head_close [OF assms(3-5), of ?b a1 d1] assms(6) by (simp add: waiting_def)
  obtain q rest where "q @ concat rest = []" "[] \<notin> set rest" and run:
    "proxy_session_loop (http_ops L) writes_succeed (map Inr cs @ [Inr []]) (reading ?b []) (connect_request ?host a0)
      = proxy_session_loop (http_ops L) writes_succeed (map Inr rest @ [Inr []]) (?f\<lparr>hc_server_outbuf := []\<rparr>)
          (connect_request ?host a0 @ hc_server_outbuf ?f)"
    using head_phase [OF head _ fire, where ?q0.0 = "[]" and cs = cs and es = "[Inr []]" and app = "[]"]
      assms(7,8) is_head_Nil [OF head] by (auto simp: strict_prefix_def waiting_def)
  then have "rest = []" by (cases rest) auto
  then show ?thesis using h run
    by (subst (asm) (2) proxy_session_loop.simps) (auto simp: http_established_def http_reset_def)
qed

theorem http_close_not_reopened_witness:
  "\<exists>h h'. new_http_handler demo_http (SocketAddr (V4 9) 8080) None None demo_http_info (Some ''a.b'') = Inr h
    \<and> http_reset h' \<and> handle_proxy_session (http_ops demo_http) writes_succeed (map Inr [[53, 10], [10]] @ [Inr []]) h
      = Some (Ready (Inl (StringError ''server closed accidentially'')), h',
          connect_request ''a.b:80'' [] @ connect_request ''a.b:80'' [], [])"
proof -
  have host: "connect_host demo_http_info (Some ''a.b'') = ''a.b:80''" by code_simp
  show ?thesis
    using http_close_not_reopened [of demo_http_info demo_http None None "Some ''a.b''" "[]" None _ _ 7 "[]" "Some 7",
        unfolded host, OF _ _ demo_heads(3) demo_challenges(2) [of "''Close''"] demo_challenges(3), where cs = "[[53, 10], [10]]"
        and server = "SocketAddr (V4 9) 8080"]
    by (simp add: auth_line_def demo_http_info_def)
qed

text \<open>
  C27. The state machine returns.  A push in either direction returns a result, an error included, when no
  head found in the received octets announces a body whose length wraps when the head's own length is
  added to it; after a success the handler can take the next push on the same terms.
\<close>

theorem http_push_returns:
  assumes "skip_pending h"
    and "\<forall>k. no_wrap L (drop k (hc_server_inbuf h @ (if d = FromServer then data else [])))"
  shows "\<exists>r h'. http_push L d data h = Some (r, h') \<and> (r = Inr () \<longrightarrow> skip_pending h')"
proof -
  let ?s = "case d of FromServer \<Rightarrow> h\<lparr>hc_server_inbuf := hc_server_inbuf h @ data\<rparr>
   | FromClient \<Rightarrow> h\<lparr>hc_client_inbuf := hc_client_inbuf h @ data\<rparr>"
  have "skip_pending ?s" using assms(1) by (cases d) (simp_all add: skip_pending_def)
  moreover have "\<forall>k. no_wrap L (drop k (hc_server_inbuf ?s))" using assms(2) by (cases d) simp_all
  ultimately obtain r s' where "http_state_change L ?s = Some (r, s')" "r = Inr () \<longrightarrow> skip_pending s'"
    using http_state_change_returns by blast
  then show ?thesis by (cases r) (simp_all add: http_push_def error_into_io_result_def)
qed

theorem http_push_returns_witness:
  "\<exists>r h'. http_push demo_http FromServer [50, 10, 10, 7] (waiting (SocketAddr (V4 9) 8080) demo_http_info None None None)
      = Some (r, h') \<and> (r = Inr () \<longrightarrow> skip_pending h')"
proof -
  have "no_wrap demo_http (drop k [50, 10, 10, 7])" for k
    by (simp add: drop_Cons' no_wrap_def demo_http_def ok_head_def header_get_def)
  then show ?thesis
    using http_push_returns [of "waiting (SocketAddr (V4 9) 8080) demo_http_info None None None" demo_http FromServer
        "[50, 10, 10, 7]"] by (simp add: skip_pending_def waiting_def)
qed

text \<open>
  C40. The sum of lengths can wrap.  When a stale Digest challenge announces a body such that its length
  and that of the head add up to \<^verbatim>\<open>2 ^ 64\<close>, nothing is skipped, the same head is read again and the
  push that received it never returns.
\<close>

theorem http_push_wraps:
  assumes "head_parses L m resp" "digest_challenge L resp d" "hl_stale L d" "\<not> closes resp" "body_length resp = Some n"
    and "n + length m = 2 ^ 64"
    and "\<forall>dg. auth_line L cred dg (connect_host i domain) \<noteq> None"
  shows "http_push L FromServer m (waiting server i domain cred digest) = None"
proof -
  let ?b = "waiting server i domain cred digest"
  have "wraps m ?b (?b\<lparr>hc_server_inbuf := m\<rparr>)" by (simp add: wraps_def waiting_def)
  then have "http_state_change L (?b\<lparr>hc_server_inbuf := m\<rparr>) = None"
    using wraps_turn [OF assms(1-6), of ?b] assms(7) by (intro wraps_diverges) (auto simp: waiting_def)
  then show ?thesis by (simp add: http_push_def waiting_def)
qed

theorem http_push_wraps_witness:
  "http_push demo_http FromServer [54, 10, 10] (waiting (SocketAddr (V4 9) 8080) demo_http_info None None None) = None"
  using http_push_wraps [OF demo_heads(4) demo_challenges(1) _ demo_challenges(4) demo_lengths(2),
      of None demo_http_info None "SocketAddr (V4 9) 8080" None]
  by (simp add: auth_line_def demo_http_def)

end
