(* ===== verification/WindowsRoutes.thy ===== *)
theory WindowsRoutes
  imports ProxyHandler "HOL-Library.Product_Lexorder"
begin

text \<open>
  Transactional route, interface and DNS setup on Windows, \<^verbatim>\<open>src/windows_network_config.rs\<close>: installing
  and removing the rows of a TUN session, refreshing and extending its bypass routes, and the monitor
  thread.  The trait \<^verbatim>\<open>NetworkOperations\<close> is a record of operations on a state of the machine; the
  address ranges and the setup arguments come from other crates and are parameters.  Errors keep the
  structure of their context instead of a formatted text.
\<close>

section \<open>Data\<close>

type_synonym luid = "64 word"

record route_address =
  ra_ip :: ip_addr
  ra_scope_id :: u32

definition route_address_new :: "ip_addr \<Rightarrow> route_address" where
  "route_address_new ip = \<lparr>ra_ip = ip, ra_scope_id = 0\<rparr>"

record route_spec =
  rs_destination :: ip_addr
  rs_prefix_len :: nat
  rs_next_hop :: route_address
  rs_interface_luid :: luid
  rs_metric :: u32

type_synonym dns_snapshot = "string option"

datatype add_outcome = Created | Preexisting

datatype interface_role = TunRole | WslHns

record interface_target =
  it_luid :: luid
  it_alias :: string
  it_role :: interface_role

record interface_settings =
  st_forwarding :: bool
  st_weak_host_send :: bool
  st_weak_host_receive :: bool

record interface_patch =
  pa_forwarding :: "bool option"
  pa_weak_host_send :: "bool option"
  pa_weak_host_receive :: "bool option"

definition patch_default :: interface_patch where
  "patch_default = \<lparr>pa_forwarding = None, pa_weak_host_send = None, pa_weak_host_receive = None\<rparr>"

definition patch_is_empty :: "interface_patch \<Rightarrow> bool" where
  "patch_is_empty p = (pa_forwarding p = None \<and> pa_weak_host_send p = None \<and> pa_weak_host_receive p = None)"

definition own_field :: "bool option \<Rightarrow> bool \<Rightarrow> bool option \<Rightarrow> bool option" where
  "own_field patch before self = (if patch \<noteq> None \<and> self = None then Some before else self)"

definition merge_owned :: "interface_patch \<Rightarrow> interface_settings \<Rightarrow> interface_patch \<Rightarrow> interface_patch" where
  "merge_owned patch before self =
     \<lparr>pa_forwarding = own_field (pa_forwarding patch) (st_forwarding before) (pa_forwarding self),
      pa_weak_host_send = own_field (pa_weak_host_send patch) (st_weak_host_send before) (pa_weak_host_send self),
      pa_weak_host_receive =
        own_field (pa_weak_host_receive patch) (st_weak_host_receive before) (pa_weak_host_receive self)\<rparr>"

record interface_snapshot =
  sn_target :: interface_target
  sn_before :: interface_settings
  sn_restore :: interface_patch

text \<open>An error is a status of the system, an error of this module, or one put in a context.\<close>

datatype net_error =
    OsError nat
  | NetError io_error_kind string
  | InContext string net_error
  | RollbackIncomplete net_error net_error net_error
  | TeardownFailed "teardown_failure list"
and teardown_failure =
    DeleteRoute route_spec net_error
  | RestoreDns net_error
  | RestoreSettings interface_target net_error

type_synonym 'a net_result = "net_error + 'a"

text \<open>The status constants of the Win32 bindings.\<close>

record win_codes =
  no_error :: nat
  error_file_not_found :: nat
  error_not_found :: nat
  error_object_already_exists :: nat

record 'o net_ops =
  op_codes :: win_codes
  op_interface_luid :: "string \<Rightarrow> 'o \<Rightarrow> luid net_result \<times> 'o"
  op_best_route :: "ip_addr \<Rightarrow> 'o \<Rightarrow> (luid \<times> route_address) net_result \<times> 'o"
  op_physical_routes :: "'o \<Rightarrow> (route_spec \<times> u32) list net_result \<times> 'o"
  op_create_route :: "route_spec \<Rightarrow> 'o \<Rightarrow> add_outcome net_result \<times> 'o"
  op_delete_route :: "route_spec \<Rightarrow> 'o \<Rightarrow> unit net_result \<times> 'o"
  op_wsl_hns_interfaces :: "'o \<Rightarrow> interface_target list net_result \<times> 'o"
  op_interface_settings :: "luid \<Rightarrow> 'o \<Rightarrow> interface_settings net_result \<times> 'o"
  op_apply_interface_patch :: "luid \<Rightarrow> interface_patch \<Rightarrow> 'o \<Rightarrow> unit net_result \<times> 'o"
  op_snapshot_dns :: "luid \<Rightarrow> 'o \<Rightarrow> dns_snapshot net_result \<times> 'o"
  op_set_dns :: "luid \<Rightarrow> string option \<Rightarrow> 'o \<Rightarrow> unit net_result \<times> 'o"

record install_record =
  ir_tun_luid :: luid
  ir_dns_before :: dns_snapshot
  ir_dns_changed :: bool
  ir_owned_routes :: "route_spec list"
  ir_desired_bypasses :: "route_spec list"
  ir_interface_snapshots :: "interface_snapshot list"
  ir_removed :: bool

record prepared_bypasses =
  pb_added :: "route_spec list"
  pb_desired :: "route_spec list"

text \<open>The address ranges and the arguments of the setup, from another crate.\<close>

record 'c cidr_lib =
  ci_is_ipv4 :: "'c \<Rightarrow> bool"
  ci_network_length :: "'c \<Rightarrow> nat"
  ci_first_address :: "'c \<Rightarrow> ip_addr"
  ci_contains :: "'c \<Rightarrow> ip_addr \<Rightarrow> bool"
  ci_new_host :: "ip_addr \<Rightarrow> 'c"
  ci_is_private :: "ip_addr \<Rightarrow> bool"

record 'c tproxy_args =
  ta_tun_name :: string
  ta_bypass_ips :: "'c list"
  ta_proxy_addr :: socket_addr
  ta_ipv4_default_route :: bool
  ta_tun_gateway :: ip_addr

definition CAPTURE_ROUTE_METRIC :: u32 where "CAPTURE_ROUTE_METRIC = 6"

definition BYPASS_ROUTE_METRIC :: u32 where "BYPASS_ROUTE_METRIC = 1"

definition is_missing_interface_error :: "win_codes \<Rightarrow> net_error \<Rightarrow> bool" where
  "is_missing_interface_error C e = (case e of
     OsError code \<Rightarrow> code = error_file_not_found C \<or> code = error_not_found C
   | _ \<Rightarrow> False)"

section \<open>Interface settings\<close>

definition required_interface_patch :: "interface_role \<Rightarrow> interface_settings \<Rightarrow> interface_patch" where
  "required_interface_patch role current =
     (let forwarding = (if \<not> st_forwarding current then Some True else None) in
      case role of
        TunRole \<Rightarrow> \<lparr>pa_forwarding = forwarding,
          pa_weak_host_send = (if \<not> st_weak_host_send current then Some True else None),
          pa_weak_host_receive = (if \<not> st_weak_host_receive current then Some True else None)\<rparr>
      | WslHns \<Rightarrow> patch_default\<lparr>pa_forwarding := forwarding\<rparr>)"

text \<open>The snapshot of an interface, added when there is none, with the fields a patch will change.\<close>

fun own_snapshot ::
  "interface_target \<Rightarrow> interface_settings \<Rightarrow> interface_patch \<Rightarrow> interface_snapshot list \<Rightarrow> interface_snapshot list" where
  "own_snapshot target current required [] =
     [\<lparr>sn_target = target, sn_before = current, sn_restore = merge_owned required current patch_default\<rparr>]"
| "own_snapshot target current required (s # ss) =
     (if it_luid (sn_target s) = it_luid target
      then s\<lparr>sn_restore := merge_owned required (sn_before s) (sn_restore s)\<rparr> # ss
      else s # own_snapshot target current required ss)"

fun reconcile_targets ::
  "'o net_ops \<Rightarrow> interface_target list \<Rightarrow> luid list \<Rightarrow> interface_snapshot list \<Rightarrow> 'o
   \<Rightarrow> unit net_result \<times> interface_snapshot list \<times> 'o" where
  "reconcile_targets N [] seen snaps os = (Inr (), snaps, os)"
| "reconcile_targets N (target # targets) seen snaps os =
     (if it_luid target \<in> set seen then reconcile_targets N targets seen snaps os
      else let seen' = it_luid target # seen in
        case op_interface_settings N (it_luid target) os of
          (Inl e, os1) \<Rightarrow>
            if is_missing_interface_error (op_codes N) e \<and> it_role target = WslHns
            then reconcile_targets N targets seen' snaps os1
            else (Inl (InContext ''read IPv4 settings'' e), snaps, os1)
        | (Inr current, os1) \<Rightarrow>
            let required = required_interface_patch (it_role target) current;
                snaps' = own_snapshot target current required snaps in
            if patch_is_empty required then reconcile_targets N targets seen' snaps' os1
            else (case op_apply_interface_patch N (it_luid target) required os1 of
                (Inl e, os2) \<Rightarrow> (Inl (InContext ''enable IPv4 forwarding settings'' e), snaps', os2)
              | (Inr _, os2) \<Rightarrow> reconcile_targets N targets seen' snaps' os2))"

definition reconcile_interface_settings ::
  "'o net_ops \<Rightarrow> interface_target \<Rightarrow> interface_snapshot list \<Rightarrow> 'o
   \<Rightarrow> unit net_result \<times> interface_snapshot list \<times> 'o" where
  "reconcile_interface_settings N tun_target snaps os = (case op_wsl_hns_interfaces N os of
     (Inl e, os1) \<Rightarrow> (Inl e, snaps, os1)
   | (Inr targets, os1) \<Rightarrow> reconcile_targets N (tun_target # targets) [] snaps os1)"

section \<open>Teardown\<close>

fun delete_routes ::
  "'o net_ops \<Rightarrow> route_spec list \<Rightarrow> 'o \<Rightarrow> teardown_failure list \<times> route_spec list \<times> 'o" where
  "delete_routes N [] os = ([], [], os)"
| "delete_routes N (r # rs) os = (case op_delete_route N r os of
     (Inl e, os1) \<Rightarrow> (case delete_routes N rs os1 of (fs, failed, os2) \<Rightarrow> (DeleteRoute r e # fs, r # failed, os2))
   | (Inr _, os1) \<Rightarrow> delete_routes N rs os1)"

fun restore_settings ::
  "'o net_ops \<Rightarrow> interface_snapshot list \<Rightarrow> 'o \<Rightarrow> teardown_failure list \<times> interface_snapshot list \<times> 'o" where
  "restore_settings N [] os = ([], [], os)"
| "restore_settings N (s # ss) os =
     (if patch_is_empty (sn_restore s) then restore_settings N ss os
      else case op_apply_interface_patch N (it_luid (sn_target s)) (sn_restore s) os of
          (Inr _, os1) \<Rightarrow> restore_settings N ss os1
        | (Inl e, os1) \<Rightarrow>
            if is_missing_interface_error (op_codes N) e \<and> it_role (sn_target s) = WslHns
            then restore_settings N ss os1
            else (case restore_settings N ss os1 of
                (fs, failed, os2) \<Rightarrow> (RestoreSettings (sn_target s) e # fs, s # failed, os2)))"

text \<open>The restoration of the DNS servers, with whether they are still to be restored.\<close>

definition restore_dns ::
  "'o net_ops \<Rightarrow> install_record \<Rightarrow> 'o \<Rightarrow> teardown_failure list \<times> bool \<times> 'o" where
  "restore_dns N rec os =
     (if \<not> ir_dns_changed rec then ([], False, os)
      else case op_set_dns N (ir_tun_luid rec) (ir_dns_before rec) os of
          (Inl e, os1) \<Rightarrow> ([RestoreDns e], True, os1)
        | (Inr _, os1) \<Rightarrow> ([], False, os1))"

definition cleanup_transaction ::
  "'o net_ops \<Rightarrow> install_record \<Rightarrow> 'o \<Rightarrow> unit net_result \<times> install_record \<times> 'o" where
  "cleanup_transaction N rec os =
     (if ir_removed rec then (Inr (), rec, os)
      else case delete_routes N (rev (ir_owned_routes rec)) os of (fs1, failed_routes, os1) \<Rightarrow>
        case restore_dns N rec os1 of (fs2, changed, os2) \<Rightarrow>
        case restore_settings N (rev (ir_interface_snapshots rec)) os2 of (fs3, failed_snaps, os3) \<Rightarrow>
        let rec' = rec\<lparr>ir_owned_routes := rev failed_routes, ir_dns_changed := changed,
              ir_interface_snapshots := rev failed_snaps\<rparr> in
        if fs1 @ fs2 @ fs3 = [] then (Inr (), rec'\<lparr>ir_removed := True\<rparr>, os3)
        else (Inl (TeardownFailed (fs1 @ fs2 @ fs3)), rec'\<lparr>ir_removed := False\<rparr>, os3))"

definition rollback_after_setup_failure ::
  "'o net_ops \<Rightarrow> install_record \<Rightarrow> net_error \<Rightarrow> 'o \<Rightarrow> net_error \<times> install_record \<times> 'o" where
  "rollback_after_setup_failure N rec setup_error os = (case cleanup_transaction N rec os of
     (Inr _, rec1, os1) \<Rightarrow> (setup_error, rec1, os1)
   | (Inl first, rec1, os1) \<Rightarrow> (case cleanup_transaction N rec1 os1 of
       (Inr _, rec2, os2) \<Rightarrow> (setup_error, rec2, os2)
     | (Inl second, rec2, os2) \<Rightarrow> (RollbackIncomplete setup_error first second, rec2, os2)))"

section \<open>Installation\<close>

fun plan_bypasses ::
  "'c cidr_lib \<Rightarrow> 'o net_ops \<Rightarrow> luid \<Rightarrow> 'c list \<Rightarrow> 'c list \<Rightarrow> 'o \<Rightarrow> route_spec list net_result \<times> 'o" where
  "plan_bypasses L N tun [] seen os = (Inr [], os)"
| "plan_bypasses L N tun (cidr # cidrs) seen os =
     (if cidr \<in> set seen then plan_bypasses L N tun cidrs seen os
      else if ci_is_ipv4 L cidr \<and> ci_network_length L cidr \<le> 1
        then (Inl (NetError InvalidInput ''Windows bypass is too broad for the two /1 TUN capture routes''), os)
      else let destination = ci_first_address L cidr;
               probe = (if is_unspecified destination then (case destination of
                   V4 _ \<Rightarrow> V4 0x01010101 | V6 _ \<Rightarrow> V6 0x26064700470000000000000000001111)
                 else destination) in
        case op_best_route N probe os of
          (Inl e, os1) \<Rightarrow> (Inl (InContext ''resolve the physical route for bypass'' e), os1)
        | (Inr (physical_luid, next_hop), os1) \<Rightarrow>
            if physical_luid = tun then (Inl (NetError OtherKind ''Bypass resolves back to TUN adapter''), os1)
            else (case plan_bypasses L N tun cidrs (cidr # seen) os1 of
                (Inl e, os2) \<Rightarrow> (Inl e, os2)
              | (Inr planned, os2) \<Rightarrow> (Inr (\<lparr>rs_destination = destination, rs_prefix_len = ci_network_length L cidr,
                  rs_next_hop = next_hop, rs_interface_luid = physical_luid, rs_metric = BYPASS_ROUTE_METRIC\<rparr>
                  # planned), os2)))"

definition bypass_cidrs :: "'c cidr_lib \<Rightarrow> 'c tproxy_args \<Rightarrow> 'c list" where
  "bypass_cidrs L args = (let proxy_ip = sa_ip (ta_proxy_addr args) in
     if \<not> ci_is_private L proxy_ip \<and> \<not> list_ex (\<lambda>c. ci_contains L c proxy_ip) (ta_bypass_ips args)
     then ta_bypass_ips args @ [ci_new_host L proxy_ip] else ta_bypass_ips args)"

definition capture_routes :: "luid \<Rightarrow> ip_addr \<Rightarrow> route_spec list" where
  "capture_routes tun gateway = map (\<lambda>(a, n). \<lparr>rs_destination = V4 a, rs_prefix_len = n,
     rs_next_hop = route_address_new gateway, rs_interface_luid = tun, rs_metric = CAPTURE_ROUTE_METRIC\<rparr>)
     [(0, 0), (0, 1), (0x80000000, 1)]"

fun create_planned ::
  "'o net_ops \<Rightarrow> route_spec list \<Rightarrow> install_record \<Rightarrow> 'o \<Rightarrow> unit net_result \<times> install_record \<times> 'o" where
  "create_planned N [] rec os = (Inr (), rec, os)"
| "create_planned N (r # rs) rec os = (case op_create_route N r os of
     (Inl e, os1) \<Rightarrow> (Inl (InContext ''create Windows route'' e), rec, os1)
   | (Inr Created, os1) \<Rightarrow> create_planned N rs (rec\<lparr>ir_owned_routes := ir_owned_routes rec @ [r]\<rparr>) os1
   | (Inr Preexisting, os1) \<Rightarrow> create_planned N rs rec os1)"

definition set_gateway_dns :: "'o net_ops \<Rightarrow> ip_addr \<Rightarrow> install_record \<Rightarrow> 'o \<Rightarrow> unit net_result \<times> install_record \<times> 'o" where
  "set_gateway_dns N gateway rec os = (case op_set_dns N (ir_tun_luid rec) (Some (ip_text gateway)) os of
     (Inl e, os1) \<Rightarrow> (Inl (InContext ''set DNS server'' e), rec\<lparr>ir_dns_changed := True\<rparr>, os1)
   | (Inr _, os1) \<Rightarrow> (Inr (), rec\<lparr>ir_dns_changed := True\<rparr>, os1))"

definition enable_forwarding :: "'o net_ops \<Rightarrow> 'c tproxy_args \<Rightarrow> install_record \<Rightarrow> 'o \<Rightarrow> unit net_result \<times> install_record \<times> 'o" where
  "enable_forwarding N args rec os =
     (if \<not> ta_ipv4_default_route args then (Inr (), rec, os)
      else case reconcile_interface_settings N
          \<lparr>it_luid = ir_tun_luid rec, it_alias = ta_tun_name args, it_role = TunRole\<rparr> (ir_interface_snapshots rec) os of
        (Inl e, snaps, os1) \<Rightarrow> (Inl (InContext ''enable transactional IPv4 forwarding'' e),
           rec\<lparr>ir_interface_snapshots := snaps\<rparr>, os1)
      | (Inr _, snaps, os1) \<Rightarrow> (Inr (), rec\<lparr>ir_interface_snapshots := snaps\<rparr>, os1))"

text \<open>The steps that change the machine, each of which may stop the installation.\<close>

definition apply_plan ::
  "'o net_ops \<Rightarrow> 'c tproxy_args \<Rightarrow> route_spec list \<Rightarrow> install_record \<Rightarrow> 'o \<Rightarrow> unit net_result \<times> install_record \<times> 'o" where
  "apply_plan N args planned rec os = (case enable_forwarding N args rec os of
     (Inl e, rec1, os1) \<Rightarrow> (Inl e, rec1, os1)
   | (Inr _, rec1, os1) \<Rightarrow> (case create_planned N planned rec1 os1 of
       (Inl e, rec2, os2) \<Rightarrow> (Inl e, rec2, os2)
     | (Inr _, rec2, os2) \<Rightarrow> set_gateway_dns N (ta_tun_gateway args) rec2 os2))"

definition install_transaction ::
  "'c cidr_lib \<Rightarrow> 'o net_ops \<Rightarrow> 'c tproxy_args \<Rightarrow> 'o \<Rightarrow> install_record net_result \<times> 'o" where
  "install_transaction L N args os = (case op_interface_luid N (ta_tun_name args) os of
     (Inl e, os1) \<Rightarrow> (Inl (InContext ''resolve the TUN adapter'' e), os1)
   | (Inr tun, os1) \<Rightarrow> (case op_snapshot_dns N tun os1 of
       (Inl e, os2) \<Rightarrow> (Inl (InContext ''snapshot the TUN adapter DNS configuration'' e), os2)
     | (Inr dns, os2) \<Rightarrow> (case plan_bypasses L N tun (bypass_cidrs L args) [] os2 of
         (Inl e, os3) \<Rightarrow> (Inl e, os3)
       | (Inr bypasses, os3) \<Rightarrow>
           if ta_ipv4_default_route args \<and> \<not> is_ipv4 (ta_tun_gateway args)
           then (Inl (NetError InvalidInput ''Windows IPv4 capture requires an IPv4 TUN gateway''), os3)
           else
             let planned = bypasses @ (if ta_ipv4_default_route args then capture_routes tun (ta_tun_gateway args) else []);
                 rec = \<lparr>ir_tun_luid = tun, ir_dns_before = dns, ir_dns_changed = False, ir_owned_routes = [],
                   ir_desired_bypasses = filter (\<lambda>r. rs_interface_luid r \<noteq> tun) planned,
                   ir_interface_snapshots = [], ir_removed = False\<rparr> in
             case apply_plan N args planned rec os3 of
               (Inr _, rec1, os4) \<Rightarrow> (Inr rec1, os4)
             | (Inl e, rec1, os4) \<Rightarrow> (case rollback_after_setup_failure N rec1 e os4 of
                 (e', _, os5) \<Rightarrow> (Inl e', os5)))))"

section \<open>Bypass routes of a running session\<close>

definition contains_destination :: "route_spec \<Rightarrow> ip_addr \<Rightarrow> bool" where
  "contains_destination route destination = (case (rs_destination route, destination) of
     (V4 network, V4 ip) \<Rightarrow> rs_prefix_len route \<le> 32 \<and>
       (let n = 32 - rs_prefix_len route; mask = (if n < 32 then push_bit n (- 1) else 0) in
        and network mask = and ip mask)
   | (V6 network, V6 ip) \<Rightarrow> rs_prefix_len route \<le> 128 \<and>
       (let n = 128 - rs_prefix_len route; mask = (if n < 128 then push_bit n (- 1) else 0) in
        and network mask = and ip mask)
   | _ \<Rightarrow> False)"

definition route_rank :: "route_spec \<times> u32 \<Rightarrow> int \<times> nat" where
  "route_rank e = (- int (rs_prefix_len (fst e)), unat (rs_metric (fst e)) + unat (snd e))"

definition select_physical_route ::
  "(route_spec \<times> u32) list \<Rightarrow> ip_addr \<Rightarrow> luid \<Rightarrow> route_spec list \<Rightarrow> route_spec option" where
  "select_physical_route routes destination tun owned = map_option fst (first_min route_rank
     (filter (\<lambda>(r, _). rs_interface_luid r \<noteq> tun \<and> r \<notin> set owned \<and> contains_destination r destination) routes))"

text \<open>Rows of the same destination that the session owns and a refreshed bypass replaces.\<close>

fun retire_routes ::
  "'o net_ops \<Rightarrow> luid \<Rightarrow> route_spec \<Rightarrow> route_spec list \<Rightarrow> 'o \<Rightarrow> unit net_result \<times> route_spec list \<times> 'o" where
  "retire_routes N tun desired [] os = (Inr (), [], os)"
| "retire_routes N tun desired (old # owned) os =
     (if rs_interface_luid old \<noteq> tun \<and> rs_destination old = rs_destination desired
         \<and> rs_prefix_len old = rs_prefix_len desired \<and> old \<noteq> desired
      then (case op_delete_route N old os of
          (Inl e, os1) \<Rightarrow> (Inl e, old # owned, os1)
        | (Inr _, os1) \<Rightarrow> retire_routes N tun desired owned os1)
      else (case retire_routes N tun desired owned os of (r, owned', os1) \<Rightarrow> (r, old # owned', os1)))"

definition install_replacement ::
  "'o net_ops \<Rightarrow> (route_spec \<times> u32) list \<Rightarrow> route_spec \<Rightarrow> route_spec list \<Rightarrow> 'o \<Rightarrow> unit net_result \<times> route_spec list \<times> 'o" where
  "install_replacement N routes new owned os =
     (if new \<in> fst ` set routes then (Inr (), owned, os)
      else case op_create_route N new os of
          (Inl e, os1) \<Rightarrow> (Inl e, owned, os1)
        | (Inr out, os1) \<Rightarrow> (Inr (), if out = Created \<and> new \<notin> set owned then owned @ [new] else owned, os1))"

fun reconcile_desired ::
  "'o net_ops \<Rightarrow> luid \<Rightarrow> (route_spec \<times> u32) list \<Rightarrow> route_spec list \<Rightarrow> route_spec list \<Rightarrow> 'o
   \<Rightarrow> unit net_result \<times> route_spec list \<times> route_spec list \<times> 'o" where
  "reconcile_desired N tun routes [] owned os = (Inr (), [], owned, os)"
| "reconcile_desired N tun routes (d # ds) owned os =
     (case select_physical_route routes (rs_destination d) tun owned of
        None \<Rightarrow> (case reconcile_desired N tun routes ds owned os of (r, ds', owned', os') \<Rightarrow> (r, d # ds', owned', os'))
      | Some physical \<Rightarrow>
          let new = d\<lparr>rs_interface_luid := rs_interface_luid physical, rs_next_hop := rs_next_hop physical\<rparr> in
          case install_replacement N routes new owned os of
            (Inl e, owned1, os1) \<Rightarrow> (Inl e, d # ds, owned1, os1)
          | (Inr _, owned1, os1) \<Rightarrow> (case retire_routes N tun new owned1 os1 of
              (Inl e, owned2, os2) \<Rightarrow> (Inl e, new # ds, owned2, os2)
            | (Inr _, owned2, os2) \<Rightarrow> (case reconcile_desired N tun routes ds owned2 os2 of
                (r, ds', owned', os') \<Rightarrow> (r, new # ds', owned', os'))))"

definition reconcile_bypass_routes ::
  "'o net_ops \<Rightarrow> install_record \<Rightarrow> 'o \<Rightarrow> unit net_result \<times> install_record \<times> 'o" where
  "reconcile_bypass_routes N rec os = (case op_physical_routes N os of
     (Inl e, os1) \<Rightarrow> (Inl e, rec, os1)
   | (Inr routes, os1) \<Rightarrow>
       (case reconcile_desired N (ir_tun_luid rec) routes (ir_desired_bypasses rec) (ir_owned_routes rec) os1 of
          (r, desired, owned, os2) \<Rightarrow> (r, rec\<lparr>ir_desired_bypasses := desired, ir_owned_routes := owned\<rparr>, os2)))"

fun plan_upstream ::
  "(route_spec \<times> u32) list \<Rightarrow> luid \<Rightarrow> route_spec list \<Rightarrow> ip_addr list \<Rightarrow> route_spec list \<Rightarrow> route_spec list net_result" where
  "plan_upstream routes tun owned [] planned = Inr planned"
| "plan_upstream routes tun owned (destination # addresses) planned =
     (if is_loopback destination \<or> is_unspecified destination then plan_upstream routes tun owned addresses planned
      else case select_physical_route routes destination tun owned of
          None \<Rightarrow> Inl (NetError NetworkUnreachable ''no physical route for upstream'')
        | Some physical \<Rightarrow>
            let route = \<lparr>rs_destination = destination, rs_prefix_len = (if is_ipv4 destination then 32 else 128),
                  rs_next_hop = rs_next_hop physical, rs_interface_luid = rs_interface_luid physical,
                  rs_metric = BYPASS_ROUTE_METRIC\<rparr> in
            plan_upstream routes tun owned addresses (if route \<in> set planned then planned else planned @ [route]))"

fun install_upstream ::
  "'o net_ops \<Rightarrow> route_spec list \<Rightarrow> install_record \<Rightarrow> prepared_bypasses \<Rightarrow> 'o
   \<Rightarrow> unit net_result \<times> install_record \<times> prepared_bypasses \<times> 'o" where
  "install_upstream N [] rec update os = (Inr (), rec, update, os)"
| "install_upstream N (route # routes) rec update os = (case op_create_route N route os of
     (Inl e, os1) \<Rightarrow> (Inl (InContext ''install live upstream bypass'' e), rec, update, os1)
   | (Inr out, os1) \<Rightarrow>
       if out = Created \<and> route \<notin> set (ir_owned_routes rec)
       then install_upstream N routes (rec\<lparr>ir_owned_routes := ir_owned_routes rec @ [route]\<rparr>)
         (update\<lparr>pb_added := pb_added update @ [route], pb_desired := pb_desired update @ [route]\<rparr>) os1
       else install_upstream N routes rec (update\<lparr>pb_desired := pb_desired update @ [route]\<rparr>) os1)"

definition add_upstream_bypasses ::
  "'o net_ops \<Rightarrow> install_record \<Rightarrow> ip_addr list \<Rightarrow> prepared_bypasses \<Rightarrow> 'o
   \<Rightarrow> unit net_result \<times> install_record \<times> prepared_bypasses \<times> 'o" where
  "add_upstream_bypasses N rec addresses update os =
     (if ir_removed rec then (Inl (NetError NotConnected ''TUN network configuration has been removed''), rec, update, os)
      else case op_physical_routes N os of
          (Inl e, os1) \<Rightarrow> (Inl e, rec, update, os1)
        | (Inr routes, os1) \<Rightarrow>
            (case plan_upstream routes (ir_tun_luid rec) (ir_owned_routes rec) addresses [] of
               Inl e \<Rightarrow> (Inl e, rec, update, os1)
             | Inr planned \<Rightarrow> install_upstream N planned rec update os1))"

fun replace_desired :: "route_spec \<Rightarrow> route_spec list \<Rightarrow> route_spec list" where
  "replace_desired route [] = [route]"
| "replace_desired route (old # ds) =
     (if rs_destination old = rs_destination route \<and> rs_prefix_len old = rs_prefix_len route
      then route # ds else old # replace_desired route ds)"

definition commit_upstream_bypasses :: "install_record \<Rightarrow> prepared_bypasses \<Rightarrow> install_record" where
  "commit_upstream_bypasses rec update =
     rec\<lparr>ir_desired_bypasses := fold replace_desired (pb_desired update) (ir_desired_bypasses rec)\<rparr>"

fun rollback_upstream_bypasses ::
  "'o net_ops \<Rightarrow> install_record \<Rightarrow> route_spec list \<Rightarrow> 'o \<Rightarrow> install_record \<times> route_spec list \<times> 'o" where
  "rollback_upstream_bypasses N rec [] os = (rec, [], os)"
| "rollback_upstream_bypasses N rec (r # rs) os = (case op_delete_route N r os of
     (Inr _, os1) \<Rightarrow> rollback_upstream_bypasses N
       (rec\<lparr>ir_owned_routes := filter (\<lambda>x. x \<noteq> r) (ir_owned_routes rec)\<rparr>) rs os1
   | (Inl _, os1) \<Rightarrow> (case rollback_upstream_bypasses N rec rs os1 of
       (rec', rs', os2) \<Rightarrow> (rec', r # rs', os2)))"

section \<open>The monitor and the guard\<close>

text \<open>
  What the monitor thread receives: a command, with whether the caller of a preparation has given up,
  or the timeout of its interval.
\<close>

datatype monitor_event =
    PrepareBypasses "ip_addr list" bool
  | CommitBypasses
  | RollbackBypasses
  | IntervalElapsed

record monitor =
  mo_pending :: "prepared_bypasses option"
  mo_rollback_routes :: "route_spec list"

definition monitor_new :: monitor where
  "monitor_new = \<lparr>mo_pending = None, mo_rollback_routes = []\<rparr>"

definition monitor_step ::
  "'o net_ops \<Rightarrow> interface_target \<Rightarrow> monitor_event \<Rightarrow> monitor \<Rightarrow> install_record \<Rightarrow> 'o
   \<Rightarrow> unit net_result option \<times> monitor \<times> install_record \<times> 'o" where
  "monitor_step N tun_target ev mo rec os = (case ev of
     PrepareBypasses addresses closed \<Rightarrow>
       if closed then (None, mo, rec, os)
       else (case rollback_upstream_bypasses N rec (mo_rollback_routes mo) os of (rec1, left, os1) \<Rightarrow>
         if left = [] then
           (case add_upstream_bypasses N rec1 addresses \<lparr>pb_added = [], pb_desired = []\<rparr> os1 of
              (r, rec2, update, os2) \<Rightarrow> (Some r, mo\<lparr>mo_pending := Some update, mo_rollback_routes := []\<rparr>, rec2, os2))
         else (Some (Inl (NetError OtherKind ''previous upstream bypass rollback is still pending; retry after cleanup'')),
           mo\<lparr>mo_rollback_routes := left\<rparr>, rec1, os1))
   | CommitBypasses \<Rightarrow> (case mo_pending mo of
       None \<Rightarrow> (None, mo, rec, os)
     | Some update \<Rightarrow> (None, mo\<lparr>mo_pending := None\<rparr>, commit_upstream_bypasses rec update, os))
   | RollbackBypasses \<Rightarrow>
       (let routes = mo_rollback_routes mo @ (case mo_pending mo of Some update \<Rightarrow> pb_added update | None \<Rightarrow> []) in
        case rollback_upstream_bypasses N rec routes os of (rec1, left, os1) \<Rightarrow>
          (None, \<lparr>mo_pending = None, mo_rollback_routes = left\<rparr>, rec1, os1))
   | IntervalElapsed \<Rightarrow>
       (case reconcile_interface_settings N tun_target (ir_interface_snapshots rec) os of (_, snaps, os1) \<Rightarrow>
        case rollback_upstream_bypasses N (rec\<lparr>ir_interface_snapshots := snaps\<rparr>) (mo_rollback_routes mo) os1 of
          (rec1, left, os2) \<Rightarrow>
            if mo_pending mo = None
            then (case reconcile_bypass_routes N rec1 os2 of (_, rec2, os3) \<Rightarrow>
              (None, mo\<lparr>mo_rollback_routes := left\<rparr>, rec2, os3))
            else (None, mo\<lparr>mo_rollback_routes := left\<rparr>, rec1, os2)))"

fun monitor_run ::
  "'o net_ops \<Rightarrow> interface_target \<Rightarrow> monitor_event list \<Rightarrow> monitor \<Rightarrow> install_record \<Rightarrow> 'o
   \<Rightarrow> monitor \<times> install_record \<times> 'o" where
  "monitor_run N tun_target [] mo rec os = (mo, rec, os)"
| "monitor_run N tun_target (ev # evs) mo rec os = (case monitor_step N tun_target ev mo rec os of
     (_, mo1, rec1, os1) \<Rightarrow> monitor_run N tun_target evs mo1 rec1 os1)"

text \<open>
  \<^verbatim>\<open>WindowsNetworkConfig::install\<close>; \<^verbatim>\<open>spawn\<close> is the error of starting the monitor thread, if any.
  Dropping the guard tears the session down unless that has been done.
\<close>

definition install_config ::
  "'c cidr_lib \<Rightarrow> 'o net_ops \<Rightarrow> 'c tproxy_args \<Rightarrow> net_error option \<Rightarrow> 'o
   \<Rightarrow> (install_record \<times> interface_target option) net_result \<times> 'o" where
  "install_config L N args spawn os = (case install_transaction L N args os of
     (Inl e, os1) \<Rightarrow> (Inl e, os1)
   | (Inr rec, os1) \<Rightarrow>
       if \<not> ta_ipv4_default_route args then (Inr (rec, None), os1)
       else (case spawn of
           None \<Rightarrow> (Inr (rec, Some \<lparr>it_luid = ir_tun_luid rec, it_alias = ta_tun_name args, it_role = TunRole\<rparr>), os1)
         | Some e \<Rightarrow> (case rollback_after_setup_failure N rec
               (InContext ''start the Windows TUN/WSL forwarding monitor'' e) os1 of
             (e', _, os2) \<Rightarrow> (Inl e', os2))))"

definition drop_config :: "'o net_ops \<Rightarrow> install_record \<Rightarrow> 'o \<Rightarrow> install_record \<times> 'o" where
  "drop_config N rec os =
     (if ir_removed rec then (rec, os)
      else case cleanup_transaction N rec os of (_, rec', os') \<Rightarrow> (rec', os'))"

text \<open>Explicit removal, after the monitor has stopped; the guard is dropped when it returns.\<close>

definition remove_config :: "'o net_ops \<Rightarrow> install_record \<Rightarrow> 'o \<Rightarrow> unit net_result \<times> install_record \<times> 'o" where
  "remove_config N rec os = (case cleanup_transaction N rec os of (r, rec1, os1) \<Rightarrow>
     case drop_config N rec1 os1 of (rec2, os2) \<Rightarrow> (r, rec2, os2))"

text \<open>The life of an installed configuration: the events its monitor, if any, has handled.\<close>

definition config_run ::
  "'o net_ops \<Rightarrow> interface_target option \<Rightarrow> monitor_event list \<Rightarrow> install_record \<Rightarrow> 'o \<Rightarrow> install_record \<times> 'o" where
  "config_run N target evs rec os = (case target of
     None \<Rightarrow> (rec, os)
   | Some t \<Rightarrow> (case monitor_run N t evs monitor_new rec os of (_, rec', os') \<Rightarrow> (rec', os')))"

section \<open>Route selection\<close>

lemma select_physical_route_Some:
  assumes "select_physical_route routes dest tun owned = Some p"
  shows "\<exists>m. (p, m) \<in> set routes \<and> rs_interface_luid p \<noteq> tun \<and> p \<notin> set owned \<and> contains_destination p dest"
  using assms by (fastforce simp: select_physical_route_def dest: first_min_Some)

text \<open>A network contains the addresses that agree with it on the bits of its prefix.\<close>

definition in_network :: "route_spec \<Rightarrow> ip_addr \<Rightarrow> bool" where
  "in_network r ip = (case (rs_destination r, ip) of
     (V4 n, V4 a) \<Rightarrow> rs_prefix_len r \<le> 32 \<and> drop_bit (32 - rs_prefix_len r) n = drop_bit (32 - rs_prefix_len r) a
   | (V6 n, V6 a) \<Rightarrow> rs_prefix_len r \<le> 128 \<and> drop_bit (128 - rs_prefix_len r) n = drop_bit (128 - rs_prefix_len r) a
   | _ \<Rightarrow> False)"

lemma masked_eq_drop_bit:
  fixes x y :: "'a::len word"
  shows "and x (not (mask n)) = and y (not (mask n)) \<longleftrightarrow> drop_bit n x = drop_bit n y"
proof
  assume eq: "and x (not (mask n)) = and y (not (mask n))"
  show "drop_bit n x = drop_bit n y"
  proof (rule bit_word_eqI)
    fix m assume "m < LENGTH('a)"
    have "bit (and x (not (mask n))) (n + m) = bit (and y (not (mask n))) (n + m)" using eq by simp
    then show "bit (drop_bit n x) m = bit (drop_bit n y) m"
      by (cases "n + m < LENGTH('a)") (auto simp: bit_simps dest: bit_imp_le_length)
  qed
next
  assume eq: "drop_bit n x = drop_bit n y"
  show "and x (not (mask n)) = and y (not (mask n))"
  proof (rule bit_word_eqI)
    fix m assume "m < LENGTH('a)"
    have "bit (drop_bit n x) (m - n) = bit (drop_bit n y) (m - n)" using eq by simp
    then show "bit (and x (not (mask n))) m = bit (and y (not (mask n))) m" by (auto simp: bit_simps)
  qed
qed

lemma contains_destination_iff: "contains_destination r ip = in_network r ip"
proof -
  have drop32: "drop_bit 32 (w :: u32) = 0" for w by (simp add: bit_eq_iff bit_simps)
  have drop128: "drop_bit 128 (w :: u128) = 0" for w by (simp add: bit_eq_iff bit_simps)
  show ?thesis
    by (cases "rs_prefix_len r = 0")
      (auto simp: contains_destination_def in_network_def Let_def masked_eq_drop_bit drop32 drop128 split: ip_addr.splits)
qed

text \<open>
  C36. The physical route for a destination.  The row chosen contains the destination in its prefix, is not
  on the TUN interface and not owned by the session, and among such rows has the longest prefix and,
  for that prefix, the least sum of route and interface metrics; no row is chosen exactly when there
  is no such row.
\<close>

theorem select_physical_route_best:
  "case select_physical_route routes dest tun owned of
     None \<Rightarrow> \<forall>(r, m) \<in> set routes. rs_interface_luid r = tun \<or> r \<in> set owned \<or> \<not> in_network r dest
   | Some p \<Rightarrow> \<exists>m. (p, m) \<in> set routes \<and> rs_interface_luid p \<noteq> tun \<and> p \<notin> set owned \<and> in_network p dest
       \<and> (\<forall>(r, n) \<in> set routes. rs_interface_luid r \<noteq> tun \<longrightarrow> r \<notin> set owned \<longrightarrow> in_network r dest \<longrightarrow>
            rs_prefix_len r < rs_prefix_len p
            \<or> rs_prefix_len r = rs_prefix_len p \<and> unat (rs_metric p) + unat m \<le> unat (rs_metric r) + unat n)"
proof -
  let ?ok = "\<lambda>(r, _). rs_interface_luid r \<noteq> tun \<and> r \<notin> set owned \<and> contains_destination r dest"
  show ?thesis
  proof (cases "first_min route_rank (filter ?ok routes)")
    case None
    then have "filter ?ok routes = []" by simp
    then show ?thesis unfolding select_physical_route_def None
      by (auto simp: filter_empty_conv contains_destination_iff)
  next
    case (Some e)
    obtain p m where e: "e = (p, m)" by fastforce
    have min: "(p, m) \<in> set (filter ?ok routes)" "\<forall>x \<in> set (filter ?ok routes). route_rank (p, m) \<le> route_rank x"
      using first_min_Some [OF Some] e by auto
    have "rs_prefix_len r < rs_prefix_len p
        \<or> rs_prefix_len r = rs_prefix_len p \<and> unat (rs_metric p) + unat m \<le> unat (rs_metric r) + unat n"
      if "(r, n) \<in> set routes" "?ok (r, n)" for r n
      using bspec [OF min(2), of "(r, n)"] that by (auto simp: route_rank_def less_eq_prod_def)
    then show ?thesis unfolding select_physical_route_def Some e using min(1)
      by (auto simp: contains_destination_iff intro!: exI [of _ m])
  qed
qed

theorem select_physical_route_best_witness:
  "\<exists>p m. select_physical_route [(\<lparr>rs_destination = V4 0, rs_prefix_len = 0, rs_next_hop = route_address_new (V4 1),
      rs_interface_luid = 7, rs_metric = 10\<rparr>, 25)] (V4 88) 5 [] = Some p \<and> in_network p (V4 88) \<and> rs_interface_luid p \<noteq> 5"
proof -
  let ?routes = "[(\<lparr>rs_destination = V4 0, rs_prefix_len = 0, rs_next_hop = route_address_new (V4 1),
      rs_interface_luid = 7, rs_metric = 10\<rparr>, 25)]"
  have "select_physical_route ?routes (V4 88) 5 [] \<noteq> None" by code_simp
  then obtain p where p: "select_physical_route ?routes (V4 88) 5 [] = Some p" by blast
  show ?thesis using select_physical_route_best [where routes = ?routes and dest = "V4 88" and tun = 5 and owned = "[]"] p by auto
qed

end
