(* ===== verification/WindowsRestore.thy ===== *)
theory WindowsRestore
  imports WindowsRoutes "HOL-Library.Multiset"
begin

text \<open>
  What a session changes on the machine and what it gives back.  The locale states what the operations
  of the trait do to the routing table, the DNS servers and the interface settings; the invariant
  relates the record of a session to the state before it, through installation, every event of the
  monitor, and teardowns that fail part of the way.
\<close>

section \<open>The contract of the operations\<close>

definition route_key :: "route_spec \<Rightarrow> ip_addr \<times> nat \<times> route_address \<times> luid" where
  "route_key r = (rs_destination r, rs_prefix_len r, rs_next_hop r, rs_interface_luid r)"

definition address_ok :: "route_address \<Rightarrow> bool" where
  "address_ok a = (is_ipv4 (ra_ip a) \<longrightarrow> ra_scope_id a = 0)"

definition patched_field :: "bool option \<Rightarrow> bool \<Rightarrow> bool" where
  "patched_field p v = (case p of Some w \<Rightarrow> w | None \<Rightarrow> v)"

definition patched :: "interface_patch \<Rightarrow> interface_settings \<Rightarrow> interface_settings" where
  "patched p s = \<lparr>st_forwarding = patched_field (pa_forwarding p) (st_forwarding s),
     st_weak_host_send = patched_field (pa_weak_host_send p) (st_weak_host_send s),
     st_weak_host_receive = patched_field (pa_weak_host_receive p) (st_weak_host_receive s)\<rparr>"

locale network_operations =
  fixes N :: "'o net_ops" and T :: "'o \<Rightarrow> 'r set" and row :: "route_spec \<Rightarrow> 'r" and rkey :: "'r \<Rightarrow> 'k"
    and D :: "'o \<Rightarrow> luid \<Rightarrow> dns_snapshot" and S :: "'o \<Rightarrow> luid \<Rightarrow> interface_settings option"
  assumes row_key: "address_ok (rs_next_hop r) \<Longrightarrow> address_ok (rs_next_hop r') \<Longrightarrow> rkey (row r) = rkey (row r')
      \<Longrightarrow> route_key r = route_key r'"
    and luid_law: "op_interface_luid N a os = (x1, os') \<Longrightarrow> T os' = T os \<and> D os' = D os \<and> S os' = S os"
    and best_law: "op_best_route N ip os = (x2, os') \<Longrightarrow> T os' = T os \<and> D os' = D os \<and> S os' = S os
      \<and> (\<forall>l h. x2 = Inr (l, h) \<longrightarrow> address_ok h)"
    and physical_law: "op_physical_routes N os = (x3, os') \<Longrightarrow> T os' = T os \<and> D os' = D os \<and> S os' = S os
      \<and> (\<forall>rs. x3 = Inr rs \<longrightarrow> (\<forall>e \<in> set rs. address_ok (rs_next_hop (fst e))))"
    and create_law: "op_create_route N r os = (x4, os') \<Longrightarrow> D os' = D os \<and> S os' = S os
      \<and> (if x4 = Inr Created then rkey (row r) \<notin> rkey ` T os \<and> T os' = insert (row r) (T os) else T os' = T os)"
    and delete_law: "op_delete_route N r os = (x5, os') \<Longrightarrow> D os' = D os \<and> S os' = S os
      \<and> (if x5 = Inr () then T os' = {y \<in> T os. rkey y \<noteq> rkey (row r)} else T os' = T os)"
    and wsl_law: "op_wsl_hns_interfaces N os = (x6, os') \<Longrightarrow> T os' = T os \<and> D os' = D os \<and> S os' = S os"
    and settings_law: "op_interface_settings N l os = (x7, os') \<Longrightarrow> T os' = T os \<and> D os' = D os \<and> S os' = S os
      \<and> (\<forall>s. x7 = Inr s \<longrightarrow> S os l = Some s)"
    and patch_law: "\<not> patch_is_empty p \<Longrightarrow> op_apply_interface_patch N l p os = (x8, os') \<Longrightarrow>
      T os' = T os \<and> D os' = D os
      \<and> (if x8 = Inr () then \<exists>s. S os l = Some s \<and> S os' = (S os)(l \<mapsto> patched p s)
         else S os' = S os \<and> (\<forall>e. x8 = Inl e \<longrightarrow> is_missing_interface_error (op_codes N) e \<longrightarrow> S os l = None))"
    and snapshot_law: "op_snapshot_dns N l os = (x9, os') \<Longrightarrow> T os' = T os \<and> D os' = D os \<and> S os' = S os
      \<and> (\<forall>d. x9 = Inr d \<longrightarrow> D os l = d)"
    and dns_law: "op_set_dns N l v os = (x10, os') \<Longrightarrow> T os' = T os \<and> S os' = S os
      \<and> D os' = (if x10 = Inr () then (D os)(l := v) else D os)"

section \<open>Invariants\<close>

text \<open>Routes of a session: captures on the TUN interface and bypasses elsewhere.\<close>

definition route_ok :: "luid \<Rightarrow> route_spec \<Rightarrow> bool" where
  "route_ok tun r = (address_ok (rs_next_hop r)
     \<and> rs_metric r = (if rs_interface_luid r = tun then CAPTURE_ROUTE_METRIC else BYPASS_ROUTE_METRIC))"

definition bypass_ok :: "luid \<Rightarrow> route_spec \<Rightarrow> bool" where
  "bypass_ok tun r = (address_ok (rs_next_hop r) \<and> rs_interface_luid r \<noteq> tun \<and> rs_metric r = BYPASS_ROUTE_METRIC)"

text \<open>
  The table holds the foreign rows and those of the owned routes, which do not share a key; the other
  routes the monitor may still delete do not share one with a foreign row either.
\<close>

definition routes_inv ::
  "(route_spec \<Rightarrow> 'r) \<Rightarrow> ('r \<Rightarrow> 'k) \<Rightarrow> luid \<Rightarrow> 'r set \<Rightarrow> 'r set \<Rightarrow> route_spec list \<Rightarrow> route_spec list \<Rightarrow> bool" where
  "routes_inv row rkey tun F tab owned extra =
     (tab = F \<union> row ` set owned \<and> rkey ` F \<inter> rkey ` row ` (set owned \<union> set extra) = {}
      \<and> (\<forall>r \<in> set owned \<union> set extra. route_ok tun r) \<and> distinct owned)"

definition undoes_field :: "bool option \<Rightarrow> bool \<Rightarrow> bool \<Rightarrow> bool" where
  "undoes_field p before current = (case p of Some v \<Rightarrow> v = before | None \<Rightarrow> current = before)"

definition undoes :: "interface_patch \<Rightarrow> interface_settings \<Rightarrow> interface_settings \<Rightarrow> bool" where
  "undoes p before current =
     (undoes_field (pa_forwarding p) (st_forwarding before) (st_forwarding current)
      \<and> undoes_field (pa_weak_host_send p) (st_weak_host_send before) (st_weak_host_send current)
      \<and> undoes_field (pa_weak_host_receive p) (st_weak_host_receive before) (st_weak_host_receive current))"

definition snapshot_luid :: "interface_snapshot \<Rightarrow> luid" where
  "snapshot_luid s = it_luid (sn_target s)"

definition snapshot_ok ::
  "(luid \<Rightarrow> interface_settings option) \<Rightarrow> (luid \<Rightarrow> interface_settings option) \<Rightarrow> interface_snapshot \<Rightarrow> bool" where
  "snapshot_ok S0 Sm s = (S0 (snapshot_luid s) = Some (sn_before s)
     \<and> (case Sm (snapshot_luid s) of None \<Rightarrow> False | Some c \<Rightarrow> undoes (sn_restore s) (sn_before s) c))"

definition settings_inv ::
  "(luid \<Rightarrow> interface_settings option) \<Rightarrow> (luid \<Rightarrow> interface_settings option) \<Rightarrow> interface_snapshot list \<Rightarrow> bool" where
  "settings_inv S0 Sm snaps = (distinct (map snapshot_luid snaps) \<and> (\<forall>s \<in> set snaps. snapshot_ok S0 Sm s)
     \<and> (\<forall>l. l \<notin> snapshot_luid ` set snaps \<longrightarrow> Sm l = S0 l))"

definition dns_inv :: "(luid \<Rightarrow> dns_snapshot) \<Rightarrow> (luid \<Rightarrow> dns_snapshot) \<Rightarrow> install_record \<Rightarrow> bool" where
  "dns_inv D0 Dm rec = (ir_dns_before rec = D0 (ir_tun_luid rec)
     \<and> (\<forall>l. l \<noteq> ir_tun_luid rec \<or> \<not> ir_dns_changed rec \<longrightarrow> Dm l = D0 l))"

definition session_inv ::
  "(route_spec \<Rightarrow> 'r) \<Rightarrow> ('r \<Rightarrow> 'k) \<Rightarrow> 'r set \<Rightarrow> (luid \<Rightarrow> dns_snapshot) \<Rightarrow> (luid \<Rightarrow> interface_settings option)
   \<Rightarrow> 'r set \<Rightarrow> (luid \<Rightarrow> dns_snapshot) \<Rightarrow> (luid \<Rightarrow> interface_settings option) \<Rightarrow> route_spec list \<Rightarrow> install_record \<Rightarrow> bool" where
  "session_inv row rkey F D0 S0 tab Dm Sm extra rec =
     (routes_inv row rkey (ir_tun_luid rec) F tab (ir_owned_routes rec) extra \<and> dns_inv D0 Dm rec
      \<and> settings_inv S0 Sm (ir_interface_snapshots rec)
      \<and> (\<forall>r \<in> set (ir_desired_bypasses rec). bypass_ok (ir_tun_luid rec) r) \<and> \<not> ir_removed rec)"

text \<open>The routes that the monitor may still have to take back.\<close>

definition provisional :: "monitor \<Rightarrow> route_spec list" where
  "provisional mo = mo_rollback_routes mo @ (case mo_pending mo of Some u \<Rightarrow> pb_added u | None \<Rightarrow> [])"

definition pending_desired :: "monitor \<Rightarrow> route_spec list" where
  "pending_desired mo = (case mo_pending mo of Some u \<Rightarrow> pb_desired u | None \<Rightarrow> [])"

lemma patched_fields: "patched p c = b \<longleftrightarrow> patched_field (pa_forwarding p) (st_forwarding c) = st_forwarding b
    \<and> patched_field (pa_weak_host_send p) (st_weak_host_send c) = st_weak_host_send b
    \<and> patched_field (pa_weak_host_receive p) (st_weak_host_receive c) = st_weak_host_receive b"
  by (cases b) (simp add: patched_def)

lemma undoes_patched: "undoes p b c \<Longrightarrow> patched p c = b"
  by (simp add: patched_fields undoes_def undoes_field_def patched_field_def split: option.splits)

lemma undoes_empty: "undoes p b c \<Longrightarrow> patch_is_empty p \<Longrightarrow> c = b"
  by (cases b; cases c) (simp add: undoes_def undoes_field_def patch_is_empty_def)

lemma own_field_undoes:
  "undoes_field p b c \<Longrightarrow> undoes_field (own_field q b p) b c \<and> undoes_field (own_field q b p) b (patched_field q c)"
  by (auto simp: undoes_field_def own_field_def patched_field_def split: option.splits)

lemma merge_undoes:
  "undoes p b c \<Longrightarrow> undoes (merge_owned q b p) b c \<and> undoes (merge_owned q b p) b (patched q c)"
  unfolding undoes_def merge_owned_def patched_def using own_field_undoes by simp

lemma undoes_refl: "undoes patch_default b b"
  by (simp add: undoes_def undoes_field_def patch_default_def)

lemma merge_undoes_default:
  "undoes (merge_owned q b patch_default) b b \<and> undoes (merge_owned q b patch_default) b (patched q b)"
  using merge_undoes [OF undoes_refl] .

lemma own_snapshot_cases:
  obtains (new) "it_luid target \<notin> snapshot_luid ` set snaps"
    "own_snapshot target cur req snaps
      = snaps @ [\<lparr>sn_target = target, sn_before = cur, sn_restore = merge_owned req cur patch_default\<rparr>]"
  | (old) as s bs where "snaps = as @ s # bs" "snapshot_luid s = it_luid target"
    "own_snapshot target cur req snaps = as @ s\<lparr>sn_restore := merge_owned req (sn_before s) (sn_restore s)\<rparr> # bs"
proof (induction snaps arbitrary: thesis)
  case Nil
  then show ?case by simp
next
  case (Cons s snaps)
  show ?case
  proof (cases "snapshot_luid s = it_luid target")
    case True
    then show ?thesis using Cons.prems(2) [of "[]" s snaps] by (simp add: snapshot_luid_def)
  next
    case False
    then have step: "own_snapshot target cur req (s # snaps) = s # own_snapshot target cur req snaps"
      by (simp add: snapshot_luid_def)
    show ?thesis
    proof (rule Cons.IH)
      assume "it_luid target \<notin> snapshot_luid ` set snaps" "own_snapshot target cur req snaps
        = snaps @ [\<lparr>sn_target = target, sn_before = cur, sn_restore = merge_owned req cur patch_default\<rparr>]"
      then show thesis using Cons.prems(1) False step by auto
    next
      fix as t bs
      assume "snaps = as @ t # bs" "snapshot_luid t = it_luid target" "own_snapshot target cur req snaps
        = as @ t\<lparr>sn_restore := merge_owned req (sn_before t) (sn_restore t)\<rparr> # bs"
      then show thesis using Cons.prems(2) [of "s # as" t bs] step by simp
    qed
  qed
qed

lemma own_snapshot_inv:
  assumes "settings_inv S0 Sm snaps" "Sm (it_luid target) = Some cur" "c = cur \<or> c = patched req cur"
  shows "settings_inv S0 (Sm(it_luid target \<mapsto> c)) (own_snapshot target cur req snaps)"
proof (cases rule: own_snapshot_cases [of target snaps cur req])
  case new
  then have "S0 (it_luid target) = Some cur" using assms(1,2) by (auto simp: settings_inv_def)
  moreover have "undoes (merge_owned req cur patch_default) cur c" using assms(3) merge_undoes_default by auto
  ultimately show ?thesis using new assms(1)
    by (auto simp: settings_inv_def snapshot_ok_def snapshot_luid_def image_iff)
next
  case (old as s bs)
  have s: "snapshot_ok S0 Sm s" using assms(1) old(1) by (simp add: settings_inv_def)
  then have "undoes (sn_restore s) (sn_before s) cur" using assms(2) old(2) by (simp add: snapshot_ok_def)
  then have "undoes (merge_owned req (sn_before s) (sn_restore s)) (sn_before s) c"
    using merge_undoes assms(3) by auto
  then have new: "snapshot_ok S0 (Sm(it_luid target \<mapsto> c)) (s\<lparr>sn_restore := merge_owned req (sn_before s) (sn_restore s)\<rparr>)"
    using s old(2) by (simp add: snapshot_ok_def snapshot_luid_def)
  have "snapshot_luid s \<notin> snapshot_luid ` set as" "snapshot_luid s \<notin> snapshot_luid ` set bs"
    using assms(1) unfolding settings_inv_def old(1) by auto
  then have "snapshot_luid t \<noteq> it_luid target" if "t \<in> set as \<union> set bs" for t
    using that old(2) by (metis Un_iff image_eqI)
  then have rest: "snapshot_ok S0 (Sm(it_luid target \<mapsto> c)) t" if "t \<in> set as \<union> set bs" for t
    using that assms(1) old(1) by (auto simp: settings_inv_def snapshot_ok_def)
  have luids: "map snapshot_luid (own_snapshot target cur req snaps) = map snapshot_luid snaps"
    by (subst old(3)) (simp add: old(1) snapshot_luid_def)
  then have set_luids: "snapshot_luid ` set (own_snapshot target cur req snaps) = snapshot_luid ` set snaps"
    by (metis list.set_map)
  have "it_luid target \<in> snapshot_luid ` set snaps" using old(1,2) by force
  then have "(Sm(it_luid target \<mapsto> c)) l = S0 l" if "l \<notin> snapshot_luid ` set snaps" for l
    using that assms(1) by (auto simp: settings_inv_def)
  moreover have "\<forall>t \<in> set (own_snapshot target cur req snaps). snapshot_ok S0 (Sm(it_luid target \<mapsto> c)) t"
    unfolding old(3) using new rest by auto
  ultimately show ?thesis using assms(1) luids set_luids by (simp add: settings_inv_def)
qed

lemma settings_inv_drop:
  assumes "settings_inv S0 Sm (s # ss)" "patched (sn_restore s) c = c'" "Sm (snapshot_luid s) = Some c"
  shows "settings_inv S0 (Sm(snapshot_luid s \<mapsto> c')) ss"
proof -
  have "c' = sn_before s" "S0 (snapshot_luid s) = Some (sn_before s)"
    using assms undoes_patched by (auto simp: settings_inv_def snapshot_ok_def)
  moreover have "snapshot_luid s \<notin> snapshot_luid ` set ss" using assms(1) by (simp add: settings_inv_def)
  then have "snapshot_luid t \<noteq> snapshot_luid s" if "t \<in> set ss" for t using that by (metis image_eqI)
  ultimately show ?thesis using assms(1) by (auto simp: settings_inv_def snapshot_ok_def)
qed

lemma settings_inv_perm:
  "settings_inv S0 Sm xs \<Longrightarrow> mset xs = mset ys \<Longrightarrow> settings_inv S0 Sm ys"
  unfolding settings_inv_def by (metis mset_map mset_eq_imp_distinct_iff mset_eq_setD)

lemma routes_inv_perm:
  "routes_inv row rkey tun F tab xs extra \<Longrightarrow> mset xs = mset ys \<Longrightarrow> routes_inv row rkey tun F tab ys extra"
  unfolding routes_inv_def by (metis mset_eq_imp_distinct_iff mset_eq_setD)

lemma settings_inv_rev [simp]: "settings_inv S0 Sm (rev xs) \<longleftrightarrow> settings_inv S0 Sm xs"
  using settings_inv_perm [of S0 Sm xs "rev xs"] settings_inv_perm [of S0 Sm "rev xs" xs] by auto

lemma routes_inv_rev [simp]:
  "routes_inv row rkey tun F tab (rev xs) extra \<longleftrightarrow> routes_inv row rkey tun F tab xs extra"
  by (simp add: routes_inv_def)

lemma routes_inv_extra:
  "routes_inv row rkey tun F tab owned extra \<Longrightarrow> set extra' \<subseteq> set extra \<union> set owned
    \<Longrightarrow> routes_inv row rkey tun F tab owned extra'"
  unfolding routes_inv_def by blast

section \<open>Steps of a session\<close>

context network_operations
begin

lemma key_unique:
  assumes "route_ok tun r" "route_ok tun r'" "rkey (row r) = rkey (row r')"
  shows "r = r'"
  using row_key [of r r'] assms by (cases r; cases r') (auto simp: route_ok_def route_key_def)

lemma create_inv:
  assumes "routes_inv row rkey tun F (T os) owned extra" "route_ok tun r" "op_create_route N r os = (Inr Created, os')"
  shows "r \<notin> set owned" "routes_inv row rkey tun F (T os') (owned @ [r]) extra"
    "routes_inv row rkey tun F (T os') (owned @ [r]) (extra @ [r])"
  using create_law [OF assms(3)] assms(1,2) by (auto simp: routes_inv_def)

lemma delete_inv:
  assumes "routes_inv row rkey tun F (T os) owned extra" "r \<in> set owned \<union> set extra"
    and "op_delete_route N r os = (Inr (), os')"
  shows "routes_inv row rkey tun F (T os') (filter (\<lambda>x. x \<noteq> r) owned) extra"
proof -
  have r: "route_ok tun r" and tab: "T os = F \<union> row ` set owned" using assms(1,2) by (auto simp: routes_inv_def)
  have "rkey y \<noteq> rkey (row r)" if "y \<in> F" for y
    using assms(1,2) that unfolding routes_inv_def by (metis disjoint_iff image_eqI)
  moreover have "rkey (row x) \<noteq> rkey (row r)" if "x \<in> set owned" "x \<noteq> r" for x
    using key_unique [OF _ r] that assms(1) by (auto simp: routes_inv_def)
  ultimately have "{y \<in> T os. rkey y \<noteq> rkey (row r)} = F \<union> row ` set (filter (\<lambda>x. x \<noteq> r) owned)"
    unfolding tab by auto
  then show ?thesis using delete_law [OF assms(3)] assms(1) by (auto simp: routes_inv_def)
qed

lemma delete_routes_inv:
  assumes "delete_routes N rs os = (fs, failed, os')" "routes_inv row rkey tun F (T os) (rs @ others) extra"
  shows "routes_inv row rkey tun F (T os') (failed @ others) extra \<and> (fs = [] \<longleftrightarrow> failed = [])
    \<and> D os' = D os \<and> S os' = S os"
  using assms
proof (induction rs arbitrary: os others fs failed)
  case Nil
  then show ?case by simp
next
  case (Cons r rs)
  obtain x os1 where x: "op_delete_route N r os = (x, os1)" by fastforce
  note law = delete_law [OF x]
  show ?case
  proof (cases x)
    case (Inl e)
    obtain fs1 failed1 where rest: "delete_routes N rs os1 = (fs1, failed1, os')"
      and res: "fs = DeleteRoute r e # fs1" "failed = r # failed1"
      using Cons.prems(1) x Inl by (auto split: prod.splits)
    have "routes_inv row rkey tun F (T os1) (rs @ r # others) extra"
      using law Inl Cons.prems(2) by (auto elim: routes_inv_perm)
    from Cons.IH [OF rest this] show ?thesis using law Inl res by (auto elim: routes_inv_perm)
  next
    case (Inr u)
    then have ok: "op_delete_route N r os = (Inr (), os1)" and rest: "delete_routes N rs os1 = (fs, failed, os')"
      using Cons.prems(1) x by auto
    have "r \<notin> set (rs @ others)" using Cons.prems(2) by (auto simp: routes_inv_def)
    then have "filter (\<lambda>x. x \<noteq> r) rs = rs" "filter (\<lambda>x. x \<noteq> r) others = others" by (auto simp: filter_id_conv)
    then have "filter (\<lambda>x. x \<noteq> r) ((r # rs) @ others) = rs @ others" by simp
    then have "routes_inv row rkey tun F (T os1) (rs @ others) extra"
      using delete_inv [OF Cons.prems(2) _ ok] by (metis Un_iff append_Cons list.set_intros(1))
    from Cons.IH [OF rest this] show ?thesis using law Inr by auto
  qed
qed

lemma restore_settings_inv:
  assumes "restore_settings N ss os = (fs, failed, os')" "settings_inv S0 (S os) (ss @ others)"
  shows "settings_inv S0 (S os') (failed @ others) \<and> (fs = [] \<longleftrightarrow> failed = []) \<and> T os' = T os \<and> D os' = D os"
  using assms
proof (induction ss arbitrary: os others fs failed)
  case Nil
  then show ?case by simp
next
  case (Cons s ss)
  have inv: "settings_inv S0 (S os) (s # (ss @ others))" using Cons.prems(2) by simp
  then have "snapshot_ok S0 (S os) s" by (simp add: settings_inv_def)
  then obtain c where c: "S os (snapshot_luid s) = Some c" "undoes (sn_restore s) (sn_before s) c"
    by (auto simp: snapshot_ok_def split: option.splits)
  note dropped = settings_inv_drop [OF inv _ c(1)]
  show ?case
  proof (cases "patch_is_empty (sn_restore s)")
    case True
    then have "settings_inv S0 (S os) (ss @ others)"
      using dropped [of "sn_before s"] undoes_patched [OF c(2)] undoes_empty [OF c(2) True] c(1)
      by (metis fun_upd_triv)
    then show ?thesis using Cons.IH Cons.prems(1) True by simp
  next
    case False
    obtain x os1 where x: "op_apply_interface_patch N (it_luid (sn_target s)) (sn_restore s) os = (x, os1)" by fastforce
    note law = patch_law [OF False x]
    show ?thesis
    proof (cases x)
      case (Inr u)
      then have "S os1 = (S os)(snapshot_luid s \<mapsto> patched (sn_restore s) c)" and same: "T os1 = T os" "D os1 = D os"
        using law c(1) by (auto simp: snapshot_luid_def)
      then have "settings_inv S0 (S os1) (ss @ others)" using dropped [OF refl] by simp
      moreover have "restore_settings N ss os1 = (fs, failed, os')" using Cons.prems(1) False x Inr by simp
      ultimately show ?thesis using Cons.IH same by simp
    next
      case (Inl e)
      then have same: "S os1 = S os" "T os1 = T os" "D os1 = D os" and
        "\<not> is_missing_interface_error (op_codes N) e" using law c(1) by (auto simp: snapshot_luid_def)
      then obtain fs1 failed1 where rest: "restore_settings N ss os1 = (fs1, failed1, os')"
        and res: "fs = RestoreSettings (sn_target s) e # fs1" "failed = s # failed1"
        using Cons.prems(1) False x Inl by (auto split: prod.splits)
      have "settings_inv S0 (S os1) (ss @ s # others)" using inv same by (auto elim: settings_inv_perm)
      from Cons.IH [OF rest this] show ?thesis using same res by (auto elim: settings_inv_perm)
    qed
  qed
qed

lemma reconcile_targets_inv:
  assumes "reconcile_targets N targets seen snaps os = (x, snaps', os')" "settings_inv S0 (S os) snaps"
  shows "settings_inv S0 (S os') snaps' \<and> T os' = T os \<and> D os' = D os"
  using assms
proof (induction targets arbitrary: seen snaps os)
  case Nil
  then show ?case by simp
next
  case (Cons t ts)
  obtain y os1 where y: "op_interface_settings N (it_luid t) os = (y, os1)" by fastforce
  note same = settings_law [OF y]
  show ?case
  proof (cases "it_luid t \<in> set seen")
    case True
    then show ?thesis using Cons by simp
  next
    case fresh: False
    show ?thesis
    proof (cases y)
      case (Inl e)
      then show ?thesis using Cons.prems fresh y same Cons.IH [of "it_luid t # seen" snaps os1]
        by (auto simp: Let_def split: if_splits)
    next
      case (Inr current)
      let ?req = "required_interface_patch (it_role t) current"
      let ?snaps = "own_snapshot t current ?req snaps"
      have cur: "S os1 (it_luid t) = Some current" using same Inr by simp
      have inv1: "settings_inv S0 ((S os1)(it_luid t \<mapsto> c)) ?snaps" if "c = current \<or> c = patched ?req current" for c
        using own_snapshot_inv [of S0 "S os1" snaps t current c ?req] cur that Cons.prems(2) same by simp
      from inv1 [of current] have inv0: "settings_inv S0 (S os1) ?snaps" using cur by (simp add: fun_upd_idem)
      show ?thesis
      proof (cases "patch_is_empty ?req")
        case True
        then show ?thesis using Cons.prems(1) fresh y Inr Cons.IH [OF _ inv0] same by (simp add: Let_def)
      next
        case False
        obtain z os2 where z: "op_apply_interface_patch N (it_luid t) ?req os1 = (z, os2)" by fastforce
        note law = patch_law [OF False z]
        show ?thesis
        proof (cases z)
          case (Inl e)
          then show ?thesis using Cons.prems(1) fresh y \<open>y = Inr current\<close> z False law inv0 same
            by (auto simp: Let_def)
        next
          case (Inr u)
          then have "settings_inv S0 (S os2) ?snaps" using law cur inv1 by auto
          moreover have "reconcile_targets N ts (it_luid t # seen) ?snaps os2 = (x, snaps', os')"
            using Cons.prems(1) fresh y \<open>y = Inr current\<close> z False Inr by (simp add: Let_def)
          ultimately show ?thesis using Cons.IH law Inr same by simp
        qed
      qed
    qed
  qed
qed

lemma reconcile_interface_settings_inv:
  assumes "reconcile_interface_settings N target snaps os = (x, snaps', os')" "settings_inv S0 (S os) snaps"
  shows "settings_inv S0 (S os') snaps' \<and> T os' = T os \<and> D os' = D os"
proof -
  obtain y os1 where y: "op_wsl_hns_interfaces N os = (y, os1)" by fastforce
  note same = wsl_law [OF y]
  show ?thesis
  proof (cases y)
    case (Inl e)
    then show ?thesis using assms y same by (simp add: reconcile_interface_settings_def)
  next
    case (Inr ts)
    then have "reconcile_targets N (target # ts) [] snaps os1 = (x, snaps', os')"
      using assms(1) y by (simp add: reconcile_interface_settings_def del: reconcile_targets.simps)
    from reconcile_targets_inv [OF this] show ?thesis using assms(2) same by simp
  qed
qed

lemma create_planned_inv:
  assumes "create_planned N rs rec os = (x, rec', os')"
    and "routes_inv row rkey tun F (T os) (ir_owned_routes rec) extra" "\<forall>r \<in> set rs. route_ok tun r"
  shows "routes_inv row rkey tun F (T os') (ir_owned_routes rec') extra
    \<and> rec' = rec\<lparr>ir_owned_routes := ir_owned_routes rec'\<rparr> \<and> D os' = D os \<and> S os' = S os"
  using assms
proof (induction rs arbitrary: rec os)
  case Nil
  then show ?case by simp
next
  case (Cons r rs)
  obtain y os1 where y: "op_create_route N r os = (y, os1)" by fastforce
  note law = create_law [OF y]
  consider (err) e where "y = Inl e" | (made) "y = Inr Created" | (old) "y = Inr Preexisting"
    by (cases y) (auto intro: add_outcome.exhaust)
  then show ?case
  proof cases
    case err
    then show ?thesis using Cons.prems y law by auto
  next
    case made
    let ?rec = "rec\<lparr>ir_owned_routes := ir_owned_routes rec @ [r]\<rparr>"
    have "create_planned N rs ?rec os1 = (x, rec', os')" using Cons.prems(1) y made by simp
    moreover have "routes_inv row rkey tun F (T os1) (ir_owned_routes ?rec) extra"
      using create_inv(2) [OF Cons.prems(2) _ y [unfolded made]] Cons.prems(3) by simp
    ultimately show ?thesis using Cons.IH [of ?rec os1] Cons.prems(3) law by simp
  next
    case old
    then show ?thesis using Cons.IH [of rec os1] Cons.prems y law by simp
  qed
qed

lemma retire_routes_inv:
  assumes "retire_routes N tun d owned os = (x, owned', os')"
    and "routes_inv row rkey tun F (T os) (others @ owned) extra"
  shows "routes_inv row rkey tun F (T os') (others @ owned') extra \<and> D os' = D os \<and> S os' = S os"
  using assms
proof (induction owned arbitrary: others os owned')
  case Nil
  then show ?case by simp
next
  case (Cons old owned)
  show ?case
  proof (cases "rs_interface_luid old \<noteq> tun \<and> rs_destination old = rs_destination d
         \<and> rs_prefix_len old = rs_prefix_len d \<and> old \<noteq> d")
    case True
    obtain y os1 where y: "op_delete_route N old os = (y, os1)" by fastforce
    note law = delete_law [OF y]
    show ?thesis
    proof (cases y)
      case (Inl e)
      then show ?thesis using Cons.prems True y law by auto
    next
      case (Inr u)
      have "old \<notin> set (others @ owned)" using Cons.prems(2) by (auto simp: routes_inv_def)
      then have "filter (\<lambda>x. x \<noteq> old) others = others" "filter (\<lambda>x. x \<noteq> old) owned = owned"
        by (auto simp: filter_id_conv)
      then have "routes_inv row rkey tun F (T os1) (others @ owned) extra"
        using delete_inv [OF Cons.prems(2), of old os1] y Inr by simp
      moreover have "retire_routes N tun d owned os1 = (x, owned', os')" using Cons.prems(1) True y Inr by simp
      ultimately show ?thesis using Cons.IH law Inr by simp
    qed
  next
    case False
    then obtain owned1 where "retire_routes N tun d owned os = (x, owned1, os')" "owned' = old # owned1"
      using Cons.prems(1) by (auto split: prod.splits)
    then show ?thesis using Cons.IH [of os owned1 "others @ [old]"] Cons.prems(2) by simp
  qed
qed

lemma install_replacement_inv:
  assumes "install_replacement N routes new owned os = (x, owned', os')"
    and "routes_inv row rkey tun F (T os) owned extra" "route_ok tun new"
  shows "routes_inv row rkey tun F (T os') owned' extra \<and> D os' = D os \<and> S os' = S os"
proof (cases "new \<in> fst ` set routes")
  case True
  then show ?thesis using assms by (simp add: install_replacement_def)
next
  case False
  obtain y os1 where y: "op_create_route N new os = (y, os1)" by fastforce
  note law = create_law [OF y]
  show ?thesis
  proof (cases "y = Inr Created")
    case True
    then have "op_create_route N new os = (Inr Created, os1)" using y by simp
    note made = create_inv [OF assms(2,3) this]
    then have "owned' = owned @ [new]" "os' = os1" using assms(1) False y True by (auto simp: install_replacement_def)
    then show ?thesis using made law by simp
  next
    case other: False
    then show ?thesis using assms(1,2) False y law by (auto simp: install_replacement_def split: sum.splits)
  qed
qed

lemma bypass_ok_moved:
  "bypass_ok tun d \<Longrightarrow> address_ok h \<Longrightarrow> l \<noteq> tun \<Longrightarrow> bypass_ok tun (d\<lparr>rs_interface_luid := l, rs_next_hop := h\<rparr>)"
  by (simp add: bypass_ok_def)

lemma bypass_route_ok: "bypass_ok tun d \<Longrightarrow> route_ok tun d"
  by (simp add: bypass_ok_def route_ok_def)

lemma reconcile_desired_inv:
  assumes "reconcile_desired N tun routes ds owned os = (x, ds', owned', os')"
    and "routes_inv row rkey tun F (T os) owned extra" "\<forall>d \<in> set ds. bypass_ok tun d"
    and "\<forall>e \<in> set routes. address_ok (rs_next_hop (fst e))"
  shows "routes_inv row rkey tun F (T os') owned' extra \<and> (\<forall>d \<in> set ds'. bypass_ok tun d)
    \<and> D os' = D os \<and> S os' = S os"
  using assms(1-3)
proof (induction ds arbitrary: owned os ds')
  case Nil
  then show ?case by simp
next
  case (Cons d ds)
  show ?case
  proof (cases "select_physical_route routes (rs_destination d) tun owned")
    case None
    then show ?thesis using Cons by (auto split: prod.splits)
  next
    case (Some p)
    let ?new = "d\<lparr>rs_interface_luid := rs_interface_luid p, rs_next_hop := rs_next_hop p\<rparr>"
    obtain m where "(p, m) \<in> set routes" "rs_interface_luid p \<noteq> tun"
      using select_physical_route_Some [OF Some] by blast
    then have new: "bypass_ok tun ?new" using assms(4) Cons.prems(3) by (intro bypass_ok_moved) auto
    obtain y owned1 os1 where y: "install_replacement N routes ?new owned os = (y, owned1, os1)" by (metis prod_cases3)
    note one = install_replacement_inv [OF y Cons.prems(2) bypass_route_ok [OF new]]
    show ?thesis
    proof (cases y)
      case (Inl e)
      then show ?thesis using Cons.prems Some y one by (auto simp: Let_def)
    next
      case (Inr u)
      obtain z owned2 os2 where z: "retire_routes N tun ?new owned1 os1 = (z, owned2, os2)" by (metis prod_cases3)
      note two = retire_routes_inv [OF z, of F "[]" extra]
      show ?thesis
      proof (cases z)
        case (Inl e)
        then show ?thesis using Cons.prems Some y Inr z one two new by (auto simp: Let_def)
      next
        case (Inr v)
        then obtain ds1 where "reconcile_desired N tun routes ds owned2 os2 = (x, ds1, owned', os')" "ds' = ?new # ds1"
          using Cons.prems(1) Some y \<open>y = Inr u\<close> z by (auto simp: Let_def split: prod.splits)
        then show ?thesis using Cons.IH [of owned2 os2 ds1] Cons.prems(3) one two new by auto
      qed
    qed
  qed
qed

lemma plan_upstream_ok:
  assumes "plan_upstream routes tun owned as planned = Inr rs" "\<forall>r \<in> set planned. bypass_ok tun r"
    and "\<forall>e \<in> set routes. address_ok (rs_next_hop (fst e))"
  shows "\<forall>r \<in> set rs. bypass_ok tun r"
  using assms(1,2)
proof (induction as arbitrary: planned)
  case Nil
  then show ?case by simp
next
  case (Cons a as)
  show ?case
  proof (cases "is_loopback a \<or> is_unspecified a")
    case True
    then show ?thesis using Cons by auto
  next
    case False
    then obtain p where p: "select_physical_route routes a tun owned = Some p"
      using Cons.prems(1) by (auto split: option.splits)
    obtain m where "(p, m) \<in> set routes" "rs_interface_luid p \<noteq> tun"
      using select_physical_route_Some [OF p] by blast
    let ?r = "\<lparr>rs_destination = a, rs_prefix_len = (if is_ipv4 a then 32 else 128), rs_next_hop = rs_next_hop p,
      rs_interface_luid = rs_interface_luid p, rs_metric = BYPASS_ROUTE_METRIC\<rparr>"
    let ?planned = "if ?r \<in> set planned then planned else planned @ [?r]"
    have "bypass_ok tun ?r" using assms(3) \<open>(p, m) \<in> set routes\<close> \<open>rs_interface_luid p \<noteq> tun\<close>
      by (force simp: bypass_ok_def)
    then have "\<forall>r \<in> set ?planned. bypass_ok tun r" using Cons.prems(2) by simp
    moreover have "plan_upstream routes tun owned as ?planned = Inr rs"
      using Cons.prems(1) False p by (simp add: Let_def del: if_split)
    ultimately show ?thesis using Cons.IH by blast
  qed
qed

lemma install_upstream_inv:
  assumes "install_upstream N rs rec u os = (x, rec', u', os')"
    and "routes_inv row rkey tun F (T os) (ir_owned_routes rec) (pb_added u)" "\<forall>r \<in> set rs. bypass_ok tun r"
    and "\<forall>r \<in> set (pb_desired u). bypass_ok tun r"
  shows "routes_inv row rkey tun F (T os') (ir_owned_routes rec') (pb_added u')
    \<and> (\<forall>r \<in> set (pb_desired u'). bypass_ok tun r)
    \<and> rec' = rec\<lparr>ir_owned_routes := ir_owned_routes rec'\<rparr> \<and> D os' = D os \<and> S os' = S os"
  using assms
proof (induction rs arbitrary: rec u os)
  case Nil
  then show ?case by simp
next
  case (Cons r rs)
  obtain y os1 where y: "op_create_route N r os = (y, os1)" by fastforce
  note law = create_law [OF y]
  show ?case
  proof (cases "y = Inr Created")
    case True
    then have "op_create_route N r os = (Inr Created, os1)" using y by simp
    note made = create_inv [OF Cons.prems(2) _ this]
    have r: "route_ok tun r" using Cons.prems(3) by (simp add: bypass_route_ok)
    let ?rec = "rec\<lparr>ir_owned_routes := ir_owned_routes rec @ [r]\<rparr>"
    let ?u = "u\<lparr>pb_added := pb_added u @ [r], pb_desired := pb_desired u @ [r]\<rparr>"
    have "install_upstream N rs ?rec ?u os1 = (x, rec', u', os')" using Cons.prems(1) y True made(1) [OF r] by simp
    from Cons.IH [OF this] show ?thesis using made(3) [OF r] Cons.prems(3,4) law by simp
  next
    case False
    show ?thesis
    proof (cases y)
      case (Inl e)
      then show ?thesis using Cons.prems y law by auto
    next
      case (Inr out)
      then have "install_upstream N rs rec (u\<lparr>pb_desired := pb_desired u @ [r]\<rparr>) os1 = (x, rec', u', os')"
        using Cons.prems(1) y False by simp
      from Cons.IH [OF this] show ?thesis using Cons.prems law False by simp
    qed
  qed
qed

lemma rollback_inv:
  assumes "rollback_upstream_bypasses N rec rs os = (rec', rs', os')"
    and "routes_inv row rkey tun F (T os) (ir_owned_routes rec) extra" "set rs \<subseteq> set extra"
  shows "routes_inv row rkey tun F (T os') (ir_owned_routes rec') extra \<and> set rs' \<subseteq> set rs
    \<and> rec' = rec\<lparr>ir_owned_routes := ir_owned_routes rec'\<rparr> \<and> D os' = D os \<and> S os' = S os"
  using assms
proof (induction rs arbitrary: rec os rs')
  case Nil
  then show ?case by simp
next
  case (Cons r rs)
  obtain y os1 where y: "op_delete_route N r os = (y, os1)" by fastforce
  note law = delete_law [OF y]
  show ?case
  proof (cases y)
    case (Inl e)
    then obtain rs1 where "rollback_upstream_bypasses N rec rs os1 = (rec', rs1, os')" "rs' = r # rs1"
      using Cons.prems(1) y by (auto split: prod.splits)
    then show ?thesis using Cons.IH [of rec os1 rs1] Cons.prems law Inl by auto
  next
    case (Inr u)
    let ?rec = "rec\<lparr>ir_owned_routes := filter (\<lambda>x. x \<noteq> r) (ir_owned_routes rec)\<rparr>"
    have "routes_inv row rkey tun F (T os1) (ir_owned_routes ?rec) extra"
      using delete_inv [OF Cons.prems(2), of r os1] Cons.prems(3) y Inr by simp
    moreover have "rollback_upstream_bypasses N ?rec rs os1 = (rec', rs', os')" using Cons.prems(1) y Inr by simp
    ultimately show ?thesis using Cons.IH [of ?rec os1 rs'] Cons.prems(3) law Inr by auto
  qed
qed

abbreviation at_session :: "'r set \<Rightarrow> (luid \<Rightarrow> dns_snapshot) \<Rightarrow> (luid \<Rightarrow> interface_settings option) \<Rightarrow> route_spec list
   \<Rightarrow> install_record \<Rightarrow> 'o \<Rightarrow> bool" where
  "at_session F D0 S0 extra rec os \<equiv> session_inv row rkey F D0 S0 (T os) (D os) (S os) extra rec"

lemma restore_dns_inv:
  assumes "restore_dns N rec os = (fs, changed, os')" "dns_inv D0 (D os) rec"
  shows "dns_inv D0 (D os') (rec\<lparr>ir_dns_changed := changed\<rparr>) \<and> (fs = [] \<longleftrightarrow> \<not> changed) \<and> T os' = T os \<and> S os' = S os"
proof (cases "ir_dns_changed rec")
  case True
  obtain x os1 where x: "op_set_dns N (ir_tun_luid rec) (ir_dns_before rec) os = (x, os1)" by fastforce
  then show ?thesis using dns_law [OF x] assms True
    by (cases x) (auto simp: restore_dns_def dns_inv_def)
next
  case False
  then show ?thesis using assms by (simp add: restore_dns_def dns_inv_def)
qed

lemma cleanup_inv:
  assumes "cleanup_transaction N rec os = (x, rec', os')" "at_session F D0 S0 extra rec os"
  shows "if x = Inr () then ir_removed rec' \<and> ir_owned_routes rec' = [] \<and> T os' = F \<and> D os' = D0 \<and> S os' = S0
    else at_session F D0 S0 extra rec' os'"
proof -
  have live: "\<not> ir_removed rec" using assms(2) by (simp add: session_inv_def)
  obtain fs1 froutes os1 where d: "delete_routes N (rev (ir_owned_routes rec)) os = (fs1, froutes, os1)" by (metis prod_cases3)
  obtain fs2 changed os2 where n: "restore_dns N rec os1 = (fs2, changed, os2)" by (metis prod_cases3)
  obtain fs3 fsnaps os3 where s: "restore_settings N (rev (ir_interface_snapshots rec)) os2 = (fs3, fsnaps, os3)"
    by (metis prod_cases3)
  have "routes_inv row rkey (ir_tun_luid rec) F (T os) (rev (ir_owned_routes rec) @ []) extra"
    using assms(2) by (simp add: session_inv_def)
  note one = delete_routes_inv [OF d this]
  have "dns_inv D0 (D os1) rec" using assms(2) one by (simp add: session_inv_def)
  note two = restore_dns_inv [OF n this]
  have "settings_inv S0 (S os2) (rev (ir_interface_snapshots rec) @ [])"
    using assms(2) one two by (simp add: session_inv_def)
  note three = restore_settings_inv [OF s this]
  let ?rec = "rec\<lparr>ir_owned_routes := rev froutes, ir_dns_changed := changed, ir_interface_snapshots := rev fsnaps\<rparr>"
  have res: "os' = os3" "rec' = ?rec\<lparr>ir_removed := (fs1 @ fs2 @ fs3 = [])\<rparr>" "x = Inr () \<longleftrightarrow> fs1 @ fs2 @ fs3 = []"
    using assms(1) live d n s by (auto simp: cleanup_transaction_def Let_def split: if_splits)
  have tab: "routes_inv row rkey (ir_tun_luid rec) F (T os3) (rev froutes) extra"
    using one two three by simp
  have set3: "settings_inv S0 (S os3) (rev fsnaps)" using three by simp
  have dns: "dns_inv D0 (D os3) (rec\<lparr>ir_dns_changed := changed\<rparr>)" using two three by simp
  show ?thesis
  proof (cases "fs1 @ fs2 @ fs3 = []")
    case True
    then have "froutes = []" "\<not> changed" "fsnaps = []" using one two three by auto
    then have "T os3 = F" "D os3 = D0" "S os3 = S0"
      using tab dns set3 by (simp_all add: routes_inv_def dns_inv_def settings_inv_def fun_eq_iff)
    then show ?thesis using True res \<open>froutes = []\<close> by simp
  next
    case False
    then have "x \<noteq> Inr ()" "rec' = ?rec\<lparr>ir_removed := False\<rparr>" using res by auto
    then show ?thesis using assms(2) res(1) tab dns set3 by (simp add: session_inv_def dns_inv_def)
  qed
qed

lemma rollback_after_inv:
  assumes "rollback_after_setup_failure N rec e os = (e', rec', os')" "at_session F D0 S0 extra rec os"
  shows "(T os' = F \<and> D os' = D0 \<and> S os' = S0) \<or> (\<exists>a b c. e' = RollbackIncomplete a b c)"
proof -
  obtain x rec1 os1 where x: "cleanup_transaction N rec os = (x, rec1, os1)" by (metis prod_cases3)
  note one = cleanup_inv [OF x assms(2)]
  show ?thesis
  proof (cases x)
    case (Inr u)
    then show ?thesis using assms(1) x one by (simp add: rollback_after_setup_failure_def)
  next
    case (Inl a)
    obtain y rec2 os2 where y: "cleanup_transaction N rec1 os1 = (y, rec2, os2)" by (metis prod_cases3)
    have "at_session F D0 S0 extra rec1 os1" using one Inl by simp
    note two = cleanup_inv [OF y this]
    then show ?thesis using assms(1) x y Inl by (cases y) (auto simp: rollback_after_setup_failure_def)
  qed
qed

lemma plan_bypasses_inv:
  assumes "plan_bypasses L N tun cs seen os = (x, os')"
  shows "T os' = T os \<and> D os' = D os \<and> S os' = S os \<and> (\<forall>rs. x = Inr rs \<longrightarrow> (\<forall>r \<in> set rs. bypass_ok tun r))"
  using assms
proof (induction cs arbitrary: seen os x os')
  case Nil
  then show ?case by auto
next
  case (Cons c cs)
  show ?case
  proof (cases "c \<in> set seen \<or> ci_is_ipv4 L c \<and> ci_network_length L c \<le> 1")
    case True
    then show ?thesis using Cons by (auto split: if_splits)
  next
    case False
    let ?d = "ci_first_address L c"
    let ?probe = "if is_unspecified ?d then (case ?d of V4 _ \<Rightarrow> V4 0x01010101
      | V6 _ \<Rightarrow> V6 0x26064700470000000000000000001111) else ?d"
    let ?r = "\<lambda>l h. \<lparr>rs_destination = ?d, rs_prefix_len = ci_network_length L c, rs_next_hop = h, rs_interface_luid = l,
        rs_metric = BYPASS_ROUTE_METRIC\<rparr>"
    obtain y os1 where y: "op_best_route N ?probe os = (y, os1)" by fastforce
    note law = best_law [OF y]
    have fresh: "\<not> c \<in> set seen" "\<not> (ci_is_ipv4 L c \<and> ci_network_length L c \<le> 1)" using False by auto
    have "(x, os') = (case y of
        Inl e \<Rightarrow> (Inl (InContext ''resolve the physical route for bypass'' e), os1)
      | Inr (l, h) \<Rightarrow> if l = tun then (Inl (NetError OtherKind ''Bypass resolves back to TUN adapter''), os1)
          else (case plan_bypasses L N tun cs (c # seen) os1 of
              (Inl e, os2) \<Rightarrow> (Inl e, os2) | (Inr rs, os2) \<Rightarrow> (Inr (?r l h # rs), os2)))"
      unfolding Cons.prems [symmetric]
      by (cases y) (simp_all only: plan_bypasses.simps if_not_P [OF fresh(1)] if_not_P [OF fresh(2)] Let_def y prod.case sum.case)
    note step = this
    show ?thesis
    proof (cases "\<exists>l h. y = Inr (l, h) \<and> l \<noteq> tun")
      case bad: False
      then show ?thesis using step law by (cases y) auto
    next
      case True
      then obtain l h where lh: "y = Inr (l, h)" "l \<noteq> tun" by blast
      obtain z os2 where z: "plan_bypasses L N tun cs (c # seen) os1 = (z, os2)" by fastforce
      note rest = Cons.IH [OF z]
      have "(x, os') = (case z of Inl e \<Rightarrow> Inl e | Inr rs \<Rightarrow> Inr (?r l h # rs), os2)"
        using step lh z by (cases z) simp_all
      moreover have "bypass_ok tun (?r l h)" using lh law by (simp add: bypass_ok_def)
      ultimately show ?thesis using rest law by (cases z) auto
    qed
  qed
qed

lemma capture_routes_ok: "r \<in> set (capture_routes tun g) \<Longrightarrow> route_ok tun r"
  by (auto simp: capture_routes_def route_ok_def address_ok_def route_address_new_def)

lemma apply_plan_inv:
  assumes "apply_plan N args planned rec os = (x, rec', os')" "at_session F D0 S0 extra rec os"
    and "\<forall>r \<in> set planned. route_ok (ir_tun_luid rec) r"
  shows "at_session F D0 S0 extra rec' os'"
proof -
  obtain y rec1 os1 where y: "enable_forwarding N args rec os = (y, rec1, os1)" by (metis prod_cases3)
  have both: "at_session F D0 S0 extra rec1 os1 \<and> ir_tun_luid rec = ir_tun_luid rec1"
  proof (cases "ta_ipv4_default_route args")
    case True
    let ?t = "\<lparr>it_luid = ir_tun_luid rec, it_alias = ta_tun_name args, it_role = TunRole\<rparr>"
    obtain z snaps os2 where z: "reconcile_interface_settings N ?t (ir_interface_snapshots rec) os = (z, snaps, os2)"
      by (metis prod_cases3)
    then have "rec1 = rec\<lparr>ir_interface_snapshots := snaps\<rparr>" "os1 = os2"
      using y True by (auto simp: enable_forwarding_def split: sum.splits)
    then show ?thesis using reconcile_interface_settings_inv [OF z, of S0] assms(2)
      by (simp add: session_inv_def dns_inv_def)
  qed (use y assms(2) in \<open>auto simp: enable_forwarding_def\<close>)
  note one = conjunct1 [OF both] and planned = assms(3) [unfolded conjunct2 [OF both]]
  obtain z rec2 os2 where z: "create_planned N planned rec1 os1 = (z, rec2, os2)" by (metis prod_cases3)
  have "routes_inv row rkey (ir_tun_luid rec1) F (T os1) (ir_owned_routes rec1) extra"
    using one unfolding session_inv_def by blast
  note made = create_planned_inv [OF z this planned]
  then obtain owned2 where rec2: "rec2 = rec1\<lparr>ir_owned_routes := owned2\<rparr>" by auto
  have two: "at_session F D0 S0 extra rec2 os2"
    using made one unfolding rec2 by (simp add: session_inv_def dns_inv_def)
  obtain u rec3 os3 where u: "set_gateway_dns N (ta_tun_gateway args) rec2 os2 = (u, rec3, os3)" by (metis prod_cases3)
  have three: "at_session F D0 S0 extra rec3 os3"
  proof -
    obtain v os4 where v: "op_set_dns N (ir_tun_luid rec2) (Some (ip_text (ta_tun_gateway args))) os2 = (v, os4)" by fastforce
    have "rec3 = rec2\<lparr>ir_dns_changed := True\<rparr>" "os3 = os4"
      using u v by (auto simp: set_gateway_dns_def split: sum.splits)
    then show ?thesis using dns_law [OF v] two
      by (auto simp: session_inv_def dns_inv_def)
  qed
  show ?thesis using assms(1) y z u one two three
    by (auto simp: apply_plan_def split: sum.splits)
qed

lemma install_inv:
  assumes "install_transaction L N args os = (x, os')"
  shows "case x of
      Inr rec \<Rightarrow> at_session (T os) (D os) (S os) [] rec os'
    | Inl e \<Rightarrow> (T os' = T os \<and> D os' = D os \<and> S os' = S os) \<or> (\<exists>a b c. e = RollbackIncomplete a b c)"
proof -
  obtain a os1 where a: "op_interface_luid N (ta_tun_name args) os = (a, os1)" by fastforce
  note la = luid_law [OF a]
  show ?thesis
  proof (cases a)
    case (Inl e)
    then show ?thesis using assms a la by (auto simp: install_transaction_def)
  next
    case (Inr tun)
    note tun = Inr
    obtain b os2 where b: "op_snapshot_dns N tun os1 = (b, os2)" by fastforce
    note lb = snapshot_law [OF b]
    show ?thesis
    proof (cases b)
      case (Inl e)
      then show ?thesis using assms a tun b la lb by (auto simp: install_transaction_def)
    next
      case (Inr dns)
      obtain c os3 where c: "plan_bypasses L N tun (bypass_cidrs L args) [] os2 = (c, os3)" by fastforce
      note lc = plan_bypasses_inv [OF c]
      show ?thesis
      proof (cases "\<exists>e. c = Inl e \<or> ta_ipv4_default_route args \<and> \<not> is_ipv4 (ta_tun_gateway args)")
        case True
        then show ?thesis using assms a tun b Inr c la lb lc
          by (auto simp: install_transaction_def split: sum.splits if_splits)
      next
        case False
        then obtain bypasses where bp: "c = Inr bypasses" by (cases c) auto
        let ?planned = "bypasses @ (if ta_ipv4_default_route args then capture_routes tun (ta_tun_gateway args) else [])"
        let ?rec = "\<lparr>ir_tun_luid = tun, ir_dns_before = dns, ir_dns_changed = False, ir_owned_routes = [],
          ir_desired_bypasses = filter (\<lambda>r. rs_interface_luid r \<noteq> tun) ?planned,
          ir_interface_snapshots = [], ir_removed = False\<rparr>"
        have planned: "\<forall>r \<in> set ?planned. route_ok tun r"
          using lc bp capture_routes_ok bypass_route_ok by auto
        then have "\<forall>r \<in> set (ir_desired_bypasses ?rec). bypass_ok tun r"
          by (auto simp: route_ok_def bypass_ok_def split: if_splits)
        then have init: "at_session (T os) (D os) (S os) [] ?rec os3"
          using la lb lc Inr by (simp add: session_inv_def routes_inv_def dns_inv_def settings_inv_def)
        obtain y rec1 os4 where y: "apply_plan N args ?planned ?rec os3 = (y, rec1, os4)" by (metis prod_cases3)
        have at: "at_session (T os) (D os) (S os) [] rec1 os4"
          using apply_plan_inv [OF y init] planned by simp
        obtain e' rec2 os5 where e': "rollback_after_setup_failure N rec1 (projl y) os4 = (e', rec2, os5)"
          by (metis prod_cases3)
        have cond: "\<not> (ta_ipv4_default_route args \<and> \<not> is_ipv4 (ta_tun_gateway args))" using False by blast
        have "install_transaction L N args os = (case apply_plan N args ?planned ?rec os3 of
            (Inr _, rec1, os4) \<Rightarrow> (Inr rec1, os4)
          | (Inl e, rec1, os4) \<Rightarrow> (case rollback_after_setup_failure N rec1 e os4 of (e', _, os5) \<Rightarrow> (Inl e', os5)))"
          by (simp only: install_transaction_def a tun b Inr c bp prod.case sum.case if_not_P [OF cond] Let_def)
        then have "(x, os') = (case y of Inr _ \<Rightarrow> (Inr rec1, os4) | Inl _ \<Rightarrow> (Inl e', os5))"
          unfolding y assms using e' by (cases y) simp_all
        then show ?thesis using at rollback_after_inv [OF e' at] by (cases y) auto
      qed
    qed
  qed
qed

lemma at_session_extra:
  "at_session F D0 S0 extra rec os \<Longrightarrow> set extra' \<subseteq> set extra \<Longrightarrow> at_session F D0 S0 extra' rec os"
  unfolding session_inv_def by (blast intro: routes_inv_extra)

lemma at_session_owned:
  assumes "at_session F D0 S0 extra rec os"
    and "routes_inv row rkey (ir_tun_luid rec) F (T os') owned extra'" "D os' = D os" "S os' = S os"
  shows "at_session F D0 S0 extra' (rec\<lparr>ir_owned_routes := owned\<rparr>) os'"
  using assms by (simp add: session_inv_def dns_inv_def)

lemma rollback_session:
  assumes "rollback_upstream_bypasses N rec rs os = (rec', rs', os')" "at_session F D0 S0 extra rec os"
    and "set rs \<subseteq> set extra"
  shows "at_session F D0 S0 extra rec' os'" "set rs' \<subseteq> set rs" "ir_tun_luid rec' = ir_tun_luid rec"
proof -
  have "routes_inv row rkey (ir_tun_luid rec) F (T os) (ir_owned_routes rec) extra"
    using assms(2) by (simp add: session_inv_def)
  note inv = rollback_inv [OF assms(1) this assms(3)]
  then obtain owned where rec': "rec' = rec\<lparr>ir_owned_routes := owned\<rparr>" by auto
  show "at_session F D0 S0 extra rec' os'" using inv unfolding rec' by (intro at_session_owned [OF assms(2)]) auto
  show "set rs' \<subseteq> set rs" "ir_tun_luid rec' = ir_tun_luid rec" using inv rec' by auto
qed

lemma add_upstream_session:
  assumes "add_upstream_bypasses N rec as \<lparr>pb_added = [], pb_desired = []\<rparr> os = (x, rec', u, os')"
    and "at_session F D0 S0 [] rec os"
  shows "at_session F D0 S0 (pb_added u) rec' os'" "\<forall>r \<in> set (pb_desired u). bypass_ok (ir_tun_luid rec') r"
proof -
  let ?u = "\<lparr>pb_added = [], pb_desired = []\<rparr>"
  have live: "\<not> ir_removed rec" using assms(2) by (simp add: session_inv_def)
  obtain y os1 where y: "op_physical_routes N os = (y, os1)" by fastforce
  note law = physical_law [OF y]
  have at1: "at_session F D0 S0 [] rec os1" using assms(2) law by simp
  show "at_session F D0 S0 (pb_added u) rec' os'" "\<forall>r \<in> set (pb_desired u). bypass_ok (ir_tun_luid rec') r"
  proof (atomize (full), cases "\<exists>routes rs. y = Inr routes
      \<and> plan_upstream routes (ir_tun_luid rec) (ir_owned_routes rec) as [] = Inr rs")
    case False
    then have "rec' = rec \<and> u = ?u \<and> os' = os1"
      using assms(1) live y by (auto simp: add_upstream_bypasses_def split: sum.splits)
    then show "at_session F D0 S0 (pb_added u) rec' os' \<and> (\<forall>r \<in> set (pb_desired u). bypass_ok (ir_tun_luid rec') r)"
      using at1 by simp
  next
    case True
    then obtain routes rs where r: "y = Inr routes"
      "plan_upstream routes (ir_tun_luid rec) (ir_owned_routes rec) as [] = Inr rs" by blast
    have "\<forall>r \<in> set rs. bypass_ok (ir_tun_luid rec) r" using plan_upstream_ok [OF r(2)] law r(1) by simp
    moreover have up: "install_upstream N rs rec ?u os1 = (x, rec', u, os')"
      using assms(1) live y r by (simp add: add_upstream_bypasses_def)
    moreover have "routes_inv row rkey (ir_tun_luid rec) F (T os1) (ir_owned_routes rec) (pb_added ?u)"
      using at1 by (simp add: session_inv_def)
    ultimately have inv: "routes_inv row rkey (ir_tun_luid rec) F (T os') (ir_owned_routes rec') (pb_added u)
        \<and> (\<forall>r \<in> set (pb_desired u). bypass_ok (ir_tun_luid rec) r)
        \<and> rec' = rec\<lparr>ir_owned_routes := ir_owned_routes rec'\<rparr> \<and> D os' = D os1 \<and> S os' = S os1"
      by (intro install_upstream_inv) auto
    then obtain owned where rec': "rec' = rec\<lparr>ir_owned_routes := owned\<rparr>" by auto
    have "at_session F D0 S0 (pb_added u) rec' os'" using inv unfolding rec' by (intro at_session_owned [OF at1]) auto
    then show "at_session F D0 S0 (pb_added u) rec' os' \<and> (\<forall>r \<in> set (pb_desired u). bypass_ok (ir_tun_luid rec') r)"
      using inv rec' by auto
  qed
qed

lemma replace_desired_subset: "set (replace_desired r ds) \<subseteq> insert r (set ds)"
  by (induction ds) auto

lemma commit_session:
  assumes "at_session F D0 S0 extra rec os" "\<forall>r \<in> set (pb_desired u). bypass_ok (ir_tun_luid rec) r"
  shows "at_session F D0 S0 extra (commit_upstream_bypasses rec u) os"
proof -
  have "set (fold replace_desired rs ds) \<subseteq> set rs \<union> set ds" for rs ds
    by (induction rs arbitrary: ds) (use replace_desired_subset in force)+
  then show ?thesis using assms unfolding session_inv_def commit_upstream_bypasses_def dns_inv_def by fastforce
qed

lemma reconcile_bypass_session:
  assumes "reconcile_bypass_routes N rec os = (x, rec', os')" "at_session F D0 S0 extra rec os"
  shows "at_session F D0 S0 extra rec' os'"
proof -
  obtain y os1 where y: "op_physical_routes N os = (y, os1)" by fastforce
  note law = physical_law [OF y]
  show ?thesis
  proof (cases y)
    case (Inl e)
    then show ?thesis using assms y law by (auto simp: reconcile_bypass_routes_def)
  next
    case (Inr routes)
    obtain z ds owned os2 where z: "reconcile_desired N (ir_tun_luid rec) routes (ir_desired_bypasses rec)
        (ir_owned_routes rec) os1 = (z, ds, owned, os2)" by (metis prod_cases4)
    have "routes_inv row rkey (ir_tun_luid rec) F (T os1) (ir_owned_routes rec) extra"
      "\<forall>d \<in> set (ir_desired_bypasses rec). bypass_ok (ir_tun_luid rec) d" using assms(2) law by (simp_all add: session_inv_def)
    then have "routes_inv row rkey (ir_tun_luid rec) F (T os2) owned extra
        \<and> (\<forall>d \<in> set ds. bypass_ok (ir_tun_luid rec) d) \<and> D os2 = D os1 \<and> S os2 = S os1"
      using reconcile_desired_inv [OF z] law Inr by simp
    moreover have "rec' = rec\<lparr>ir_desired_bypasses := ds, ir_owned_routes := owned\<rparr>" "os' = os2"
      using assms(1) y Inr z by (simp_all add: reconcile_bypass_routes_def)
    ultimately show ?thesis using assms(2) law by (simp add: session_inv_def dns_inv_def)
  qed
qed

abbreviation at_monitor :: "'r set \<Rightarrow> (luid \<Rightarrow> dns_snapshot) \<Rightarrow> (luid \<Rightarrow> interface_settings option) \<Rightarrow> monitor
   \<Rightarrow> install_record \<Rightarrow> 'o \<Rightarrow> bool" where
  "at_monitor F D0 S0 mo rec os \<equiv> at_session F D0 S0 (provisional mo) rec os
     \<and> (\<forall>r \<in> set (pending_desired mo). bypass_ok (ir_tun_luid rec) r)"

lemma prepare_step_inv:
  assumes "monitor_step N target (PrepareBypasses as closed) mo rec os = (x, mo', rec', os')"
    and "at_monitor F D0 S0 mo rec os"
  shows "at_monitor F D0 S0 mo' rec' os'"
proof (cases closed)
  case True
  then show ?thesis using assms by (simp add: monitor_step_def)
next
  case False
  obtain rec1 lft os1 where roll: "rollback_upstream_bypasses N rec (mo_rollback_routes mo) os = (rec1, lft, os1)"
    by (metis prod_cases3)
  have sub: "set (mo_rollback_routes mo) \<subseteq> set (provisional mo)" by (auto simp: provisional_def)
  note one = rollback_session [OF roll conjunct1 [OF assms(2)] sub]
  show ?thesis
  proof (cases "lft = []")
    case True
    obtain y rec2 u os2 where up: "add_upstream_bypasses N rec1 as \<lparr>pb_added = [], pb_desired = []\<rparr> os1 = (y, rec2, u, os2)"
      by (metis prod_cases4)
    note two = add_upstream_session [OF up at_session_extra [OF one(1), of "[]"]]
    have "mo' = mo\<lparr>mo_pending := Some u, mo_rollback_routes := []\<rparr>" "rec' = rec2" "os' = os2"
      using assms(1) False roll True up by (simp_all add: monitor_step_def)
    then show ?thesis using two by (simp add: provisional_def pending_desired_def)
  next
    case busy: False
    then have res: "mo' = mo\<lparr>mo_rollback_routes := lft\<rparr>" "rec' = rec1" "os' = os1"
      using assms(1) False roll by (simp_all add: monitor_step_def)
    have "set (provisional mo') \<subseteq> set (provisional mo)" using one(2) res(1) by (auto simp: provisional_def)
    then show ?thesis using at_session_extra [OF one(1)] one(3) assms(2) res by (simp add: pending_desired_def)
  qed
qed

lemma rollback_step_inv:
  assumes "monitor_step N target RollbackBypasses mo rec os = (x, mo', rec', os')" "at_monitor F D0 S0 mo rec os"
  shows "at_monitor F D0 S0 mo' rec' os'"
proof -
  obtain rec1 lft os1 where roll: "rollback_upstream_bypasses N rec (provisional mo) os = (rec1, lft, os1)"
    by (metis prod_cases3)
  note one = rollback_session [OF roll conjunct1 [OF assms(2)] subset_refl]
  have "mo' = \<lparr>mo_pending = None, mo_rollback_routes = lft\<rparr>" "rec' = rec1" "os' = os1"
    using assms(1) roll by (simp_all add: monitor_step_def provisional_def Let_def)
  then show ?thesis using at_session_extra [OF one(1,2)] by (simp add: provisional_def pending_desired_def)
qed

lemma interval_step_inv:
  assumes "monitor_step N target IntervalElapsed mo rec os = (x, mo', rec', os')" "at_monitor F D0 S0 mo rec os"
  shows "at_monitor F D0 S0 mo' rec' os'"
proof -
  obtain y snaps os1 where rec: "reconcile_interface_settings N target (ir_interface_snapshots rec) os = (y, snaps, os1)"
    by (metis prod_cases3)
  let ?rec = "rec\<lparr>ir_interface_snapshots := snaps\<rparr>"
  obtain rec1 lft os2 where roll: "rollback_upstream_bypasses N ?rec (mo_rollback_routes mo) os1 = (rec1, lft, os2)"
    by (metis prod_cases3)
  have "settings_inv S0 (S os) (ir_interface_snapshots rec)" using assms(2) by (simp add: session_inv_def)
  note set1 = reconcile_interface_settings_inv [OF rec this]
  then have "at_session F D0 S0 (provisional mo) ?rec os1" using assms(2) by (simp add: session_inv_def dns_inv_def)
  note one = rollback_session [OF roll this]
  have sub: "set (mo_rollback_routes mo) \<subseteq> set (provisional mo)" by (auto simp: provisional_def)
  let ?mo = "mo\<lparr>mo_rollback_routes := lft\<rparr>"
  have left: "set (provisional ?mo) \<subseteq> set (provisional mo)" using one(2) [OF sub] by (auto simp: provisional_def)
  have at1: "at_session F D0 S0 (provisional ?mo) rec1 os2" using at_session_extra [OF one(1) [OF sub] left] .
  have tun: "ir_tun_luid rec1 = ir_tun_luid rec" using one(3) [OF sub] by simp
  show ?thesis
  proof (cases "mo_pending mo")
    case None
    obtain z rec2 os3 where z: "reconcile_bypass_routes N rec1 os2 = (z, rec2, os3)" by (metis prod_cases3)
    then have "mo' = ?mo" "rec' = rec2" "os' = os3"
      using assms(1) rec roll None by (simp_all add: monitor_step_def)
    then show ?thesis using reconcile_bypass_session [OF z at1] None by (simp add: pending_desired_def)
  next
    case (Some u)
    then have "mo' = ?mo" "rec' = rec1" "os' = os2"
      using assms(1) rec roll by (simp_all add: monitor_step_def)
    then show ?thesis using at1 tun assms(2) by (simp add: pending_desired_def)
  qed
qed

lemma monitor_step_inv:
  assumes "monitor_step N target ev mo rec os = (x, mo', rec', os')" "at_monitor F D0 S0 mo rec os"
  shows "at_monitor F D0 S0 mo' rec' os'"
proof (cases ev)
  case (PrepareBypasses as closed)
  then show ?thesis using prepare_step_inv assms by blast
next
  case CommitBypasses
  show ?thesis
  proof (cases "mo_pending mo")
    case None
    then show ?thesis using assms CommitBypasses by (simp add: monitor_step_def)
  next
    case (Some u)
    then have res: "mo' = mo\<lparr>mo_pending := None\<rparr>" "rec' = commit_upstream_bypasses rec u" "os' = os"
      using assms(1) CommitBypasses by (simp_all add: monitor_step_def)
    have "at_session F D0 S0 (provisional mo) rec' os" unfolding res(2)
      using commit_session [OF conjunct1 [OF assms(2)], of u] assms(2) Some by (simp add: pending_desired_def)
    from at_session_extra [OF this] show ?thesis using res by (simp add: provisional_def pending_desired_def)
  qed
next
  case RollbackBypasses
  then show ?thesis using rollback_step_inv assms by blast
next
  case IntervalElapsed
  then show ?thesis using interval_step_inv assms by blast
qed

lemma monitor_run_inv:
  assumes "monitor_run N target evs mo rec os = (mo', rec', os')" "at_monitor F D0 S0 mo rec os"
  shows "at_monitor F D0 S0 mo' rec' os'"
  using assms
proof (induction evs arbitrary: mo rec os)
  case Nil
  then show ?case by simp
next
  case (Cons ev evs)
  obtain x mo1 rec1 os1 where step: "monitor_step N target ev mo rec os = (x, mo1, rec1, os1)" by (metis prod_cases4)
  then have "monitor_run N target evs mo1 rec1 os1 = (mo', rec', os')" using Cons.prems(1) by simp
  then show ?case using Cons.IH monitor_step_inv [OF step Cons.prems(2)] by blast
qed

lemma config_run_inv:
  assumes "config_run N target evs rec os = (rec', os')" "at_session F D0 S0 [] rec os"
  shows "at_session F D0 S0 [] rec' os'"
proof (cases target)
  case None
  then show ?thesis using assms by (simp add: config_run_def)
next
  case (Some t)
  obtain mo where run: "monitor_run N t evs monitor_new rec os = (mo, rec', os')"
    using assms(1) Some by (auto simp: config_run_def split: prod.splits)
  have "at_monitor F D0 S0 monitor_new rec os"
    using assms(2) by (simp add: monitor_new_def provisional_def pending_desired_def)
  from at_session_extra [OF conjunct1 [OF monitor_run_inv [OF run this]], of "[]"] show ?thesis by simp
qed

text \<open>Teardown gives the machine back, or keeps owning what it could not give back.\<close>

lemma remove_restores:
  assumes "remove_config N rec os = (x, rec', os')" "at_session F D0 S0 extra rec os"
  shows "T os' = F \<union> row ` set (ir_owned_routes rec') \<and> (x = Inr () \<longrightarrow> ir_removed rec')
    \<and> (ir_removed rec' \<longrightarrow> T os' = F \<and> D os' = D0 \<and> S os' = S0)"
proof -
  have owned: "T o2 = F \<union> row ` set (ir_owned_routes r)" if "at_session F D0 S0 extra r o2" for r o2
    using that by (simp add: session_inv_def routes_inv_def)
  have live: "\<not> ir_removed r" if "at_session F D0 S0 extra r o2" for r o2
    using that by (simp add: session_inv_def)
  obtain y rec1 os1 where y: "cleanup_transaction N rec os = (y, rec1, os1)" by (metis prod_cases3)
  note one = cleanup_inv [OF y assms(2)]
  show ?thesis
  proof (cases "y = Inr ()")
    case True
    then show ?thesis using assms(1) y one by (auto simp: remove_config_def drop_config_def)
  next
    case False
    then have at1: "at_session F D0 S0 extra rec1 os1" using one by simp
    obtain z rec2 os2 where z: "cleanup_transaction N rec1 os1 = (z, rec2, os2)" by (metis prod_cases3)
    note two = cleanup_inv [OF z at1]
    have "x = y" "rec' = rec2" "os' = os2"
      using assms(1) y z live [OF at1] by (simp_all add: remove_config_def drop_config_def)
    then show ?thesis using two False owned [of os2 rec2] live [of os2 rec2] by (cases "z = Inr ()") auto
  qed
qed

lemma install_config_inv:
  assumes "install_config L N args spawn os = (x, os')"
  shows "case x of
      Inr (rec, target) \<Rightarrow> at_session (T os) (D os) (S os) [] rec os'
    | Inl e \<Rightarrow> (T os' = T os \<and> D os' = D os \<and> S os' = S os) \<or> (\<exists>a b c. e = RollbackIncomplete a b c)"
proof -
  obtain y os1 where y: "install_transaction L N args os = (y, os1)" by fastforce
  note one = install_inv [OF y]
  show ?thesis
  proof (cases y)
    case (Inl e)
    then show ?thesis using assms y one by (auto simp: install_config_def)
  next
    case (Inr rec)
    then have at: "at_session (T os) (D os) (S os) [] rec os1" using one by simp
    obtain e' rec2 os2 where roll: "rollback_after_setup_failure N rec
        (InContext ''start the Windows TUN/WSL forwarding monitor'' (the spawn)) os1 = (e', rec2, os2)" by (metis prod_cases3)
    show ?thesis using assms y Inr at roll rollback_after_inv [OF roll at]
      by (cases spawn) (auto simp: install_config_def split: if_splits)
  qed
qed

end

end
