(* ===== verification/IpHelper.thy ===== *)
theory IpHelper
  imports WindowsRestore "HOL-Library.Sublist"
begin

text \<open>
  The implementation \<^verbatim>\<open>IpHelperOperations\<close> of the trait in \<^verbatim>\<open>src/windows_network_config.rs\<close>.  The IP
  Helper functions are system code: the record \<^verbatim>\<open>win_api\<close> holds them as functions of a state of the
  machine that return a status, and \<^verbatim>\<open>win_laws\<close> states what their documentation promises about the
  routing table, the DNS servers and the interface settings.  Under these laws the implementation
  satisfies the contract of the trait, which gives the properties of a whole session.
\<close>

section \<open>Rows and calls of the system\<close>

text \<open>A socket address: the address is read from its octets in network order.\<close>

datatype sockaddr_inet = SockIn u32 | SockIn6 u128 u32 | SockOther nat

datatype address_family = AfInet | AfInet6 | AfOther nat

definition si_family :: "sockaddr_inet \<Rightarrow> address_family" where
  "si_family a = (case a of SockIn _ \<Rightarrow> AfInet | SockIn6 _ _ \<Rightarrow> AfInet6 | SockOther n \<Rightarrow> AfOther n)"

record forward_row =
  fr_luid :: luid
  fr_prefix :: sockaddr_inet
  fr_prefix_len :: nat
  fr_next_hop :: sockaddr_inet
  fr_metric :: u32
  fr_protocol :: nat
  fr_origin :: nat
  fr_valid_lifetime :: u32
  fr_loopback :: bool

record interface_row =
  ifr_connected :: bool
  ifr_disable_default_routes :: bool
  ifr_metric :: u32
  ifr_forwarding_enabled :: bool
  ifr_weak_host_send :: bool
  ifr_weak_host_receive :: bool

record 'o win_api =
  wa_codes :: win_codes
  wa_initial_row :: forward_row
  wa_proto_netmgmt :: nat
  wa_origin_manual :: nat
  wa_alias_to_luid :: "string \<Rightarrow> 'o \<Rightarrow> nat \<times> luid \<times> 'o"
  wa_luid_to_alias :: "luid \<Rightarrow> 'o \<Rightarrow> nat \<times> string \<times> 'o"
  wa_luid_to_guid :: "luid \<Rightarrow> 'o \<Rightarrow> nat \<times> nat \<times> 'o"
  wa_best_route :: "sockaddr_inet \<Rightarrow> 'o \<Rightarrow> nat \<times> forward_row \<times> 'o"
  wa_forward_table :: "'o \<Rightarrow> nat \<times> forward_row list option \<times> 'o"
  wa_interface_table :: "'o \<Rightarrow> nat \<times> luid list option \<times> 'o"
  wa_get_interface :: "address_family \<Rightarrow> luid \<Rightarrow> 'o \<Rightarrow> nat \<times> interface_row \<times> 'o"
  wa_set_interface :: "luid \<Rightarrow> interface_row \<Rightarrow> 'o \<Rightarrow> nat \<times> 'o"
  wa_create_entry :: "forward_row \<Rightarrow> 'o \<Rightarrow> nat \<times> 'o"
  wa_delete_entry :: "forward_row \<Rightarrow> 'o \<Rightarrow> nat \<times> 'o"
  wa_load_library :: "'o \<Rightarrow> nat \<times> bool \<times> 'o"
  wa_get_dns :: "nat \<Rightarrow> 'o \<Rightarrow> nat \<times> string option \<times> 'o"
  wa_set_dns :: "nat \<Rightarrow> string option \<Rightarrow> 'o \<Rightarrow> nat \<times> 'o"

definition win32_result :: "win_codes \<Rightarrow> nat \<Rightarrow> unit net_result" where
  "win32_result C status = (if status = no_error C then Inr () else Inl (OsError status))"

definition sockaddr :: "ip_addr \<Rightarrow> u32 \<Rightarrow> sockaddr_inet" where
  "sockaddr ip scope_id = (case ip of V4 a \<Rightarrow> SockIn a | V6 a \<Rightarrow> SockIn6 a scope_id)"

definition route_address :: "sockaddr_inet \<Rightarrow> route_address net_result" where
  "route_address a = (case a of
     SockIn ip \<Rightarrow> Inr (route_address_new (V4 ip))
   | SockIn6 ip scope_id \<Rightarrow> Inr \<lparr>ra_ip = V6 ip, ra_scope_id = scope_id\<rparr>
   | SockOther _ \<Rightarrow> Inl (NetError InvalidData ''IP Helper returned unsupported address family''))"

definition route_row :: "'o win_api \<Rightarrow> route_spec \<Rightarrow> forward_row" where
  "route_row W route = (wa_initial_row W)\<lparr>fr_luid := rs_interface_luid route,
     fr_prefix := sockaddr (rs_destination route) 0, fr_prefix_len := rs_prefix_len route,
     fr_next_hop := sockaddr (ra_ip (rs_next_hop route)) (ra_scope_id (rs_next_hop route)),
     fr_metric := rs_metric route, fr_protocol := wa_proto_netmgmt W, fr_origin := wa_origin_manual W\<rparr>"

definition physical_route_metric :: "forward_row \<Rightarrow> interface_row \<Rightarrow> u32 option" where
  "physical_route_metric row iface =
     (if ifr_connected iface \<and> \<not> (ifr_disable_default_routes iface \<and> fr_prefix_len row = 0)
        \<and> fr_valid_lifetime row \<noteq> 0 \<and> \<not> fr_loopback row
      then Some (ifr_metric iface) else None)"

definition is_wsl_hns_alias :: "string \<Rightarrow> bool" where
  "is_wsl_hns_alias alias = (let normalized = to_ascii_lowercase alias in
     prefix ''vethernet ('' normalized \<and> sublist ''wsl'' normalized)"

section \<open>The operations\<close>

definition ih_interface_luid :: "'o win_api \<Rightarrow> string \<Rightarrow> 'o \<Rightarrow> luid net_result \<times> 'o" where
  "ih_interface_luid W alias os = (case wa_alias_to_luid W alias os of (status, l, os1) \<Rightarrow>
     (rbind (win32_result (wa_codes W) status) (\<lambda>_. Inr l), os1))"

definition ih_best_route :: "'o win_api \<Rightarrow> ip_addr \<Rightarrow> 'o \<Rightarrow> (luid \<times> route_address) net_result \<times> 'o" where
  "ih_best_route W destination os = (case wa_best_route W (sockaddr destination 0) os of (status, row, os1) \<Rightarrow>
     (rbind (win32_result (wa_codes W) status) (\<lambda>_. rbind (route_address (fr_next_hop row)) (\<lambda>hop. Inr (fr_luid row, hop))), os1))"

text \<open>Each interface is asked once for each address family of its rows.\<close>

fun physical_rows ::
  "'o win_api \<Rightarrow> forward_row list \<Rightarrow> ((luid \<times> address_family) \<times> interface_row option) list \<Rightarrow> 'o
   \<Rightarrow> (route_spec \<times> u32) list net_result \<times> 'o" where
  "physical_rows W [] cache os = (Inr [], os)"
| "physical_rows W (row # rows) cache os =
     (let k = (fr_luid row, si_family (fr_prefix row)) in
      case (case map_of cache k of
          Some entry \<Rightarrow> (entry, cache, os)
        | None \<Rightarrow> (case wa_get_interface W (snd k) (fst k) os of (status, iface, os1) \<Rightarrow>
            let entry = (if status = no_error (wa_codes W) then Some iface else None) in
            (entry, (k, entry) # cache, os1))) of
        (entry, cache', os1) \<Rightarrow>
          (case Option.bind entry (physical_route_metric row) of
             None \<Rightarrow> physical_rows W rows cache' os1
           | Some metric \<Rightarrow> (case route_address (fr_prefix row) of
               Inl e \<Rightarrow> (Inl e, os1)
             | Inr dest \<Rightarrow> (case route_address (fr_next_hop row) of
                 Inl e \<Rightarrow> (Inl e, os1)
               | Inr hop \<Rightarrow> (case physical_rows W rows cache' os1 of
                   (Inl e, os2) \<Rightarrow> (Inl e, os2)
                 | (Inr routes, os2) \<Rightarrow> (Inr ((\<lparr>rs_destination = ra_ip dest, rs_prefix_len = fr_prefix_len row,
                     rs_next_hop = hop, rs_interface_luid = fr_luid row, rs_metric = fr_metric row\<rparr>, metric)
                     # routes), os2))))))"

definition ih_physical_routes :: "'o win_api \<Rightarrow> 'o \<Rightarrow> (route_spec \<times> u32) list net_result \<times> 'o" where
  "ih_physical_routes W os = (case wa_forward_table W os of (status, table, os1) \<Rightarrow>
     (case win32_result (wa_codes W) status of
        Inl e \<Rightarrow> (Inl e, os1)
      | Inr _ \<Rightarrow> (case table of
          None \<Rightarrow> (Inl (NetError OtherKind ''GetIpForwardTable2 returned a null table''), os1)
        | Some rows \<Rightarrow> physical_rows W rows [] os1)))"

definition ih_create_route :: "'o win_api \<Rightarrow> route_spec \<Rightarrow> 'o \<Rightarrow> add_outcome net_result \<times> 'o" where
  "ih_create_route W route os = (case wa_create_entry W (route_row W route) os of (status, os1) \<Rightarrow>
     (if status = error_object_already_exists (wa_codes W) then Inr Preexisting
      else rbind (win32_result (wa_codes W) status) (\<lambda>_. Inr Created), os1))"

definition ih_delete_route :: "'o win_api \<Rightarrow> route_spec \<Rightarrow> 'o \<Rightarrow> unit net_result \<times> 'o" where
  "ih_delete_route W route os = (case wa_delete_entry W (route_row W route) os of (status, os1) \<Rightarrow>
     (if status = error_not_found (wa_codes W) then Inr () else win32_result (wa_codes W) status, os1))"

fun wsl_targets :: "'o win_api \<Rightarrow> luid list \<Rightarrow> 'o \<Rightarrow> interface_target list \<times> 'o" where
  "wsl_targets W [] os = ([], os)"
| "wsl_targets W (l # ls) os = (case wa_luid_to_alias W l os of (status, alias, os1) \<Rightarrow>
     (case wsl_targets W ls os1 of (ts, os2) \<Rightarrow>
        (if status = no_error (wa_codes W) \<and> is_wsl_hns_alias alias
         then \<lparr>it_luid = l, it_alias = alias, it_role = WslHns\<rparr> # ts else ts, os2)))"

definition ih_wsl_hns_interfaces :: "'o win_api \<Rightarrow> 'o \<Rightarrow> interface_target list net_result \<times> 'o" where
  "ih_wsl_hns_interfaces W os = (case wa_interface_table W os of (status, table, os1) \<Rightarrow>
     (case win32_result (wa_codes W) status of
        Inl e \<Rightarrow> (Inl e, os1)
      | Inr _ \<Rightarrow> (case table of
          None \<Rightarrow> (Inl (NetError OtherKind ''GetIpInterfaceTable returned a null IPv4 interface table''), os1)
        | Some ls \<Rightarrow> (case wsl_targets W ls os1 of (ts, os2) \<Rightarrow> (Inr ts, os2)))))"

definition ip_interface_row :: "'o win_api \<Rightarrow> luid \<Rightarrow> 'o \<Rightarrow> interface_row net_result \<times> 'o" where
  "ip_interface_row W l os = (case wa_get_interface W AfInet l os of (status, row, os1) \<Rightarrow>
     (rbind (win32_result (wa_codes W) status) (\<lambda>_. Inr row), os1))"

definition row_settings :: "interface_row \<Rightarrow> interface_settings" where
  "row_settings row = \<lparr>st_forwarding = ifr_forwarding_enabled row, st_weak_host_send = ifr_weak_host_send row,
     st_weak_host_receive = ifr_weak_host_receive row\<rparr>"

definition ih_interface_settings :: "'o win_api \<Rightarrow> luid \<Rightarrow> 'o \<Rightarrow> interface_settings net_result \<times> 'o" where
  "ih_interface_settings W l os = (case ip_interface_row W l os of (r, os1) \<Rightarrow>
     (rbind r (\<lambda>row. Inr (row_settings row)), os1))"

definition patch_row :: "interface_patch \<Rightarrow> interface_row \<Rightarrow> interface_row" where
  "patch_row p row =
     (let row1 = (case pa_forwarding p of Some v \<Rightarrow> row\<lparr>ifr_forwarding_enabled := v\<rparr> | None \<Rightarrow> row);
          row2 = (case pa_weak_host_send p of Some v \<Rightarrow> row1\<lparr>ifr_weak_host_send := v\<rparr> | None \<Rightarrow> row1) in
      case pa_weak_host_receive p of Some v \<Rightarrow> row2\<lparr>ifr_weak_host_receive := v\<rparr> | None \<Rightarrow> row2)"

definition ih_apply_interface_patch :: "'o win_api \<Rightarrow> luid \<Rightarrow> interface_patch \<Rightarrow> 'o \<Rightarrow> unit net_result \<times> 'o" where
  "ih_apply_interface_patch W l p os =
     (if patch_is_empty p then (Inr (), os)
      else case ip_interface_row W l os of
          (Inl e, os1) \<Rightarrow> (Inl e, os1)
        | (Inr row, os1) \<Rightarrow> (case wa_set_interface W l (patch_row p row) os1 of (status, os2) \<Rightarrow>
            (win32_result (wa_codes W) status, os2)))"

text \<open>Loading the DNS functions fails with a status, or because an older system lacks them.\<close>

definition interface_dns_api_load :: "'o win_api \<Rightarrow> 'o \<Rightarrow> unit net_result \<times> 'o" where
  "interface_dns_api_load W os = (case wa_load_library W os of (status, has_procs, os1) \<Rightarrow>
     (rbind (win32_result (wa_codes W) status) (\<lambda>_. if has_procs then Inr ()
        else Inl (NetError Unsupported ''transactional Windows TUN DNS setup requires Windows 10 version 2004'')), os1))"

definition luid_to_guid :: "'o win_api \<Rightarrow> luid \<Rightarrow> 'o \<Rightarrow> nat net_result \<times> 'o" where
  "luid_to_guid W l os = (case wa_luid_to_guid W l os of (status, guid, os1) \<Rightarrow>
     (rbind (win32_result (wa_codes W) status) (\<lambda>_. Inr guid), os1))"

definition ih_snapshot_dns :: "'o win_api \<Rightarrow> luid \<Rightarrow> 'o \<Rightarrow> dns_snapshot net_result \<times> 'o" where
  "ih_snapshot_dns W l os = (case interface_dns_api_load W os of
     (Inl e, os1) \<Rightarrow> (Inl e, os1)
   | (Inr _, os1) \<Rightarrow> (case luid_to_guid W l os1 of
       (Inl e, os2) \<Rightarrow> (Inl e, os2)
     | (Inr guid, os2) \<Rightarrow> (case wa_get_dns W guid os2 of (status, servers, os3) \<Rightarrow>
         (rbind (win32_result (wa_codes W) status) (\<lambda>_. Inr servers), os3))))"

definition ih_set_dns :: "'o win_api \<Rightarrow> luid \<Rightarrow> string option \<Rightarrow> 'o \<Rightarrow> unit net_result \<times> 'o" where
  "ih_set_dns W l name_servers os = (case interface_dns_api_load W os of
     (Inl e, os1) \<Rightarrow> (Inl e, os1)
   | (Inr _, os1) \<Rightarrow> (case luid_to_guid W l os1 of
       (Inl e, os2) \<Rightarrow> (Inl e, os2)
     | (Inr guid, os2) \<Rightarrow> (case wa_set_dns W guid name_servers os2 of (status, os3) \<Rightarrow>
         (win32_result (wa_codes W) status, os3))))"

definition ip_helper_ops :: "'o win_api \<Rightarrow> 'o net_ops" where
  "ip_helper_ops W = \<lparr>op_codes = wa_codes W, op_interface_luid = ih_interface_luid W, op_best_route = ih_best_route W,
     op_physical_routes = ih_physical_routes W, op_create_route = ih_create_route W,
     op_delete_route = ih_delete_route W, op_wsl_hns_interfaces = ih_wsl_hns_interfaces W,
     op_interface_settings = ih_interface_settings W, op_apply_interface_patch = ih_apply_interface_patch W,
     op_snapshot_dns = ih_snapshot_dns W, op_set_dns = ih_set_dns W\<rparr>"

text \<open>
  The interface of the default physical route among candidates; \<^verbatim>\<open>index\<close> is the conversion of an
  interface to its index, absent when it fails.
\<close>

definition physical_default_interface ::
  "'o win_api \<Rightarrow> (luid \<Rightarrow> u32 option) \<Rightarrow> string option \<Rightarrow> u32 list \<Rightarrow> 'o \<Rightarrow> u32 option \<times> 'o" where
  "physical_default_interface W index tun_name candidates os =
     (case (case tun_name of None \<Rightarrow> (0, os) | Some n \<Rightarrow> (case ih_interface_luid W n os of
          (Inr l, os1) \<Rightarrow> (l, os1) | (Inl _, os1) \<Rightarrow> (0, os1))) of (tun, os1) \<Rightarrow>
      case ih_physical_routes W os1 of
        (Inl _, os2) \<Rightarrow> (None, os2)
      | (Inr routes, os2) \<Rightarrow>
          (Option.bind (select_physical_route
             (filter (\<lambda>(r, _). case index (rs_interface_luid r) of None \<Rightarrow> False | Some i \<Rightarrow> i \<in> set candidates) routes)
             (V4 0) tun []) (\<lambda>r. index (rs_interface_luid r)), os2))"

section \<open>What the system promises\<close>

text \<open>A row of the routing table is identified by its interface, destination prefix and next hop.\<close>

definition row_key :: "forward_row \<Rightarrow> luid \<times> sockaddr_inet \<times> nat \<times> sockaddr_inet" where
  "row_key row = (fr_luid row, fr_prefix row, fr_prefix_len row, fr_next_hop row)"

text \<open>
  The views of the machine: the rows of its table, the DNS servers and the settings of an interface.
  A call that only reads leaves them as they are; a call that fails does too.
\<close>

definition unchanged ::
  "('o \<Rightarrow> forward_row set) \<Rightarrow> ('o \<Rightarrow> nat \<Rightarrow> string option) \<Rightarrow> ('o \<Rightarrow> luid \<Rightarrow> interface_settings option) \<Rightarrow> 'o \<Rightarrow> 'o \<Rightarrow> bool" where
  "unchanged T G S os os' = (T os' = T os \<and> G os' = G os \<and> S os' = S os)"

definition keeps :: "('o \<Rightarrow> forward_row set) \<Rightarrow> ('o \<Rightarrow> nat \<Rightarrow> string option)
   \<Rightarrow> ('o \<Rightarrow> luid \<Rightarrow> interface_settings option) \<Rightarrow> ('o \<Rightarrow> nat \<times> 'x \<times> 'o) \<Rightarrow> bool" where
  "keeps T G S call = (\<forall>os. unchanged T G S os (snd (snd (call os))))"

definition reads_only :: "('o \<Rightarrow> forward_row set) \<Rightarrow> ('o \<Rightarrow> nat \<Rightarrow> string option)
   \<Rightarrow> ('o \<Rightarrow> luid \<Rightarrow> interface_settings option) \<Rightarrow> 'o win_api \<Rightarrow> bool" where
  "reads_only T G S W =
     ((\<forall>a. keeps T G S (wa_alias_to_luid W a)) \<and> (\<forall>l. keeps T G S (wa_luid_to_alias W l))
      \<and> (\<forall>l. keeps T G S (wa_luid_to_guid W l)) \<and> (\<forall>a. keeps T G S (wa_best_route W a))
      \<and> keeps T G S (wa_forward_table W) \<and> keeps T G S (wa_interface_table W)
      \<and> (\<forall>f l. keeps T G S (wa_get_interface W f l)) \<and> keeps T G S (wa_load_library W)
      \<and> (\<forall>g. keeps T G S (wa_get_dns W g)))"

definition missing :: "win_codes \<Rightarrow> nat \<Rightarrow> bool" where
  "missing C st = (st = error_file_not_found C \<or> st = error_not_found C)"

definition win_laws :: "('o \<Rightarrow> forward_row set) \<Rightarrow> (luid \<Rightarrow> nat) \<Rightarrow> ('o \<Rightarrow> nat \<Rightarrow> string option)
   \<Rightarrow> ('o \<Rightarrow> luid \<Rightarrow> interface_settings option) \<Rightarrow> 'o win_api \<Rightarrow> bool" where
  "win_laws T guid G S W = (let C = wa_codes W in
     no_error C \<noteq> error_object_already_exists C \<and> no_error C \<noteq> error_not_found C
     \<and> reads_only T G S W \<and> inj guid
     \<and> (\<forall>l os x os'. wa_luid_to_guid W l os = (no_error C, x, os') \<longrightarrow> x = guid l)
     \<and> (\<forall>l os st x os'. wa_get_interface W AfInet l os = (st, x, os') \<longrightarrow>
          (st = no_error C \<longrightarrow> S os l = Some (row_settings x)) \<and> (missing C st \<longrightarrow> S os l = None))
     \<and> (\<forall>l row os st os'. S os l \<noteq> None \<longrightarrow> wa_set_interface W l row os = (st, os') \<longrightarrow>
          (if st = no_error C then T os' = T os \<and> G os' = G os \<and> S os' = (S os)(l \<mapsto> row_settings row)
           else unchanged T G S os os' \<and> \<not> missing C st))
     \<and> (\<forall>row os st os'. wa_create_entry W row os = (st, os') \<longrightarrow>
          (if st = no_error C then row_key row \<notin> row_key ` T os \<and> T os' = insert row (T os)
             \<and> G os' = G os \<and> S os' = S os
           else unchanged T G S os os'))
     \<and> (\<forall>row os st os'. wa_delete_entry W row os = (st, os') \<longrightarrow>
          (if st = no_error C then T os' = {y \<in> T os. row_key y \<noteq> row_key row} \<and> G os' = G os \<and> S os' = S os
           else unchanged T G S os os' \<and> (st = error_not_found C \<longrightarrow> row_key row \<notin> row_key ` T os)))
     \<and> (\<forall>g os x os'. wa_get_dns W g os = (no_error C, x, os') \<longrightarrow> x = G os g)
     \<and> (\<forall>g v os st os'. wa_set_dns W g v os = (st, os') \<longrightarrow>
          (if st = no_error C then T os' = T os \<and> G os' = (G os)(g := v) \<and> S os' = S os
           else unchanged T G S os os')))"

section \<open>The implementation satisfies the contract\<close>

lemma win32_result_simps [simp]:
  "win32_result C st = Inr u \<longleftrightarrow> st = no_error C" "win32_result C st = Inl e \<longleftrightarrow> st \<noteq> no_error C \<and> e = OsError st"
  by (auto simp: win32_result_def)

lemma unchanged_trans: "unchanged T G S a b \<Longrightarrow> unchanged T G S b c \<Longrightarrow> unchanged T G S a c"
  by (simp add: unchanged_def)

lemma unchanged_refl [simp]: "unchanged T G S a a"
  by (simp add: unchanged_def)

lemma route_address_ok: "route_address a = Inr h \<Longrightarrow> address_ok h"
  by (auto simp: route_address_def route_address_new_def address_ok_def split: sockaddr_inet.splits)

lemma row_key_route_key:
  assumes "address_ok (rs_next_hop r)" "address_ok (rs_next_hop r')" "row_key (route_row W r) = row_key (route_row W r')"
  shows "route_key r = route_key r'"
proof -
  have "sockaddr (rs_destination r) 0 = sockaddr (rs_destination r') 0"
    "sockaddr (ra_ip (rs_next_hop r)) (ra_scope_id (rs_next_hop r))
      = sockaddr (ra_ip (rs_next_hop r')) (ra_scope_id (rs_next_hop r'))"
    and rest: "rs_interface_luid r = rs_interface_luid r'" "rs_prefix_len r = rs_prefix_len r'"
    using assms(3) by (simp_all add: row_key_def route_row_def)
  then have "rs_destination r = rs_destination r'" "ra_ip (rs_next_hop r) = ra_ip (rs_next_hop r')"
    "ra_scope_id (rs_next_hop r) = ra_scope_id (rs_next_hop r')"
    using assms(1,2) by (auto simp: sockaddr_def address_ok_def split: ip_addr.splits)
  then show ?thesis using rest by (simp add: route_key_def)
qed

lemma patch_row_settings: "row_settings (patch_row p row) = patched p (row_settings row)"
  by (simp add: row_settings_def patch_row_def patched_def patched_field_def Let_def split: option.splits)

lemmas win_laws_unfold = win_laws_def [unfolded Let_def]

lemma win_lawsD:
  assumes "win_laws T guid G S W"
  shows "no_error (wa_codes W) \<noteq> error_object_already_exists (wa_codes W)"
    "no_error (wa_codes W) \<noteq> error_not_found (wa_codes W)" "reads_only T G S W" "inj guid"
    "\<forall>l os x os'. wa_luid_to_guid W l os = (no_error (wa_codes W), x, os') \<longrightarrow> x = guid l"
    "\<forall>l os st x os'. wa_get_interface W AfInet l os = (st, x, os') \<longrightarrow>
      (st = no_error (wa_codes W) \<longrightarrow> S os l = Some (row_settings x)) \<and> (missing (wa_codes W) st \<longrightarrow> S os l = None)"
    "\<forall>l row os st os'. S os l \<noteq> None \<longrightarrow> wa_set_interface W l row os = (st, os') \<longrightarrow>
      (if st = no_error (wa_codes W) then T os' = T os \<and> G os' = G os \<and> S os' = (S os)(l \<mapsto> row_settings row)
       else unchanged T G S os os' \<and> \<not> missing (wa_codes W) st)"
    "\<forall>row os st os'. wa_create_entry W row os = (st, os') \<longrightarrow>
      (if st = no_error (wa_codes W) then row_key row \<notin> row_key ` T os \<and> T os' = insert row (T os)
         \<and> G os' = G os \<and> S os' = S os else unchanged T G S os os')"
    "\<forall>row os st os'. wa_delete_entry W row os = (st, os') \<longrightarrow>
      (if st = no_error (wa_codes W) then T os' = {y \<in> T os. row_key y \<noteq> row_key row} \<and> G os' = G os \<and> S os' = S os
       else unchanged T G S os os' \<and> (st = error_not_found (wa_codes W) \<longrightarrow> row_key row \<notin> row_key ` T os))"
    "\<forall>g os x os'. wa_get_dns W g os = (no_error (wa_codes W), x, os') \<longrightarrow> x = G os g"
    "\<forall>g v os st os'. wa_set_dns W g v os = (st, os') \<longrightarrow>
      (if st = no_error (wa_codes W) then T os' = T os \<and> G os' = (G os)(g := v) \<and> S os' = S os
       else unchanged T G S os os')"
  using assms [unfolded win_laws_unfold] by - (elim conjE, assumption)+

lemma keepsD: "keeps T G S call \<Longrightarrow> call os = (st, x, os') \<Longrightarrow> unchanged T G S os os'"
  unfolding keeps_def by (metis snd_conv)

lemma reads_keep:
  assumes "win_laws T guid G S W"
  shows "keeps T G S (wa_alias_to_luid W a)" "keeps T G S (wa_luid_to_alias W l)" "keeps T G S (wa_luid_to_guid W l)"
    "keeps T G S (wa_best_route W sa)" "keeps T G S (wa_forward_table W)" "keeps T G S (wa_interface_table W)"
    "keeps T G S (wa_get_interface W f l)" "keeps T G S (wa_load_library W)" "keeps T G S (wa_get_dns W g)"
  using win_lawsD(3) [OF assms] by (simp_all add: reads_only_def)

lemmas reads_unchanged = keepsD [OF reads_keep(1)] keepsD [OF reads_keep(2)] keepsD [OF reads_keep(3)]
  keepsD [OF reads_keep(4)] keepsD [OF reads_keep(5)] keepsD [OF reads_keep(6)] keepsD [OF reads_keep(7)]
  keepsD [OF reads_keep(8)] keepsD [OF reads_keep(9)]

lemma physical_rows_law:
  assumes "win_laws T guid G S W" "physical_rows W rows cache os = (x, os')"
  shows "unchanged T G S os os' \<and> (\<forall>rs. x = Inr rs \<longrightarrow> (\<forall>e \<in> set rs. address_ok (rs_next_hop (fst e))))"
  using assms(2)
proof (induction rows arbitrary: cache os x os')
  case Nil
  then have "x = Inr []" "os' = os" by simp_all
  then show ?case by simp
next
  case (Cons row rows)
  let ?k = "(fr_luid row, si_family (fr_prefix row))"
  obtain entry cache1 os1 where asked: "(case map_of cache ?k of
          Some entry \<Rightarrow> (entry, cache, os)
        | None \<Rightarrow> (case wa_get_interface W (snd ?k) (fst ?k) os of (status, iface, os1) \<Rightarrow>
            let entry = (if status = no_error (wa_codes W) then Some iface else None) in
            (entry, (?k, entry) # cache, os1))) = (entry, cache1, os1)" by (rule prod_cases3)
  have u1: "unchanged T G S os os1"
    using asked reads_unchanged(7) [OF assms(1)] by (auto simp: Let_def split: option.splits prod.splits)
  have step: "physical_rows W (row # rows) cache os = (case Option.bind entry (physical_route_metric row) of
      None \<Rightarrow> physical_rows W rows cache1 os1
    | Some metric \<Rightarrow> (case route_address (fr_prefix row) of
        Inl e \<Rightarrow> (Inl e, os1)
      | Inr dest \<Rightarrow> (case route_address (fr_next_hop row) of
          Inl e \<Rightarrow> (Inl e, os1)
        | Inr hop \<Rightarrow> (case physical_rows W rows cache1 os1 of
            (Inl e, os2) \<Rightarrow> (Inl e, os2)
          | (Inr routes, os2) \<Rightarrow> (Inr ((\<lparr>rs_destination = ra_ip dest, rs_prefix_len = fr_prefix_len row,
              rs_next_hop = hop, rs_interface_luid = fr_luid row, rs_metric = fr_metric row\<rparr>, metric)
              # routes), os2)))))"
    by (subst physical_rows.simps) (simp only: Let_def asked [unfolded Let_def] prod.case)
  obtain y os2 where y: "physical_rows W rows cache1 os1 = (y, os2)" by fastforce
  note rest = Cons.IH [OF y]
  have "x = Inl (projl x) \<and> os' \<in> {os1, os2} \<or> x = y \<and> os' = os2
    \<or> (\<exists>rs e. y = Inr rs \<and> x = Inr (e # rs) \<and> os' = os2 \<and> address_ok (rs_next_hop (fst e)))"
    using Cons.prems step y route_address_ok by (auto split: option.splits sum.splits)
  then show ?case using rest unchanged_trans [OF u1] u1 by (auto dest: sym) force
qed

lemma wsl_targets_law:
  assumes "win_laws T guid G S W" "wsl_targets W ls os = (ts, os')"
  shows "unchanged T G S os os'"
  using assms(2)
proof (induction ls arbitrary: os ts)
  case (Cons l ls)
  obtain st al os1 where a: "wa_luid_to_alias W l os = (st, al, os1)" by (rule prod_cases3)
  obtain ts1 os2 where rest: "wsl_targets W ls os1 = (ts1, os2)" by fastforce
  then have "os' = os2" using Cons.prems a by simp
  then show ?case using unchanged_trans [OF reads_unchanged(2) [OF assms(1) a]] Cons.IH rest by blast
qed simp

lemma dns_api_law:
  assumes "win_laws T guid G S W"
  shows "interface_dns_api_load W os = (x, os') \<Longrightarrow> unchanged T G S os os'"
    "luid_to_guid W l os = (y, os') \<Longrightarrow> unchanged T G S os os' \<and> (\<forall>g. y = Inr g \<longrightarrow> g = guid l)"
  using reads_unchanged(3,8) [OF assms] win_lawsD(5) [OF assms]
  by (auto simp: interface_dns_api_load_def luid_to_guid_def split: prod.splits) blast

lemma ip_helper_simps [simp]:
  "op_codes (ip_helper_ops W) = wa_codes W" "op_interface_luid (ip_helper_ops W) = ih_interface_luid W"
  "op_best_route (ip_helper_ops W) = ih_best_route W" "op_physical_routes (ip_helper_ops W) = ih_physical_routes W"
  "op_create_route (ip_helper_ops W) = ih_create_route W" "op_delete_route (ip_helper_ops W) = ih_delete_route W"
  "op_wsl_hns_interfaces (ip_helper_ops W) = ih_wsl_hns_interfaces W"
  "op_interface_settings (ip_helper_ops W) = ih_interface_settings W"
  "op_apply_interface_patch (ip_helper_ops W) = ih_apply_interface_patch W"
  "op_snapshot_dns (ip_helper_ops W) = ih_snapshot_dns W" "op_set_dns (ip_helper_ops W) = ih_set_dns W"
  by (simp_all add: ip_helper_ops_def)

lemmas create_entry_law = win_lawsD(8) [rule_format]
lemmas delete_entry_law = win_lawsD(9) [rule_format]
lemmas set_interface_law = win_lawsD(7) [rule_format]
lemmas dns_values_law = win_lawsD(10) [rule_format] win_lawsD(11) [rule_format] win_lawsD(4)

lemma ih_patch_law:
  assumes laws: "win_laws T guid G S W" and "\<not> patch_is_empty p" "ih_apply_interface_patch W l p os = (x, os')"
  shows "T os' = T os \<and> G os' = G os
    \<and> (if x = Inr () then \<exists>s. S os l = Some s \<and> S os' = (S os)(l \<mapsto> patched p s)
       else S os' = S os \<and> (\<forall>e. x = Inl e \<longrightarrow> is_missing_interface_error (wa_codes W) e \<longrightarrow> S os l = None))"
proof -
  obtain st row os1 where g: "wa_get_interface W AfInet l os = (st, row, os1)" by (rule prod_cases3)
  note u = reads_unchanged(7) [OF laws g] and v = win_lawsD(6) [OF laws, rule_format, OF g]
  show ?thesis
  proof (cases "st = no_error (wa_codes W)")
    case False
    then have "x = Inl (OsError st)" "os' = os1"
      using assms(2,3) g by (auto simp: ih_apply_interface_patch_def ip_interface_row_def win32_result_def)
    then show ?thesis using u v by (simp add: unchanged_def is_missing_interface_error_def missing_def)
  next
    case True
    obtain st2 os2 where s: "wa_set_interface W l (patch_row p row) os1 = (st2, os2)" by fastforce
    have res: "x = win32_result (wa_codes W) st2" "os' = os2"
      using assms(2,3) g s True by (auto simp: ih_apply_interface_patch_def ip_interface_row_def win32_result_def)
    have S: "S os l = Some (row_settings row)" "S os1 = S os" using u v True by (simp_all add: unchanged_def)
    then have "S os1 l \<noteq> None" by simp
    from set_interface_law [OF laws this s] show ?thesis using u S res
      by (cases "st2 = no_error (wa_codes W)")
        (auto simp: unchanged_def patch_row_settings is_missing_interface_error_def missing_def win32_result_def)
  qed
qed

lemma ih_dns_law:
  assumes laws: "win_laws T guid G S W"
  shows "ih_snapshot_dns W l os = (y, os') \<Longrightarrow> unchanged T G S os os' \<and> (\<forall>d. y = Inr d \<longrightarrow> G os (guid l) = d)"
    "ih_set_dns W l v os = (x, os') \<Longrightarrow> T os' = T os \<and> S os' = S os
      \<and> (\<lambda>l. G os' (guid l)) = (if x = Inr () then (\<lambda>l. G os (guid l))(l := v) else (\<lambda>l. G os (guid l)))"
proof -
  obtain a os1 where a: "interface_dns_api_load W os = (a, os1)" by fastforce
  obtain b os2 where b: "luid_to_guid W l os1 = (b, os2)" by fastforce
  note ua = dns_api_law(1) [OF laws a] and ub = dns_api_law(2) [OF laws b]
  have u: "unchanged T G S os os2" by (rule unchanged_trans [OF ua conjunct1 [OF ub]])
  show "unchanged T G S os os' \<and> (\<forall>d. y = Inr d \<longrightarrow> G os (guid l) = d)" if "ih_snapshot_dns W l os = (y, os')"
  proof (cases "\<exists>g. a = Inr () \<and> b = Inr g")
    case False
    then show ?thesis using that a b ua u by (auto simp: ih_snapshot_dns_def split: sum.splits)
  next
    case True
    then have ab: "a = Inr ()" "b = Inr (guid l)" using ub by auto
    obtain st d os3 where d: "wa_get_dns W (guid l) os2 = (st, d, os3)" by (rule prod_cases3)
    then have "unchanged T G S os os3" by (intro unchanged_trans [OF u reads_unchanged(9) [OF laws]])
    then show ?thesis using that a b ab d u dns_values_law(1) [OF laws, of "guid l" os2 d os3]
      by (auto simp: ih_snapshot_dns_def unchanged_def win32_result_def split: if_splits)
  qed
  show "T os' = T os \<and> S os' = S os
      \<and> (\<lambda>l. G os' (guid l)) = (if x = Inr () then (\<lambda>l. G os (guid l))(l := v) else (\<lambda>l. G os (guid l)))"
    if "ih_set_dns W l v os = (x, os')"
  proof (cases "\<exists>g. a = Inr () \<and> b = Inr g")
    case False
    then show ?thesis using that a b ua u by (auto simp: ih_set_dns_def unchanged_def split: sum.splits)
  next
    case True
    then have ab: "a = Inr ()" "b = Inr (guid l)" using ub by auto
    obtain st os3 where s: "wa_set_dns W (guid l) v os2 = (st, os3)" by fastforce
    have res: "x = win32_result (wa_codes W) st" "os' = os3" using that a b ab s by (auto simp: ih_set_dns_def)
    have "guid l' = guid l \<longleftrightarrow> l' = l" for l' using dns_values_law(3) [OF laws] by (simp add: inj_eq)
    then show ?thesis using dns_values_law(2) [OF laws s] u res
      by (auto simp: unchanged_def fun_eq_iff win32_result_def)
  qed
qed

lemma ip_helper_contract:
  assumes laws: "win_laws T guid G S W"
  shows "network_operations (ip_helper_ops W) T (route_row W) row_key (\<lambda>os l. G os (guid l)) S"
proof (unfold_locales, goal_cases)
  case (1 r r')
  then show ?case using row_key_route_key by blast
next
  case (2 a os x os')
  then show ?case using reads_unchanged(1) [OF laws] by (auto simp: ih_interface_luid_def unchanged_def split: prod.splits)
next
  case (3 ip os x os')
  then show ?case using reads_unchanged(4) [OF laws] route_address_ok
    by (auto simp: ih_best_route_def unchanged_def split: prod.splits)
next
  case (4 os x os')
  obtain st tab os1 where tab: "wa_forward_table W os = (st, tab, os1)" by (rule prod_cases3)
  note u = reads_unchanged(5) [OF laws tab]
  obtain y os2 where y: "physical_rows W (the tab) [] os1 = (y, os2)" by fastforce
  from physical_rows_law [OF laws y] show ?case using 4 tab u y
    by (auto simp: ih_physical_routes_def unchanged_def split: sum.splits option.splits)
next
  case (5 r os x os')
  obtain st os1 where c: "wa_create_entry W (route_row W r) os = (st, os1)" by fastforce
  then show ?case using 5 create_entry_law [OF laws c] win_lawsD(1) [OF laws]
    by (auto simp: ih_create_route_def unchanged_def win32_result_def split: if_splits)
next
  case (6 r os x os')
  obtain st os1 where c: "wa_delete_entry W (route_row W r) os = (st, os1)" by fastforce
  have "{y \<in> T os. row_key y \<noteq> row_key (route_row W r)} = T os" if "row_key (route_row W r) \<notin> row_key ` T os"
    using that by (auto simp: image_iff)
  then show ?case using 6 c delete_entry_law [OF laws c] win_lawsD(2) [OF laws]
    by (auto simp: ih_delete_route_def unchanged_def win32_result_def split: if_splits)
next
  case (7 os x os')
  obtain st tab os1 where tab: "wa_interface_table W os = (st, tab, os1)" by (rule prod_cases3)
  note u = reads_unchanged(6) [OF laws tab]
  obtain ts os2 where ts: "wsl_targets W (the tab) os1 = (ts, os2)" by fastforce
  from wsl_targets_law [OF laws ts] show ?case using 7 tab u ts
    by (auto simp: ih_wsl_hns_interfaces_def unchanged_def split: sum.splits option.splits)
next
  case (8 l os x os')
  obtain st row os1 where g: "wa_get_interface W AfInet l os = (st, row, os1)" by (rule prod_cases3)
  then show ?case using 8 reads_unchanged(7) [OF laws g] win_lawsD(6) [OF laws, rule_format, OF g]
    by (auto simp: ih_interface_settings_def ip_interface_row_def unchanged_def)
next
  case (9 p l os x os')
  then have "ih_apply_interface_patch W l p os = (x, os')" by simp
  from ih_patch_law [OF laws 9(1) this] show ?case by simp
next
  case (10 l os x os')
  then show ?case using ih_dns_law(1) [OF laws] by (fastforce simp: unchanged_def)
next
  case (11 l v os x os')
  then show ?case using ih_dns_law(2) [OF laws] by simp
qed

text \<open>The interface of the system, which gives the one of the trait.\<close>

locale windows_api =
  fixes T :: "'o \<Rightarrow> forward_row set" and guid :: "luid \<Rightarrow> nat" and G :: "'o \<Rightarrow> nat \<Rightarrow> string option"
    and S :: "'o \<Rightarrow> luid \<Rightarrow> interface_settings option" and W :: "'o win_api"
  assumes laws: "win_laws T guid G S W"

sublocale windows_api \<subseteq> trait: network_operations "ip_helper_ops W" T "route_row W" row_key "\<lambda>os l. G os (guid l)" S
  by (rule ip_helper_contract [OF laws])

section \<open>A machine\<close>

text \<open>
  A machine on which the laws hold: a list of rows of bounded length, and interfaces 5, the TUN adapter,
  and 6, a virtual switch.
\<close>

record win_os =
  wo_rows :: "forward_row list"
  wo_dns :: "nat \<Rightarrow> string option"
  wo_settings :: "luid \<Rightarrow> interface_settings option"
  wo_limit :: nat

definition demo_row :: forward_row where
  "demo_row = \<lparr>fr_luid = 7, fr_prefix = SockIn 0, fr_prefix_len = 0, fr_next_hop = SockIn 9, fr_metric = 10,
     fr_protocol = 0, fr_origin = 0, fr_valid_lifetime = 1, fr_loopback = False\<rparr>"

definition demo_interface :: "interface_settings \<Rightarrow> interface_row" where
  "demo_interface s = \<lparr>ifr_connected = True, ifr_disable_default_routes = False, ifr_metric = 25,
     ifr_forwarding_enabled = st_forwarding s, ifr_weak_host_send = st_weak_host_send s,
     ifr_weak_host_receive = st_weak_host_receive s\<rparr>"

definition demo_create :: "forward_row \<Rightarrow> win_os \<Rightarrow> nat \<times> win_os" where
  "demo_create row os = (if row_key row \<in> row_key ` set (wo_rows os) then (4, os)
     else if wo_limit os \<le> length (wo_rows os) then (5, os) else (0, os\<lparr>wo_rows := row # wo_rows os\<rparr>))"

definition demo_delete :: "forward_row \<Rightarrow> win_os \<Rightarrow> nat \<times> win_os" where
  "demo_delete row os = (if row_key row \<notin> row_key ` set (wo_rows os) then (3, os)
     else (0, os\<lparr>wo_rows := filter (\<lambda>y. row_key y \<noteq> row_key row) (wo_rows os)\<rparr>))"

definition demo_settings :: interface_settings where
  "demo_settings = \<lparr>st_forwarding = False, st_weak_host_send = False, st_weak_host_receive = True\<rparr>"

definition demo_get_interface :: "address_family \<Rightarrow> luid \<Rightarrow> win_os \<Rightarrow> nat \<times> interface_row \<times> win_os" where
  "demo_get_interface f l os = (case wo_settings os l of
     None \<Rightarrow> (3, demo_interface demo_settings, os) | Some s \<Rightarrow> (0, demo_interface s, os))"

definition demo_win :: "win_os win_api" where
  "demo_win = \<lparr>wa_codes = \<lparr>no_error = 0, error_file_not_found = 2, error_not_found = 3,
       error_object_already_exists = 4\<rparr>,
     wa_initial_row = demo_row, wa_proto_netmgmt = 3, wa_origin_manual = 1,
     wa_alias_to_luid = (\<lambda>a os. (0, 5, os)),
     wa_luid_to_alias = (\<lambda>l os. (0, if l = 6 then ''vEthernet (WSL)'' else ''tun'', os)),
     wa_luid_to_guid = (\<lambda>l os. (0, unat l, os)), wa_best_route = (\<lambda>a os. (0, demo_row, os)),
     wa_forward_table = (\<lambda>os. (0, Some (wo_rows os), os)), wa_interface_table = (\<lambda>os. (0, Some [5, 6], os)),
     wa_get_interface = demo_get_interface,
     wa_set_interface = (\<lambda>l row os. (0, os\<lparr>wo_settings := (wo_settings os)(l \<mapsto> row_settings row)\<rparr>)),
     wa_create_entry = demo_create, wa_delete_entry = demo_delete,
     wa_load_library = (\<lambda>os. (0, True, os)), wa_get_dns = (\<lambda>g os. (0, wo_dns os g, os)),
     wa_set_dns = (\<lambda>g v os. (0, os\<lparr>wo_dns := (wo_dns os)(g := v)\<rparr>))\<rparr>"

definition demo_os :: "nat \<Rightarrow> win_os" where
  "demo_os limit = \<lparr>wo_rows = [demo_row], wo_dns = (\<lambda>g. Some ''9.9.9.9''),
     wo_settings = (\<lambda>l. if l = 7 \<or> l = 5 \<or> l = 6 then Some demo_settings else None), wo_limit = limit\<rparr>"

definition demo_rows :: "win_os \<Rightarrow> forward_row set" where
  "demo_rows os = set (wo_rows os)"

lemma demo_interface_settings [simp]: "row_settings (demo_interface s) = s"
  by (simp add: row_settings_def demo_interface_def)

lemma demo_win_laws: "win_laws demo_rows unat wo_dns wo_settings demo_win"
proof -
  have "inj (unat :: luid \<Rightarrow> nat)" by (simp add: inj_def word_unat_eq_iff)
  then show ?thesis
    by (auto simp: win_laws_unfold reads_only_def keeps_def unchanged_def demo_win_def demo_rows_def missing_def
        demo_create_def demo_delete_def demo_get_interface_def split: option.splits)
qed

interpretation demo: windows_api demo_rows unat wo_dns wo_settings demo_win
  by unfold_locales (rule demo_win_laws)

definition demo_cidr :: "(ip_addr \<times> nat) cidr_lib" where
  "demo_cidr = \<lparr>ci_is_ipv4 = (\<lambda>c. is_ipv4 (fst c)), ci_network_length = snd, ci_first_address = fst,
     ci_contains = (\<lambda>c ip. fst c = ip), ci_new_host = (\<lambda>ip. (ip, 32)), ci_is_private = (\<lambda>ip. False)\<rparr>"

definition demo_args :: "(ip_addr \<times> nat) tproxy_args" where
  "demo_args = \<lparr>ta_tun_name = ''tun'', ta_bypass_ips = [(V4 0x0A000000, 8)], ta_proxy_addr = SocketAddr (V4 77) 1080,
     ta_ipv4_default_route = True, ta_tun_gateway = V4 1\<rparr>"

definition demo_install :: "nat \<Rightarrow> (install_record \<times> interface_target option) net_result \<times> win_os" where
  "demo_install limit = install_config demo_cidr (ip_helper_ops demo_win) demo_args None (demo_os limit)"

definition demo_session :: "install_record \<times> win_os" where
  "demo_session = (case demo_install 20 of (r, os1) \<Rightarrow> config_run (ip_helper_ops demo_win) (snd (projr r))
     [PrepareBypasses [V4 88] False, CommitBypasses, IntervalElapsed] (fst (projr r)) os1)"

definition demo_removed :: "unit net_result \<times> install_record \<times> win_os" where
  "demo_removed = remove_config (ip_helper_ops demo_win) (fst demo_session) (snd demo_session)"

section \<open>Sessions\<close>

text \<open>
  C3. A session gives the machine back.  After an installation, any sequence of events of the monitor
  (upstream bypasses prepared, committed or rolled back, physical routes refreshed, interfaces
  reconciled), with any call failing at any point, and the removal of the guard, the routing table holds
  exactly the rows it held before and those the record still owns; and when the record says that the
  session is removed, which a successful removal does, the table, the DNS servers and the settings
  of every interface are what they were before the installation.
\<close>

theorem session_restores_machine:
  assumes "win_laws T guid G S W"
    and "install_config L (ip_helper_ops W) args spawn os = (Inr (rec, target), os1)"
    and "config_run (ip_helper_ops W) target evs rec os1 = (rec2, os2)"
    and "remove_config (ip_helper_ops W) rec2 os2 = (x, rec3, os3)"
  shows "T os3 = T os \<union> route_row W ` set (ir_owned_routes rec3) \<and> (x = Inr () \<longrightarrow> ir_removed rec3)
    \<and> (ir_removed rec3 \<longrightarrow> T os3 = T os \<and> (\<forall>l. G os3 (guid l) = G os (guid l)) \<and> S os3 = S os)"
proof -
  note api = ip_helper_contract [OF assms(1)]
  note installed = network_operations.install_config_inv [OF api assms(2), simplified]
  note running = network_operations.config_run_inv [OF api assms(3) installed]
  show ?thesis using network_operations.remove_restores [OF api assms(4) running] by (auto simp: fun_eq_iff)
qed

theorem session_restores_machine_witness:
  "\<not> isl (fst (demo_install 20)) \<and> ir_owned_routes (fst demo_session) \<noteq> [] \<and> ir_removed (fst (snd demo_removed))
    \<and> demo_rows (snd (snd demo_removed)) = demo_rows (demo_os 20)
    \<and> wo_settings (snd (snd demo_removed)) = wo_settings (demo_os 20)"
proof -
  have ok: "\<not> isl (fst (demo_install 20))" by code_simp
  then obtain rec target os1 where i: "demo_install 20 = (Inr (rec, target), os1)"
    by (cases "demo_install 20"; cases "fst (demo_install 20)") auto
  obtain rec2 os2 where s: "demo_session = (rec2, os2)" by fastforce
  obtain x rec3 os3 where r: "demo_removed = (x, rec3, os3)" by (rule prod_cases3)
  have removed: "ir_removed (fst (snd demo_removed))" by code_simp
  then have "ir_removed rec3" by (simp add: r)
  moreover have "config_run (ip_helper_ops demo_win) target [PrepareBypasses [V4 88] False, CommitBypasses, IntervalElapsed]
      rec os1 = (rec2, os2)" using s by (simp add: demo_session_def i)
  note session_restores_machine [OF demo_win_laws i [unfolded demo_install_def] this
      r [unfolded demo_removed_def s fst_conv snd_conv]]
  ultimately have "demo_rows os3 = demo_rows (demo_os 20)" "wo_settings os3 = wo_settings (demo_os 20)" by blast+
  moreover have "ir_owned_routes (fst demo_session) \<noteq> []" by code_simp
  ultimately show ?thesis using ok removed by (simp add: r)
qed

text \<open>
  C4. A failed installation leaves nothing behind.  When the installation fails, at whichever call, the
  table, the DNS servers and the interface settings are what they were, unless the error reports that
  two attempts at rolling back were incomplete.
\<close>

theorem failed_install_restores:
  assumes "win_laws T guid G S W" "install_config L (ip_helper_ops W) args spawn os = (Inl e, os1)"
    and "\<forall>a b c. e \<noteq> RollbackIncomplete a b c"
  shows "T os1 = T os \<and> (\<forall>l. G os1 (guid l) = G os (guid l)) \<and> S os1 = S os"
  using network_operations.install_config_inv [OF ip_helper_contract [OF assms(1)] assms(2)] assms(3)
  by (auto simp: fun_eq_iff)

theorem failed_install_restores_witness:
  "isl (fst (demo_install 3)) \<and> demo_rows (snd (demo_install 3)) = demo_rows (demo_os 3)
    \<and> wo_settings (snd (demo_install 3)) = wo_settings (demo_os 3)"
proof -
  have failed: "case fst (demo_install 3) of Inl (InContext _ _) \<Rightarrow> True | _ \<Rightarrow> False" by code_simp
  then obtain m e os1 where i: "demo_install 3 = (Inl (InContext m e), os1)"
    by (cases "demo_install 3") (auto split: sum.splits net_error.splits)
  then show ?thesis using failed_install_restores [OF demo_win_laws i [unfolded demo_install_def]] by simp
qed

end
