(* ===== verification/Direct.thy ===== *)
theory Direct
  imports Dns
begin

text \<open>
  Sockets and DNS queries that leave through a physical interface, \<^verbatim>\<open>src/direct.rs\<close>.  A socket is
  set up by a program of system calls; what the system answers to a call after the calls before it
  is an argument.  A DNS query is tried at each resolver over UDP and then over TCP; the outcomes of
  the network are the argument \<^verbatim>\<open>N\<close> of type \<^verbatim>\<open>dns_net\<close>, and the message codec is the argument \<^verbatim>\<open>H\<close> as in
  the theory of DNS messages.
\<close>

datatype platform = Linux | Macos | Windows

record bind_interface =
  bi_ipv4_index :: u32
  bi_ipv6_index :: u32
  bi_ipv4_addr :: "u32 option"
  bi_dns_servers :: "ip_addr list"
  bi_name :: string

section \<open>Sockets bound to the interface\<close>

text \<open>
  The calls that set up a socket.  The flags of a new socket are its family and whether it is a
  stream; those of the device options are the family they act on.
\<close>

datatype sock_op =
    SockNew bool bool | BindToDevice string | BoundIf bool u32 | UnicastIf bool u32
  | MulticastIfV4 u32 | MulticastIfV6 u32 | OnlyV6 | SetNonblocking
  | SockBind socket_addr | SockConnect socket_addr | IntoTokio | AwaitWritable | TakeError

type_synonym sock_sys = "sock_op list \<Rightarrow> sock_op \<Rightarrow> unit io_result"

text \<open>
  A program is a list of calls, or errors found before the call is made.  The run gives the outcome
  and the calls made; \<^verbatim>\<open>pending\<close> tells which errors of a connect are no failure.
\<close>

fun sock_run ::
  "(io_error \<Rightarrow> bool) \<Rightarrow> sock_sys \<Rightarrow> sock_op list \<Rightarrow> sock_op io_result list \<Rightarrow> unit io_result \<times> sock_op list" where
  "sock_run pending sys calls [] = (Inr (), calls)"
| "sock_run pending sys calls (Inl e # prog) = (Inl e, calls)"
| "sock_run pending sys calls (Inr c # prog) = (case sys calls c of
     Inr _ \<Rightarrow> sock_run pending sys (calls @ [c]) prog
   | Inl e \<Rightarrow> (case c of
         SockConnect _ \<Rightarrow> if pending e then sock_run pending sys (calls @ [c]) prog else (Inl e, calls @ [c])
       | _ \<Rightarrow> (Inl e, calls @ [c])))"

definition connect_in_progress :: "platform \<Rightarrow> (io_error \<Rightarrow> bool) \<Rightarrow> io_error \<Rightarrow> bool" where
  "connect_in_progress P einprogress err =
     (io_kind err = WouldBlock \<or> (P \<noteq> Windows \<and> einprogress err))"

definition swap_bytes :: "u32 \<Rightarrow> u32" where
  "swap_bytes w = from_be_bytes (rev (to_be_bytes w))"

definition apply_device_bind :: "platform \<Rightarrow> socket_addr \<Rightarrow> bind_interface \<Rightarrow> sock_op io_result" where
  "apply_device_bind P peer iface =
     (if P = Linux then Inr (BindToDevice (bi_name iface))
      else if is_ipv4 (sa_ip peer) then
        if bi_ipv4_index iface = 0 then Inl (IoError AddrNotAvailable ''interface has no IPv4 index'')
        else Inr (if P = Macos then BoundIf True (bi_ipv4_index iface)
                  else UnicastIf True (swap_bytes (bi_ipv4_index iface)))
      else
        if bi_ipv6_index iface = 0 then Inl (IoError AddrNotAvailable ''interface has no IPv6 index'')
        else Inr (if P = Macos then BoundIf False (bi_ipv6_index iface)
                  else UnicastIf False (bi_ipv6_index iface)))"

definition unspecified_addr :: "bool \<Rightarrow> socket_addr" where
  "unspecified_addr ipv4 = SocketAddr (if ipv4 then V4 0 else V6 0) 0"

definition connect_tcp_program :: "platform \<Rightarrow> socket_addr \<Rightarrow> bind_interface \<Rightarrow> sock_op io_result list" where
  "connect_tcp_program P peer iface =
     [Inr (SockNew (is_ipv4 (sa_ip peer)) True), apply_device_bind P peer iface, Inr SetNonblocking,
      Inr (SockConnect peer), Inr IntoTokio, Inr AwaitWritable, Inr TakeError]"

definition connect_tcp_bound ::
  "platform \<Rightarrow> (io_error \<Rightarrow> bool) \<Rightarrow> sock_sys \<Rightarrow> socket_addr \<Rightarrow> bind_interface \<Rightarrow> unit io_result \<times> sock_op list" where
  "connect_tcp_bound P einprogress sys peer iface =
     sock_run (connect_in_progress P einprogress) sys [] (connect_tcp_program P peer iface)"

definition multicast_program :: "ip_addr \<Rightarrow> bind_interface \<Rightarrow> sock_op io_result list" where
  "multicast_program ip iface =
     (if \<not> is_multicast ip then []
      else if is_ipv4 ip then (case bi_ipv4_addr iface of
          None \<Rightarrow> [Inl (IoError AddrNotAvailable ''interface has no IPv4 address for multicast egress'')]
        | Some a \<Rightarrow> [Inr (MulticastIfV4 a)])
      else if bi_ipv6_index iface = 0
        then [Inl (IoError AddrNotAvailable ''interface has no IPv6 index for multicast egress'')]
      else [Inr (MulticastIfV6 (bi_ipv6_index iface))])"

definition bind_udp_program :: "platform \<Rightarrow> socket_addr \<Rightarrow> bind_interface \<Rightarrow> sock_op io_result list" where
  "bind_udp_program P peer iface =
     [Inr (SockNew (is_ipv4 (sa_ip peer)) False), apply_device_bind P peer iface]
     @ multicast_program (sa_ip peer) iface
     @ [Inr (SockBind (unspecified_addr (is_ipv4 (sa_ip peer)))), Inr (SockConnect peer),
        Inr SetNonblocking, Inr IntoTokio]"

definition bind_udp_bound ::
  "platform \<Rightarrow> sock_sys \<Rightarrow> socket_addr \<Rightarrow> bind_interface \<Rightarrow> unit io_result \<times> sock_op list" where
  "bind_udp_bound P sys peer iface = sock_run (\<lambda>_. False) sys [] (bind_udp_program P peer iface)"

definition bind_udp_unconnected ::
  "platform \<Rightarrow> sock_sys \<Rightarrow> bool \<Rightarrow> bind_interface \<Rightarrow> unit io_result \<times> sock_op list" where
  "bind_udp_unconnected P sys ipv6 iface =
     (let address = unspecified_addr (\<not> ipv6) in
      sock_run (\<lambda>_. False) sys []
        ([Inr (SockNew (\<not> ipv6) False)]
         @ (if ipv6 then [Inr OnlyV6, Inr (MulticastIfV6 (bi_ipv6_index iface))]
            else (case bi_ipv4_addr iface of Some a \<Rightarrow> [Inr (MulticastIfV4 a)] | None \<Rightarrow> []))
         @ [apply_device_bind P address iface, Inr (SockBind address), Inr SetNonblocking, Inr IntoTokio]))"

section \<open>Resolvers\<close>

definition PREFERRED_DNS_SERVERS :: "ip_addr list" where
  "PREFERRED_DNS_SERVERS = [V4 0xDF050505, V4 0x771D1D1D, V4 0xDF060606]"

definition is_usable_dns_server :: "ip_addr \<Rightarrow> bool" where
  "is_usable_dns_server address =
     (if is_unspecified address \<or> is_loopback address \<or> is_multicast address then False
      else case address of
        V4 a \<Rightarrow> a \<noteq> 0xFFFFFFFF
      | V6 a \<Rightarrow> drop_bit 118 a \<noteq> 0x3FA)"

fun push_new :: "'a list \<Rightarrow> 'a list \<Rightarrow> 'a list" where
  "push_new seen [] = seen"
| "push_new seen (x # xs) = (if x \<in> set seen then push_new seen xs else push_new (seen @ [x]) xs)"

definition direct_dns_servers :: "ip_addr \<Rightarrow> bind_interface \<Rightarrow> ip_addr list" where
  "direct_dns_servers configured_dns iface =
     push_new [] (filter is_usable_dns_server (PREFERRED_DNS_SERVERS @ bi_dns_servers iface @ [configured_dns]))"

section \<open>Queries\<close>

definition DNS_UDP_ATTEMPTS :: nat where
  "DNS_UDP_ATTEMPTS = 2"

text \<open>
  The network, for the request, the resolver and the number of the attempt (the TCP attempt comes
  after those over UDP): the system calls of its socket, whether the attempt runs out of time, what
  writing octets gives and what is received (a datagram, or the octets of the stream to its end).
\<close>

record dns_net =
  dn_platform :: platform
  dn_einprogress :: "io_error \<Rightarrow> bool"
  dn_sys :: "bytes \<Rightarrow> socket_addr \<Rightarrow> nat \<Rightarrow> sock_sys"
  dn_late :: "bytes \<Rightarrow> socket_addr \<Rightarrow> nat \<Rightarrow> bool"
  dn_send :: "bytes \<Rightarrow> socket_addr \<Rightarrow> nat \<Rightarrow> bytes \<Rightarrow> unit io_result"
  dn_recv :: "bytes \<Rightarrow> socket_addr \<Rightarrow> nat \<Rightarrow> bytes io_result"

definition io_as :: "io_error_kind \<Rightarrow> string + 'a \<Rightarrow> 'a io_result" where
  "io_as kind r = (case r of Inl e \<Rightarrow> Inl (IoError kind e) | Inr x \<Rightarrow> Inr x)"

definition parse_dns_response ::
  "'n hickory \<Rightarrow> bytes \<Rightarrow> u16 \<Rightarrow> 'n query \<Rightarrow> 'n message io_result" where
  "parse_dns_response H response request_id expected =
     rbind (io_as OtherKind (from_vec H response)) (\<lambda>m.
     rbind (io_as InvalidData (validate_dns_response H m request_id expected)) (\<lambda>_. Inr m))"

definition query_dns_udp ::
  "'n hickory \<Rightarrow> dns_net \<Rightarrow> bytes \<Rightarrow> u16 \<Rightarrow> 'n query \<Rightarrow> socket_addr \<Rightarrow> bind_interface \<Rightarrow> nat \<Rightarrow> 'n message io_result" where
  "query_dns_udp H N request request_id expected server iface k =
     rbind (fst (bind_udp_bound (dn_platform N) (dn_sys N request server k) server iface)) (\<lambda>_.
     rbind (dn_send N request server k request) (\<lambda>_.
     rbind (dn_recv N request server k) (\<lambda>data.
       parse_dns_response H (take 4096 data) request_id expected)))"

definition query_dns_tcp ::
  "'n hickory \<Rightarrow> dns_net \<Rightarrow> bytes \<Rightarrow> u16 \<Rightarrow> 'n query \<Rightarrow> socket_addr \<Rightarrow> bind_interface \<Rightarrow> nat \<Rightarrow> 'n message io_result" where
  "query_dns_tcp H N request request_id expected server iface k =
     (if length request \<ge> 2 ^ 16 then Inl (IoError InvalidInput ''DNS request is too large'')
      else
        rbind (fst (connect_tcp_bound (dn_platform N) (dn_einprogress N) (dn_sys N request server k) server iface)) (\<lambda>_.
        rbind (dn_send N request server k (to_be_bytes (of_nat (length request) :: u16))) (\<lambda>_.
        rbind (dn_send N request server k request) (\<lambda>_.
        rbind (dn_recv N request server k) (\<lambda>stream.
        rbind (read_exact 2 stream) (\<lambda>(prefix, rest).
          if nat_of_be prefix = 0 then Inl (IoError InvalidData ''invalid TCP DNS response length'')
          else rbind (read_exact (nat_of_be prefix) rest) (\<lambda>(response, _).
            parse_dns_response H response request_id expected)))))))"

definition answered_code :: "'n message \<Rightarrow> bool" where
  "answered_code m = (response_code m = NoError \<or> response_code m = NXDomain)"

datatype 'n udp_verdict = UdpUse "'n message" | UdpSkipServer io_error | UdpTryTcp

fun udp_attempts ::
  "'n hickory \<Rightarrow> dns_net \<Rightarrow> bytes \<Rightarrow> u16 \<Rightarrow> 'n query \<Rightarrow> socket_addr \<Rightarrow> bind_interface \<Rightarrow> nat list \<Rightarrow> 'n udp_verdict" where
  "udp_attempts H N request request_id expected server iface [] = UdpTryTcp"
| "udp_attempts H N request request_id expected server iface (k # ks) =
     (if dn_late N request server k then udp_attempts H N request request_id expected server iface ks
      else case query_dns_udp H N request request_id expected server iface k of
        Inl e \<Rightarrow> udp_attempts H N request request_id expected server iface ks
      | Inr m \<Rightarrow>
          if truncation m then UdpTryTcp
          else if answered_code m then UdpUse m
          else UdpSkipServer (IoError OtherKind ''UDP DNS query failed with''))"

definition tcp_attempt ::
  "'n hickory \<Rightarrow> dns_net \<Rightarrow> bytes \<Rightarrow> u16 \<Rightarrow> 'n query \<Rightarrow> socket_addr \<Rightarrow> bind_interface \<Rightarrow> 'n message io_result" where
  "tcp_attempt H N request request_id expected server iface =
     (if dn_late N request server DNS_UDP_ATTEMPTS then Inl (IoError TimedOut ''TCP DNS query timed out'')
      else rbind (query_dns_tcp H N request request_id expected server iface DNS_UDP_ATTEMPTS) (\<lambda>m.
        if answered_code m then Inr m else Inl (IoError OtherKind ''TCP DNS query failed with'')))"

fun query_dns_servers ::
  "'n hickory \<Rightarrow> dns_net \<Rightarrow> bytes \<Rightarrow> u16 \<Rightarrow> 'n query \<Rightarrow> bind_interface \<Rightarrow> socket_addr list \<Rightarrow> io_error option
     \<Rightarrow> 'n message io_result" where
  "query_dns_servers H N request request_id expected iface [] last_error =
     Inl (IoError TimedOut (''direct DNS query through physical resolver(s) failed: ''
       @ (case last_error of None \<Rightarrow> ''no DNS resolver is available'' | Some e \<Rightarrow> io_text e)))"
| "query_dns_servers H N request request_id expected iface (server # servers) last_error =
     (case udp_attempts H N request request_id expected server iface [0..<DNS_UDP_ATTEMPTS] of
        UdpUse m \<Rightarrow> Inr m
      | UdpSkipServer e \<Rightarrow> query_dns_servers H N request request_id expected iface servers (Some e)
      | UdpTryTcp \<Rightarrow> (case tcp_attempt H N request request_id expected server iface of
            Inr m \<Rightarrow> Inr m
          | Inl e \<Rightarrow> query_dns_servers H N request request_id expected iface servers (Some e)))"

definition query_dns_bound ::
  "'n hickory \<Rightarrow> dns_net \<Rightarrow> bytes \<Rightarrow> u16 \<Rightarrow> 'n query \<Rightarrow> ip_addr \<Rightarrow> bind_interface \<Rightarrow> 'n message io_result" where
  "query_dns_bound H N request request_id expected configured_dns iface =
     query_dns_servers H N request request_id expected iface
       (map (\<lambda>ip. SocketAddr ip 53) (direct_dns_servers configured_dns iface)) None"

definition query_bound ::
  "'n hickory \<Rightarrow> dns_net \<Rightarrow> bytes \<Rightarrow> ip_addr \<Rightarrow> bind_interface \<Rightarrow> bytes io_result" where
  "query_bound H N request configured_dns iface =
     rbind (io_as OtherKind (from_vec H request)) (\<lambda>message.
     rbind (io_as OtherKind (validate_dns_query message)) (\<lambda>query.
     rbind (query_dns_bound H N request (msg_id message) query configured_dns iface) (\<lambda>response.
       case to_vec H response of Inl e \<Rightarrow> Inl (IoError OtherKind []) | Inr bs \<Rightarrow> Inr bs)))"

text \<open>
  \<^verbatim>\<open>resolve_domain_bound\<close>: \<^verbatim>\<open>ids\<close> gives the identifiers that the shared counter hands out, \<^verbatim>\<open>name_from_str\<close>
  is the parser of names and \<^verbatim>\<open>new_message\<close> the constructor of a message of the codec.
\<close>

definition address_query :: "bool \<Rightarrow> 'n \<Rightarrow> 'n query" where
  "address_query want_ipv6 name =
     \<lparr>q_name = name, q_type = (if want_ipv6 then TypeAAAA else TypeA), q_class = CLASS_IN\<rparr>"

definition resolve_step ::
  "'n hickory \<Rightarrow> dns_net \<Rightarrow> (string \<Rightarrow> string + 'n) \<Rightarrow> (u16 \<Rightarrow> 'n message) \<Rightarrow> u16 \<Rightarrow> ip_addr \<Rightarrow> bool
     \<Rightarrow> bind_interface \<Rightarrow> string \<Rightarrow> address_lookup io_result" where
  "resolve_step H N name_from_str new_message request_id dns_server want_ipv6 iface current =
     (case name_from_str current of
        Inl e \<Rightarrow> Inl (IoError InvalidInput e)
      | Inr name \<Rightarrow>
          (let q = address_query want_ipv6 name; m = new_message request_id in
           case to_vec H (m\<lparr>recursion_desired := True, queries := queries m @ [q]\<rparr>) of
             Inl e \<Rightarrow> Inl (IoError OtherKind [])
           | Inr request \<Rightarrow>
               rbind (query_dns_bound H N request request_id q dns_server iface) (\<lambda>response.
                 if response_code response \<noteq> NoError then Inl (IoError OtherKind ''direct DNS query failed with'')
                 else io_as NotFound (extract_address_or_cname H response q))))"

fun resolve_loop ::
  "'n hickory \<Rightarrow> dns_net \<Rightarrow> (string \<Rightarrow> string + 'n) \<Rightarrow> (u16 \<Rightarrow> 'n message) \<Rightarrow> (nat \<Rightarrow> u16) \<Rightarrow> u16 \<Rightarrow> ip_addr \<Rightarrow> bool
     \<Rightarrow> bind_interface \<Rightarrow> nat \<Rightarrow> string \<Rightarrow> socket_addr io_result" where
  "resolve_loop H N name_from_str new_message ids port dns_server want_ipv6 iface 0 current =
     Inl (IoError InvalidData ''direct DNS resolution exceeded the CNAME limit'')"
| "resolve_loop H N name_from_str new_message ids port dns_server want_ipv6 iface (Suc n) current =
     (case resolve_step H N name_from_str new_message (ids n) dns_server want_ipv6 iface current of
        Inl e \<Rightarrow> Inl e
      | Inr (Address ip) \<Rightarrow> Inr (SocketAddr ip port)
      | Inr (Cname name) \<Rightarrow> resolve_loop H N name_from_str new_message ids port dns_server want_ipv6 iface n name)"

definition resolve_domain_bound ::
  "'n hickory \<Rightarrow> dns_net \<Rightarrow> (string \<Rightarrow> string + 'n) \<Rightarrow> (u16 \<Rightarrow> 'n message) \<Rightarrow> (nat \<Rightarrow> u16) \<Rightarrow> string \<Rightarrow> u16 \<Rightarrow> ip_addr
     \<Rightarrow> bool \<Rightarrow> bind_interface \<Rightarrow> socket_addr io_result" where
  "resolve_domain_bound H N name_from_str new_message ids domain port dns_server want_ipv6 iface =
     resolve_loop H N name_from_str new_message ids port dns_server want_ipv6 iface MAX_CNAME_DEPTH domain"

section \<open>Sockets are bound before they are used\<close>

lemma sock_run_extends: "sock_run pending sys calls prog = (r, calls') \<Longrightarrow> \<exists>made. calls' = calls @ made"
proof (induction pending sys calls prog rule: sock_run.induct)
  case (3 pending sys calls c prog)
  then show ?case by (auto split: sum.splits sock_op.splits if_splits)
qed auto

text \<open>A call that a program makes after its device option is only made once the option was set.\<close>

lemma sock_run_after_option:
  assumes "sock_run pending sys calls (prog1 @ dev # prog2) = (r, calls')"
    and "op \<in> set calls'" "op \<notin> set calls" "Inr op \<notin> set prog1" "dev \<noteq> Inr op" "\<forall>p. dev \<noteq> Inr (SockConnect p)"
  shows "\<exists>xs bind ys. calls' = xs @ bind # ys \<and> op \<in> set ys \<and> dev = Inr bind \<and> sys xs bind = Inr ()"
  using assms
proof (induction prog1 arbitrary: calls)
  case Nil
  show ?case
  proof (cases dev)
    case (Inr b)
    show ?thesis
    proof (cases "sys calls b")
      case (Inl e)
      then have "calls' = calls @ [b]" using Nil Inr by (auto split: sock_op.splits)
      then show ?thesis using Nil Inr by auto
    next
      case (Inr u)
      then have "sock_run pending sys (calls @ [b]) prog2 = (r, calls')" using Nil \<open>dev = Inr b\<close> by simp
      from sock_run_extends [OF this] obtain made where made: "calls' = calls @ b # made" by auto
      then have "op \<in> set made" using Nil \<open>dev = Inr b\<close> by auto
      then show ?thesis using made \<open>dev = Inr b\<close> Inr by (intro exI [of _ calls] exI [of _ b] exI [of _ made]) simp
    qed
  qed (use Nil in auto)
next
  case (Cons x prog1)
  show ?case
  proof (cases x)
    case (Inl e)
    then show ?thesis using Cons.prems by simp
  next
    case (Inr c)
    have new: "op \<notin> set (calls @ [c])" using Cons.prems Inr by auto
    have "sock_run pending sys (calls @ [c]) (prog1 @ dev # prog2) = (r, calls') \<or> calls' = calls @ [c]"
      using Cons.prems(1) Inr by (auto split: sum.splits sock_op.splits if_splits)
    then show ?thesis
    proof
      assume "sock_run pending sys (calls @ [c]) (prog1 @ dev # prog2) = (r, calls')"
      from Cons.IH [OF this _ new] show ?thesis using Cons.prems by simp
    qed (use new Cons.prems in auto)
  qed
qed

lemma apply_device_bind_option:
  "apply_device_bind P peer iface \<noteq> Inr (SockConnect p)" "apply_device_bind P peer iface \<noteq> Inr (SockBind p)"
  by (auto simp: apply_device_bind_def)

text \<open>
  C20. Every socket of a direct relay is pinned to the physical interface before it can carry
  traffic: whatever the system answers, a TCP or UDP socket is only connected, and the shared UDP
  socket only bound, after the option that selects the interface for its address family was set
  successfully.
\<close>

theorem direct_sockets_pinned:
  assumes "(snd (connect_tcp_bound P einprogress sys peer iface) = calls \<and> use = SockConnect peer)
    \<or> (snd (bind_udp_bound P sys peer iface) = calls \<and> use = SockConnect peer)
    \<or> (snd (bind_udp_unconnected P sys ipv6 iface) = calls \<and> peer = unspecified_addr (\<not> ipv6) \<and> use = SockBind peer)"
    and "use \<in> set calls"
  shows "\<exists>before bind after. calls = before @ bind # after \<and> use \<in> set after
    \<and> apply_device_bind P peer iface = Inr bind \<and> sys before bind = Inr ()"
  using assms(1)
proof (elim disjE conjE)
  assume a: "snd (connect_tcp_bound P einprogress sys peer iface) = calls" "use = SockConnect peer"
  then obtain r where "sock_run (connect_in_progress P einprogress) sys []
      ([Inr (SockNew (is_ipv4 (sa_ip peer)) True)] @ apply_device_bind P peer iface
        # [Inr SetNonblocking, Inr (SockConnect peer), Inr IntoTokio, Inr AwaitWritable, Inr TakeError]) = (r, calls)"
    by (cases "connect_tcp_bound P einprogress sys peer iface") (simp add: connect_tcp_bound_def connect_tcp_program_def)
  from sock_run_after_option [OF this assms(2)] show ?thesis
    using a(2) apply_device_bind_option(1) by simp
next
  assume a: "snd (bind_udp_bound P sys peer iface) = calls" "use = SockConnect peer"
  then obtain r where "sock_run (\<lambda>_. False) sys []
      ([Inr (SockNew (is_ipv4 (sa_ip peer)) False)] @ apply_device_bind P peer iface
        # (multicast_program (sa_ip peer) iface
          @ [Inr (SockBind (unspecified_addr (is_ipv4 (sa_ip peer)))), Inr (SockConnect peer), Inr SetNonblocking, Inr IntoTokio])) = (r, calls)"
    by (cases "bind_udp_bound P sys peer iface") (simp add: bind_udp_bound_def bind_udp_program_def)
  from sock_run_after_option [OF this assms(2)] show ?thesis
    using a(2) apply_device_bind_option(1) by simp
next
  assume a: "snd (bind_udp_unconnected P sys ipv6 iface) = calls" "peer = unspecified_addr (\<not> ipv6)" "use = SockBind peer"
  then obtain r where "sock_run (\<lambda>_. False) sys []
      (([Inr (SockNew (\<not> ipv6) False)]
         @ (if ipv6 then [Inr OnlyV6, Inr (MulticastIfV6 (bi_ipv6_index iface))]
            else (case bi_ipv4_addr iface of Some a \<Rightarrow> [Inr (MulticastIfV4 a)] | None \<Rightarrow> [])))
       @ apply_device_bind P peer iface # [Inr (SockBind peer), Inr SetNonblocking, Inr IntoTokio]) = (r, calls)"
    by (cases "bind_udp_unconnected P sys ipv6 iface") (simp add: bind_udp_unconnected_def Let_def)
  from sock_run_after_option [OF this assms(2)] show ?thesis
    using a(3) apply_device_bind_option by (simp split: option.split)
qed

definition demo_interface :: bind_interface where
  "demo_interface = \<lparr>bi_ipv4_index = 3, bi_ipv6_index = 0, bi_ipv4_addr = Some 5, bi_dns_servers = [V4 9], bi_name = ''eth0''\<rparr>"

theorem direct_sockets_pinned_witness:
  "\<exists>before bind after. snd (connect_tcp_bound Macos (\<lambda>_. False) (\<lambda>_ _. Inr ()) (SocketAddr (V4 7) 8) demo_interface)
       = before @ bind # after \<and> SockConnect (SocketAddr (V4 7) 8) \<in> set after
     \<and> apply_device_bind Macos (SocketAddr (V4 7) 8) demo_interface = Inr bind"
proof -
  have "SockConnect (SocketAddr (V4 7) 8)
      \<in> set (snd (connect_tcp_bound Macos (\<lambda>_. False) (\<lambda>_ _. Inr ()) (SocketAddr (V4 7) 8) demo_interface))"
    by code_simp
  from direct_sockets_pinned [OF _ this] show ?thesis by blast
qed

section \<open>Answers come from a resolver and match the question\<close>

lemma io_as_Inr [simp]: "io_as kind r = Inr x \<longleftrightarrow> r = Inr x"
  by (simp add: io_as_def split: sum.split)

lemma parse_dns_response_Inr [simp]:
  "parse_dns_response H bs i q = Inr m \<longleftrightarrow> from_vec H bs = Inr m \<and> validate_dns_response H m i q = Inr ()"
  by (auto simp: parse_dns_response_def)

lemma query_dns_udp_Inr:
  "query_dns_udp H N request i q server iface k = Inr m \<Longrightarrow>
   \<exists>raw. dn_send N request server k request = Inr () \<and> dn_recv N request server k = Inr raw
     \<and> from_vec H (take 4096 raw) = Inr m \<and> validate_dns_response H m i q = Inr ()"
  by (auto simp: query_dns_udp_def)

lemma read_exact_Inr: "read_exact n s = Inr (a, b) \<longleftrightarrow> s = a @ b \<and> length a = n"
  by (auto simp: read_exact_def)

lemma query_dns_tcp_Inr:
  assumes "query_dns_tcp H N request i q server iface k = Inr m"
  shows "\<exists>prefix response rest. length request < 2 ^ 16
     \<and> dn_send N request server k (to_be_bytes (of_nat (length request) :: u16)) = Inr ()
     \<and> dn_send N request server k request = Inr ()
     \<and> dn_recv N request server k = Inr (prefix @ response @ rest) \<and> length prefix = 2
     \<and> length response = nat_of_be prefix \<and> from_vec H response = Inr m \<and> validate_dns_response H m i q = Inr ()"
  using assms by (auto simp: query_dns_tcp_def read_exact_Inr split: if_splits)

text \<open>
  What a resolver sent in reply to a request that was written to it, as one UDP datagram or as one
  frame over TCP.
\<close>

definition replied :: "'n hickory \<Rightarrow> dns_net \<Rightarrow> bytes \<Rightarrow> socket_addr \<Rightarrow> 'n message \<Rightarrow> bool" where
  "replied H N request server m =
     ((\<exists>k raw. k < DNS_UDP_ATTEMPTS \<and> dn_send N request server k request = Inr ()
           \<and> dn_recv N request server k = Inr raw \<and> from_vec H (take 4096 raw) = Inr m \<and> \<not> truncation m)
      \<or> (\<exists>prefix response rest. length request < 2 ^ 16
           \<and> dn_send N request server DNS_UDP_ATTEMPTS (to_be_bytes (of_nat (length request) :: u16)) = Inr ()
           \<and> dn_send N request server DNS_UDP_ATTEMPTS request = Inr ()
           \<and> dn_recv N request server DNS_UDP_ATTEMPTS = Inr (prefix @ response @ rest)
           \<and> length prefix = 2 \<and> length response = nat_of_be prefix \<and> from_vec H response = Inr m))"

lemma udp_attempts_use:
  "udp_attempts H N request i q server iface ks = UdpUse m \<Longrightarrow> \<forall>k \<in> set ks. k < DNS_UDP_ATTEMPTS \<Longrightarrow>
   replied H N request server m \<and> validate_dns_response H m i q = Inr () \<and> answered_code m"
proof (induction ks)
  case (Cons k ks)
  show ?case
  proof (cases "dn_late N request server k \<or> (\<exists>e. query_dns_udp H N request i q server iface k = Inl e)")
    case True
    then show ?thesis using Cons by (auto split: sum.splits)
  next
    case False
    then obtain m' where m': "query_dns_udp H N request i q server iface k = Inr m'"
      by (cases "query_dns_udp H N request i q server iface k") auto
    then have "m' = m" "\<not> truncation m" "answered_code m"
      using Cons.prems False by (auto split: if_splits)
    then show ?thesis using query_dns_udp_Inr [OF m'] Cons.prems(2) by (auto simp: replied_def)
  qed
qed simp

lemma tcp_attempt_Inr:
  "tcp_attempt H N request i q server iface = Inr m \<Longrightarrow>
   replied H N request server m \<and> validate_dns_response H m i q = Inr () \<and> answered_code m"
  by (auto simp: tcp_attempt_def replied_def split: if_splits dest!: query_dns_tcp_Inr)

lemma query_dns_servers_sound:
  "query_dns_servers H N request i q iface servers last_error = Inr m \<Longrightarrow>
   \<exists>server \<in> set servers. replied H N request server m \<and> validate_dns_response H m i q = Inr () \<and> answered_code m"
proof (induction servers arbitrary: last_error)
  case (Cons server servers)
  show ?case
  proof (cases "udp_attempts H N request i q server iface [0..<DNS_UDP_ATTEMPTS]")
    case (UdpUse m')
    then show ?thesis using Cons.prems udp_attempts_use [OF UdpUse] by auto
  next
    case (UdpSkipServer e)
    then show ?thesis using Cons by auto
  next
    case UdpTryTcp
    then show ?thesis
      using Cons.prems Cons.IH tcp_attempt_Inr
      by (cases "tcp_attempt H N request i q server iface") fastforce+
  qed
qed simp

lemma push_new_set: "set (push_new seen xs) = set seen \<union> set xs"
  by (induction seen xs rule: push_new.induct) auto

lemma push_new_distinct: "distinct seen \<Longrightarrow> distinct (push_new seen xs)"
  by (induction seen xs rule: push_new.induct) auto

text \<open>
  The failover order: the answer is that of the first resolver that gives one, over UDP or, where
  UDP fails or is truncated, over TCP.
\<close>

definition server_answer ::
  "'n hickory \<Rightarrow> dns_net \<Rightarrow> bytes \<Rightarrow> u16 \<Rightarrow> 'n query \<Rightarrow> bind_interface \<Rightarrow> socket_addr \<Rightarrow> 'n message option" where
  "server_answer H N request i q iface server =
     (case udp_attempts H N request i q server iface [0..<DNS_UDP_ATTEMPTS] of
        UdpUse m \<Rightarrow> Some m
      | UdpSkipServer e \<Rightarrow> None
      | UdpTryTcp \<Rightarrow> (case tcp_attempt H N request i q server iface of Inr m \<Rightarrow> Some m | Inl e \<Rightarrow> None))"

lemma query_dns_servers_failover:
  "(\<exists>e. query_dns_servers H N request i q iface servers last_error = Inl e
      \<and> (\<forall>server \<in> set servers. server_answer H N request i q iface server = None))
   \<or> (\<exists>before server after m. servers = before @ server # after
      \<and> (\<forall>s \<in> set before. server_answer H N request i q iface s = None)
      \<and> server_answer H N request i q iface server = Some m
      \<and> query_dns_servers H N request i q iface servers last_error = Inr m)"
proof (induction servers arbitrary: last_error)
  case (Cons server servers)
  show ?case
  proof (cases "server_answer H N request i q iface server")
    case None
    then obtain e where "query_dns_servers H N request i q iface (server # servers) last_error
        = query_dns_servers H N request i q iface servers (Some e)"
      by (auto simp: server_answer_def split: udp_verdict.splits sum.splits)
    with Cons.IH [of "Some e"] None show ?thesis
      by (elim disjE exE conjE) (auto simp del: query_dns_servers.simps, metis append_Cons set_ConsD)
  next
    case (Some m)
    then have "query_dns_servers H N request i q iface (server # servers) last_error = Inr m"
      by (auto simp: server_answer_def split: udp_verdict.splits sum.splits)
    with Some show ?thesis by (intro disjI2 exI [of _ "[]"]) auto
  qed
qed simp

section \<open>Resolution of a name\<close>

text \<open>
  A resolver supports a step of the resolution with the identifier \<^verbatim>\<open>i\<close>: the message that asks for the
  name under that identifier was written to it, its reply answers that question under that identifier
  without error, and the reply gives the address or the next name.
\<close>

definition asks :: "(u16 \<Rightarrow> 'n message) \<Rightarrow> u16 \<Rightarrow> 'n query \<Rightarrow> 'n message" where
  "asks new_message i q = (new_message i)\<lparr>recursion_desired := True, queries := queries (new_message i) @ [q]\<rparr>"

definition supports ::
  "'n hickory \<Rightarrow> dns_net \<Rightarrow> (string \<Rightarrow> string + 'n) \<Rightarrow> (u16 \<Rightarrow> 'n message) \<Rightarrow> ip_addr \<Rightarrow> bool \<Rightarrow> bind_interface \<Rightarrow> u16
     \<Rightarrow> string \<Rightarrow> address_lookup \<Rightarrow> bool" where
  "supports H N name_from_str new_message dns_server want_ipv6 iface i current l =
     (\<exists>name request server m. name_from_str current = Inr name
        \<and> to_vec H (asks new_message i (address_query want_ipv6 name)) = Inr request
        \<and> server \<in> set (direct_dns_servers dns_server iface)
        \<and> replied H N request (SocketAddr server 53) m
        \<and> validate_dns_response H m i (address_query want_ipv6 name) = Inr () \<and> response_code m = NoError
        \<and> extract_address_or_cname H m (address_query want_ipv6 name) = Inr l)"

text \<open>A chain of supported steps with the identifiers that the counter hands out, and at most so many.\<close>

inductive resolves_to ::
  "'n hickory \<Rightarrow> dns_net \<Rightarrow> (string \<Rightarrow> string + 'n) \<Rightarrow> (u16 \<Rightarrow> 'n message) \<Rightarrow> (nat \<Rightarrow> u16) \<Rightarrow> ip_addr \<Rightarrow> bool \<Rightarrow> bind_interface
     \<Rightarrow> nat \<Rightarrow> string \<Rightarrow> ip_addr \<Rightarrow> bool"
  for H N name_from_str new_message ids dns_server want_ipv6 iface where
  direct_answer: "supports H N name_from_str new_message dns_server want_ipv6 iface (ids n) current (Address ip)
    \<Longrightarrow> resolves_to H N name_from_str new_message ids dns_server want_ipv6 iface (Suc n) current ip"
| next_name: "supports H N name_from_str new_message dns_server want_ipv6 iface (ids n) current (Cname name)
    \<Longrightarrow> resolves_to H N name_from_str new_message ids dns_server want_ipv6 iface n name ip
    \<Longrightarrow> resolves_to H N name_from_str new_message ids dns_server want_ipv6 iface (Suc n) current ip"

lemma resolve_step_supports:
  assumes "resolve_step H N name_from_str new_message i dns_server want_ipv6 iface current = Inr l"
  shows "supports H N name_from_str new_message dns_server want_ipv6 iface i current l"
proof -
  obtain name where name: "name_from_str current = Inr name"
    using assms by (auto simp: resolve_step_def split: sum.splits)
  let ?q = "address_query want_ipv6 name"
  obtain request m where m: "to_vec H (asks new_message i ?q) = Inr request"
      "query_dns_bound H N request i ?q dns_server iface = Inr m"
      "response_code m = NoError" "extract_address_or_cname H m ?q = Inr l"
    using assms name by (auto simp: resolve_step_def asks_def Let_def split: sum.splits if_splits)
  from query_dns_servers_sound [OF m(2) [unfolded query_dns_bound_def]]
  obtain server where "server \<in> set (direct_dns_servers dns_server iface)"
      "replied H N request (SocketAddr server 53) m" "validate_dns_response H m i ?q = Inr ()"
    by auto
  with name m(1,3,4) show ?thesis unfolding supports_def by blast
qed

lemma resolve_loop_sound:
  "resolve_loop H N name_from_str new_message ids port dns_server want_ipv6 iface n current = Inr sa \<Longrightarrow>
   sa_port sa = port \<and> resolves_to H N name_from_str new_message ids dns_server want_ipv6 iface n current (sa_ip sa)"
proof (induction n arbitrary: current)
  case (Suc n)
  obtain l where l: "resolve_step H N name_from_str new_message (ids n) dns_server want_ipv6 iface current = Inr l"
    using Suc.prems by (auto split: sum.splits)
  note sup = resolve_step_supports [OF l]
  show ?case
  proof (cases l)
    case (Address ip)
    then have "sa = SocketAddr ip port" using Suc.prems l by simp
    then show ?thesis using direct_answer sup Address by simp
  next
    case (Cname name)
    then have "resolve_loop H N name_from_str new_message ids port dns_server want_ipv6 iface n name = Inr sa"
      using Suc.prems l by simp
    from Suc.IH [OF this] show ?thesis using next_name [where ids = ids and n = n, OF sup [unfolded Cname]] by blast
  qed
qed simp

lemma resolves_to_family:
  assumes "resolves_to H N name_from_str new_message ids dns_server want_ipv6 iface n current ip"
  shows "is_ipv4 ip = (\<not> want_ipv6)"
  using assms
proof (induction rule: resolves_to.induct)
  case (direct_answer n current ip)
  then obtain name m where "extract_address_or_cname H m (address_query want_ipv6 name) = Inr (Address ip)"
    by (auto simp: supports_def)
  then have "follow_cnames H m (address_query want_ipv6 name) MAX_CNAME_DEPTH
      (q_name (address_query want_ipv6 name)) False = Inr (Address ip)"
    by (auto simp: extract_address_or_cname_def split: if_splits)
  from follow_cnames_sound [OF this] obtain name' where
      "answers_address H m (q_type (address_query want_ipv6 name) = TypeAAAA) name' ip" by auto
  from answers_address_family [OF this] show ?case by (simp add: address_query_def)
qed

text \<open>
  C22. A name is resolved for a direct relay only by evidence: the address has the requested port
  and family and ends a chain of at most \<^verbatim>\<open>MAX_CNAME_DEPTH\<close> lookups.  In each of them the encoded
  question for the current name, under the next identifier of the counter, was written to one of the
  physical resolvers (never an unspecified, loopback, multicast, broadcast or link-local address,
  and none twice), and the reply that it sent carries exactly that question and identifier.
\<close>

theorem resolve_domain_bound_sound:
  assumes "resolve_domain_bound H N name_from_str new_message ids domain port dns_server want_ipv6 iface = Inr sa"
  shows "sa_port sa = port \<and> is_ipv4 (sa_ip sa) = (\<not> want_ipv6)
    \<and> resolves_to H N name_from_str new_message ids dns_server want_ipv6 iface MAX_CNAME_DEPTH domain (sa_ip sa)
    \<and> distinct (direct_dns_servers dns_server iface) \<and> list_all is_usable_dns_server (direct_dns_servers dns_server iface)"
proof -
  note k = resolve_loop_sound [OF assms [unfolded resolve_domain_bound_def]]
  have "distinct (direct_dns_servers dns_server iface)"
    unfolding direct_dns_servers_def by (rule push_new_distinct) simp
  moreover have "list_all is_usable_dns_server (direct_dns_servers dns_server iface)"
    unfolding direct_dns_servers_def list_all_iff push_new_set by auto
  ultimately show ?thesis using k resolves_to_family by blast
qed

text \<open>
  A network in which the preferred resolvers are silent and the adapter's resolver answers over TCP
  after a truncated UDP reply.
\<close>

definition demo_codec :: "string hickory" where
  "demo_codec = demo_hickory\<lparr>
     from_vec := (\<lambda>bs. if bs = [1] then Inr (demo_answer\<lparr>truncation := True\<rparr>)
                       else if bs = [2, 2] then Inr demo_answer else Inl ''short'')\<rparr>"

definition demo_net :: dns_net where
  "demo_net = \<lparr>dn_platform = Linux, dn_einprogress = (\<lambda>_. False), dn_sys = (\<lambda>_ _ _ _ _. Inr ()),
     dn_late = (\<lambda>_ server _. sa_ip server \<noteq> V4 9), dn_send = (\<lambda>_ _ _ _. Inr ()),
     dn_recv = (\<lambda>_ _ k. Inr (if k < 2 then [1] else [0, 2, 2, 2]))\<rparr>"

lemma demo_servers: "direct_dns_servers (V4 10) demo_interface = PREFERRED_DNS_SERVERS @ [V4 9, V4 10]"
  by code_simp

lemma demo_extract:
  "validate_dns_response demo_codec demo_answer 7 (address_query False ''a.example'') = Inr ()"
  "validate_dns_response demo_codec (demo_answer\<lparr>truncation := True\<rparr>) 7 (address_query False ''a.example'') = Inr ()"
  "extract_address_or_cname demo_codec demo_answer (address_query False ''a.example'') = Inr (Address (V4 3232235777))"
  "response_code demo_answer = NoError" "truncation demo_answer = False"
  by code_simp+

lemma demo_sockets:
  "fst (bind_udp_bound Linux (\<lambda>_ _. Inr ()) (SocketAddr (V4 9) 53) demo_interface) = Inr ()"
  "fst (connect_tcp_bound Linux f (\<lambda>_ _. Inr ()) (SocketAddr (V4 9) 53) demo_interface) = Inr ()"
  by (simp_all add: bind_udp_bound_def bind_udp_program_def multicast_program_def is_multicast_def
      apply_device_bind_def connect_tcp_bound_def connect_tcp_program_def)

lemma demo_query_bound:
  "query_dns_bound demo_codec demo_net [0, 7] 7 (address_query False ''a.example'') (V4 10) demo_interface = Inr demo_answer"
proof -
  let ?q = "address_query False ''a.example''"
  have silent: "server_answer demo_codec demo_net [0, 7] 7 ?q demo_interface (SocketAddr ip 53) = None" if "ip \<noteq> V4 9" for ip
    using that by (simp add: server_answer_def tcp_attempt_def DNS_UDP_ATTEMPTS_def demo_net_def upt_rec)
  have udp: "query_dns_udp demo_codec demo_net [0, 7] 7 ?q (SocketAddr (V4 9) 53) demo_interface 0
      = Inr (demo_answer\<lparr>truncation := True\<rparr>)"
    using demo_sockets(1) demo_extract(2) by (simp add: query_dns_udp_def demo_net_def demo_codec_def)
  have tcp: "query_dns_tcp demo_codec demo_net [0, 7] 7 ?q (SocketAddr (V4 9) 53) demo_interface 2 = Inr demo_answer"
    using demo_sockets(2) demo_extract(1)
    by (simp add: query_dns_tcp_def demo_net_def demo_codec_def read_exact_def nat_of_be_def)
  have answer: "server_answer demo_codec demo_net [0, 7] 7 ?q demo_interface (SocketAddr (V4 9) 53) = Some demo_answer"
    using udp tcp demo_extract(4)
    by (simp add: server_answer_def tcp_attempt_def DNS_UDP_ATTEMPTS_def upt_rec answered_code_def)
       (simp add: demo_net_def)
  let ?servers = "map (\<lambda>ip. SocketAddr ip 53) (direct_dns_servers (V4 10) demo_interface)"
  have "SocketAddr (V4 9) 53 \<in> set ?servers" unfolding demo_servers by simp
  with query_dns_servers_failover [of demo_codec demo_net "[0, 7]" 7 ?q demo_interface ?servers None] answer
  obtain server m where "server \<in> set ?servers"
      "server_answer demo_codec demo_net [0, 7] 7 ?q demo_interface server = Some m"
      "query_dns_bound demo_codec demo_net [0, 7] 7 ?q (V4 10) demo_interface = Inr m"
    unfolding query_dns_bound_def by fastforce
  moreover from this have "server = SocketAddr (V4 9) 53" using silent by fastforce
  ultimately show ?thesis using answer by simp
qed

theorem resolve_domain_bound_sound_witness:
  "resolves_to demo_codec demo_net Inr (\<lambda>i. demo_query i TypeA\<lparr>queries := []\<rparr>) (\<lambda>_. 7) (V4 10) False demo_interface
     MAX_CNAME_DEPTH ''a.example'' (V4 3232235777)"
proof -
  have "to_vec demo_codec (demo_query 7 TypeA\<lparr>recursion_desired := True, queries := [address_query False ''a.example'']\<rparr>) = Inr [0, 7]"
    by code_simp
  then have "resolve_domain_bound demo_codec demo_net Inr (\<lambda>i. demo_query i TypeA\<lparr>queries := []\<rparr>) (\<lambda>_. 7)
      ''a.example'' 80 (V4 10) False demo_interface = Inr (SocketAddr (V4 3232235777) 80)"
    using demo_query_bound demo_extract(3,4)
    by (simp add: resolve_domain_bound_def MAX_CNAME_DEPTH_def resolve_step_def Let_def eval_nat_numeral io_as_def)
  from resolve_domain_bound_sound [OF this] show ?thesis by simp
qed

end
