(* ===== verification/Egress.thy ===== *)
theory Egress
  imports IpHelper Direct
begin

text \<open>
  The choice of the physical interface, \<^verbatim>\<open>detect\<close> of \<^verbatim>\<open>src/direct.rs\<close>.  An interface has the fields and
  predicates of the netdev crate; what that crate and the system report is the argument \<^verbatim>\<open>E\<close>.  On
  Windows the default route is looked up in the routing table by \<^verbatim>\<open>physical_default_interface\<close> of
  the theory of the IP Helper.
\<close>

section \<open>Interfaces\<close>








section \<open>The choice\<close>










section \<open>Properties\<close>








end
