(* ===== verification/ProcessPolicy.thy ===== *)
theory ProcessPolicy
  imports ProxyHandler "HOL-Library.List_Lexorder" "HOL-Library.Char_ord"
begin

text \<open>
  Which process owns a session and whether it bypasses the proxy: the shared list of names
  (\<^verbatim>\<open>src/process_bypass.rs\<close>), named application families (\<^verbatim>\<open>src/process_profile.rs\<close>), the identity of
  a process on each system (\<^verbatim>\<open>src/process/\<close>) and the matcher with its cache of the socket table
  (\<^verbatim>\<open>src/process/mod.rs\<close>).  What the system answers to one lookup (the socket table, the names of a
  process) is an argument of that lookup.  Names are ASCII, so trimming removes ASCII white space.
  The watch channel that announces changes is represented by the number of changes sent and the
  number each receiver has seen; every policy holds a sender, so the channel is never closed.
\<close>

section \<open>The shared list of names\<close>

definition is_whitespace :: "char \<Rightarrow> bool" where
  "is_whitespace c = (let n = (of_char c :: nat) in (9 \<le> n \<and> n \<le> 13) \<or> n = 32)"

definition trim :: "string \<Rightarrow> string" where
  "trim s = rev (dropWhile is_whitespace (rev (dropWhile is_whitespace s)))"

definition strip_suffix :: "string \<Rightarrow> string \<Rightarrow> string option" where
  "strip_suffix suf s =
     (if length suf \<le> length s \<and> drop (length s - length suf) s = suf
      then Some (take (length s - length suf) s) else None)"

definition normalize_process_name :: "string \<Rightarrow> string" where
  "normalize_process_name name =
     (let lower = to_ascii_lowercase (trim name) in
      case strip_suffix ''.exe'' lower of Some s \<Rightarrow> s | None \<Rightarrow> lower)"

record process_bypass =
  pb_names :: "string list"
  pb_revision :: "64 word"
  pb_sent :: nat

definition process_bypass_default :: process_bypass where
  "process_bypass_default = \<lparr>pb_names = [], pb_revision = 0, pb_sent = 0\<rparr>"

definition set_names :: "string list \<Rightarrow> process_bypass \<Rightarrow> process_bypass" where
  "set_names names b =
     (let names = sort (remdups (filter (\<lambda>name. name \<noteq> []) (map normalize_process_name names))) in
      if pb_names b = names then b
      else b\<lparr>pb_names := names, pb_revision := pb_revision b + 1, pb_sent := pb_sent b + 1\<rparr>)"

definition process_bypass_new :: "string list \<Rightarrow> process_bypass" where
  "process_bypass_new names = set_names names process_bypass_default"

definition is_configured :: "process_bypass \<Rightarrow> bool" where
  "is_configured b = (pb_names b \<noteq> [])"

definition subscribe :: "process_bypass \<Rightarrow> nat" where
  "subscribe b = pb_sent b"

section \<open>Application families\<close>

datatype process_profile = WeGame

definition profile_rule :: "process_profile \<Rightarrow> string" where
  "profile_rule p = (case p of WeGame \<Rightarrow> ''@group:wegame'')"

definition profile_matches_names :: "process_profile \<Rightarrow> string list \<Rightarrow> bool" where
  "profile_matches_names p names = list_ex (\<lambda>name. normalize_process_name name \<in> set
     [''wegame'', ''wegame_env'', ''wegame_launcher'', ''wegamelauncher'', ''tgp'', ''tcls_core'',
      ''leagueclient'', ''leagueclientux'', ''leagueclientuxrender'', ''league of legends'',
      ''riotclientservices'', ''sguard'', ''sguard64'', ''sguardsvc'', ''sguardsvc64'',
      ''ace-service'', ''ace-service64'']) names"

fun split_char :: "char \<Rightarrow> string \<Rightarrow> string list" where
  "split_char c [] = [[]]"
| "split_char c (x # xs) = (if x = c then [] # split_char c xs
     else (case split_char c xs of part # parts \<Rightarrow> (x # part) # parts | [] \<Rightarrow> [[x]]))"

definition backslash :: char where
  "backslash = CHR 0x5C"

definition profile_matches_path :: "process_profile \<Rightarrow> string \<Rightarrow> bool" where
  "profile_matches_path p path =
     (let parts = split_char backslash (map (\<lambda>c. if c = CHR ''/'' then backslash else c) path) in
      list_ex (\<lambda>part. to_ascii_lowercase part \<in> set [''wegame'', ''wegameapps'', ''anticheatexpert''])
        (butlast parts))"

section \<open>The identity of a process\<close>

subsection \<open>Windows\<close>

record snapshot_process =
  sn_name :: string
  sn_parent_pid :: u32

text \<open>
  The system-wide process table is an association list, the later of two rows of a process
  standing first.  \<^verbatim>\<open>path\<close> is the image path a handle of the process gives.
\<close>

function ancestor_names :: "(u32 \<times> snapshot_process) list \<Rightarrow> u32 list \<Rightarrow> u32 \<Rightarrow> string list" where
  "ancestor_names processes seen current =
     (if current = 0 \<or> current \<in> set seen then []
      else case map_of processes current of
        None \<Rightarrow> []
      | Some process \<Rightarrow>
          (if sn_name process \<noteq> [] then [sn_name process] else [])
          @ ancestor_names processes (current # seen) (sn_parent_pid process))"
  by auto

termination
proof (relation "measure (\<lambda>(processes, seen, current). card (fst ` set processes - set seen))", goal_cases)
  case (2 processes seen current process)
  then have "current \<in> fst ` set processes - set seen"
    by (auto dest: map_of_SomeD simp: image_iff intro: bexI [of _ "(current, process)"])
  then have "fst ` set processes - set (current # seen) \<subset> fst ` set processes - set seen"
    by auto
  then show ?case by (simp add: psubset_card_mono)
qed simp

declare ancestor_names.simps [simp del]

definition path_file_name :: "string \<Rightarrow> string option" where
  "path_file_name path =
     (case filter (\<lambda>part. part \<noteq> [] \<and> part \<noteq> ''.'') (split_char CHR ''/'' path) of
        [] \<Rightarrow> None
      | parts \<Rightarrow> if last parts = ''..'' then None else Some (last parts))"

definition image_file_name :: "string \<Rightarrow> string option" where
  "image_file_name path = path_file_name (map (\<lambda>c. if c = backslash then CHR ''/'' else c) path)"

definition windows_process_names ::
  "(u32 \<times> snapshot_process) list \<Rightarrow> (u32 \<Rightarrow> string option) \<Rightarrow> u32 \<Rightarrow> string list" where
  "windows_process_names processes path pid =
     (if pid = 0 then []
      else let names = ancestor_names processes [] pid;
               names = (if names = [] then
                          (case path pid of
                             None \<Rightarrow> []
                           | Some p \<Rightarrow> (case image_file_name p of None \<Rightarrow> [] | Some name \<Rightarrow> [name]))
                        else names) in
        if profile_matches_names WeGame names
           \<or> (case path pid of None \<Rightarrow> False | Some p \<Rightarrow> profile_matches_path WeGame p)
        then names @ [profile_rule WeGame] else names)"

subsection \<open>Linux\<close>

text \<open>\<^verbatim>\<open>exe\<close> is the target of the process's link and \<^verbatim>\<open>comm\<close> its short name, where they can be read.\<close>

definition linux_process_name :: "string option \<Rightarrow> string option \<Rightarrow> string option" where
  "linux_process_name exe comm =
     (let fallback = (case comm of
            None \<Rightarrow> None
          | Some c \<Rightarrow> (let name = trim c in
              if name = [] then None
              else Some (case path_file_name name of Some base \<Rightarrow> base | None \<Rightarrow> name))) in
      case exe of
        None \<Rightarrow> fallback
      | Some e \<Rightarrow> (case path_file_name e of
            Some name \<Rightarrow> if name \<noteq> [] then Some name else fallback
          | None \<Rightarrow> fallback))"

definition linux_process_names ::
  "(u32 \<Rightarrow> string option) \<Rightarrow> (u32 \<Rightarrow> string option) \<Rightarrow> u32 \<Rightarrow> string list" where
  "linux_process_names exe comm pid =
     (case linux_process_name (exe pid) (comm pid) of Some name \<Rightarrow> [name] | None \<Rightarrow> [])"

subsection \<open>macOS\<close>

definition macos_process_name :: "string option \<Rightarrow> string option" where
  "macos_process_name pidpath = (case pidpath of
     None \<Rightarrow> None
   | Some path \<Rightarrow> (case path_file_name path of
         Some name \<Rightarrow> if name \<noteq> [] then Some name else None
       | None \<Rightarrow> None))"

definition macos_parent_pid :: "u32 option \<Rightarrow> u32 \<Rightarrow> u32 option" where
  "macos_parent_pid ppid pid = (case ppid of
     None \<Rightarrow> None
   | Some p \<Rightarrow> if p = 0 \<or> p = pid then None else Some p)"

function macos_chain ::
  "(u32 \<Rightarrow> string option) \<Rightarrow> (u32 \<Rightarrow> u32 option) \<Rightarrow> u32 list \<Rightarrow> u32 \<Rightarrow> string list" where
  "macos_chain pidpath ppid seen current =
     (if current \<in> set seen then []
      else (case macos_process_name (pidpath current) of Some name \<Rightarrow> [name] | None \<Rightarrow> [])
        @ (case macos_parent_pid (ppid current) current of
             Some parent \<Rightarrow> macos_chain pidpath ppid (current # seen) parent
           | None \<Rightarrow> []))"
  by auto

termination
proof (relation "measure (\<lambda>(pidpath, ppid, seen, current). card (UNIV - set seen))", goal_cases)
  case (2 pidpath ppid seen current parent)
  then have "UNIV - set (current # seen) \<subset> UNIV - set seen" by auto
  then show ?case by (simp add: psubset_card_mono)
qed simp

declare macos_chain.simps [simp del]

definition macos_process_names ::
  "(u32 \<Rightarrow> string option) \<Rightarrow> (u32 \<Rightarrow> u32 option) \<Rightarrow> u32 \<Rightarrow> string list" where
  "macos_process_names pidpath ppid pid = (if pid = 0 then [] else macos_chain pidpath ppid [] pid)"

section \<open>The socket table\<close>

record socket_owner =
  so_pid :: u32
  so_bound_at :: int

record socket_entry =
  sk_protocol :: ip_protocol
  sk_local :: socket_addr
  sk_remote :: "socket_addr option"
  sk_pids :: "u32 list"
  sk_udp_owner :: "socket_owner option"

subsection \<open>UDP rows of Windows\<close>

text \<open>
  \<^verbatim>\<open>GetExtendedUdpTable\<close> is an argument: called for the k-th time with a buffer of some octets it
  fills the buffer, or tells the size it needs, or fails.  The buffer is a list of octets whose
  length is a multiple of eight; the row layout of the system is the argument of \<^verbatim>\<open>windows_udp_snapshot\<close>.
\<close>

datatype udp_table_answer = UdpTable nat bytes | InsufficientBuffer nat | UdpTableError io_error

definition udp_table_max :: nat where
  "udp_table_max = 32 * 1024 * 1024"

definition udp_table_capacity :: "nat \<Rightarrow> nat" where
  "udp_table_capacity sz =
     (let capacity = min (sz + max (sz div 2) 4096) udp_table_max in (capacity + 7) div 8 * 8)"

fun udp_table :: "(nat \<Rightarrow> nat \<Rightarrow> udp_table_answer) \<Rightarrow> nat \<Rightarrow> nat \<Rightarrow> (bytes \<times> nat) io_result" where
  "udp_table api 0 sz = Inl (IoError OtherKind ''UDP owner table kept changing'')"
| "udp_table api (Suc k) sz = (case api k sz of
     UdpTable n buffer \<Rightarrow> Inr (buffer, n)
   | UdpTableError e \<Rightarrow> Inl e
   | InsufficientBuffer n \<Rightarrow>
       if n > udp_table_max then Inl (IoError OtherKind ''UDP owner table exceeds size limit'')
       else udp_table api k (udp_table_capacity n))"

definition udp_rows :: "bytes \<Rightarrow> nat \<Rightarrow> nat \<Rightarrow> nat \<Rightarrow> bytes list io_result" where
  "udp_rows buffer sz offset row_size =
     (if sz < offset \<or> sz > length buffer \<or> offset < 4 then Inl (IoError InvalidData [])
      else let count = nat_of_be (rev (take 4 buffer)) in
        if count > (sz - offset) div row_size then Inl (IoError InvalidData [])
        else Inr (map (\<lambda>index. take row_size (drop (offset + index * row_size) buffer)) [0..<count]))"

definition udp_entry :: "socket_addr \<Rightarrow> u32 \<Rightarrow> int \<Rightarrow> socket_entry" where
  "udp_entry local pid bound_at =
     \<lparr>sk_protocol = Udp, sk_local = local, sk_remote = None, sk_pids = [pid],
      sk_udp_owner = (if pid \<noteq> 0 \<and> bound_at > 0 then Some \<lparr>so_pid = pid, so_bound_at = bound_at\<rparr> else None)\<rparr>"

definition port_from_be :: "u32 \<Rightarrow> u16" where
  "port_from_be w = from_be_bytes (rev (to_be_bytes (ucast w :: u16)))"

record udp_layout =
  ul_offset4 :: nat
  ul_size4 :: nat
  ul_row4 :: "bytes \<Rightarrow> u32 \<times> u32 \<times> u32 \<times> int"
  ul_offset6 :: nat
  ul_size6 :: nat
  ul_row6 :: "bytes \<Rightarrow> bytes \<times> u32 \<times> u32 \<times> int"

definition windows_udp_snapshot ::
  "udp_layout \<Rightarrow> (nat \<Rightarrow> nat \<Rightarrow> udp_table_answer) \<Rightarrow> (nat \<Rightarrow> nat \<Rightarrow> udp_table_answer) \<Rightarrow> socket_entry list io_result" where
  "windows_udp_snapshot L api4 api6 =
     rbind (udp_table api4 4 0) (\<lambda>(buffer4, size4).
     rbind (udp_rows buffer4 size4 (ul_offset4 L) (ul_size4 L)) (\<lambda>ipv4.
     rbind (udp_table api6 4 0) (\<lambda>(buffer6, size6).
     rbind (udp_rows buffer6 size6 (ul_offset6 L) (ul_size6 L)) (\<lambda>ipv6.
       Inr (map (\<lambda>row. case ul_row4 L row of (addr, port, pid, bound_at) \<Rightarrow>
              udp_entry (SocketAddr (V4 (from_be_bytes (rev (to_be_bytes addr)))) (port_from_be port)) pid bound_at) ipv4
          @ map (\<lambda>row. case ul_row6 L row of (addr, port, pid, bound_at) \<Rightarrow>
              udp_entry (SocketAddr (V6 (from_be_bytes addr)) (port_from_be port)) pid bound_at) ipv6)))))"

subsection \<open>The snapshot\<close>

text \<open>
  \<^verbatim>\<open>windows\<close> is the outcome of the UDP snapshot on Windows and None elsewhere; \<^verbatim>\<open>sockets_info\<close> is the
  table of the netstat crate, with or without the UDP rows.
\<close>

datatype protocol_socket_info = TcpSocket socket_addr socket_addr | UdpSocket socket_addr

definition socket_entry_of :: "protocol_socket_info \<times> u32 list \<Rightarrow> socket_entry" where
  "socket_entry_of si = (case si of (info, pids) \<Rightarrow> (case info of
     TcpSocket local remote \<Rightarrow> \<lparr>sk_protocol = Tcp, sk_local = local, sk_remote = Some remote,
                                sk_pids = pids, sk_udp_owner = None\<rparr>
   | UdpSocket local \<Rightarrow> \<lparr>sk_protocol = Udp, sk_local = local, sk_remote = None,
                          sk_pids = pids, sk_udp_owner = None\<rparr>))"

definition snapshot ::
  "socket_entry list io_result option \<Rightarrow> (bool \<Rightarrow> string + (protocol_socket_info \<times> u32 list) list)
     \<Rightarrow> socket_entry list result" where
  "snapshot windows sockets_info =
     (let udp_entries = (case windows of Some (Inr entries) \<Rightarrow> Some entries | _ \<Rightarrow> None) in
      case sockets_info (udp_entries = None) of
        Inl e \<Rightarrow> Inl (StringError e)
      | Inr sockets \<Rightarrow> Inr (map socket_entry_of sockets
                             @ (case udp_entries of Some entries \<Rightarrow> entries | None \<Rightarrow> [])))"

subsection \<open>Owners of a session\<close>

definition same_family :: "socket_addr \<Rightarrow> socket_addr \<Rightarrow> bool" where
  "same_family a b = (is_ipv4 (sa_ip a) = is_ipv4 (sa_ip b))"

definition udp_owner :: "socket_entry list \<Rightarrow> socket_addr \<Rightarrow> socket_owner option" where
  "udp_owner entries source =
     (case filter (\<lambda>entry. sk_protocol entry = Udp \<and> sa_port (sk_local entry) = sa_port source
             \<and> (same_family (sk_local entry) source
                \<or> (is_ipv4 (sa_ip source) \<and> is_unspecified (sa_ip (sk_local entry))))) entries of
        [entry] \<Rightarrow> if same_family (sk_local entry) source then sk_udp_owner entry else None
      | _ \<Rightarrow> None)"

type_synonym udp_owners = "u16 \<Rightarrow> socket_entry list option"

definition udp_owners_snapshot :: "socket_entry list \<Rightarrow> udp_owners" where
  "udp_owners_snapshot entries = (\<lambda>port.
     case filter (\<lambda>entry. sa_port (sk_local entry) = port) entries of [] \<Rightarrow> None | es \<Rightarrow> Some es)"

definition udp_owners_get :: "udp_owners \<Rightarrow> socket_addr \<Rightarrow> socket_owner option" where
  "udp_owners_get owners source = (case owners (sa_port source) of
     None \<Rightarrow> None
   | Some entries \<Rightarrow> udp_owner entries source)"

definition candidate_entries ::
  "socket_entry list \<Rightarrow> ip_protocol \<Rightarrow> socket_addr \<Rightarrow> socket_addr \<Rightarrow> socket_entry list" where
  "candidate_entries entries proto source dest =
     (let rows = filter (\<lambda>e. sk_protocol e = proto \<and> sa_port (sk_local e) = sa_port source) entries;
          concrete = filter (\<lambda>e. sa_ip (sk_local e) = sa_ip source
                                 \<and> (proto = Udp \<or> sk_remote e = Some dest)) rows in
      if concrete \<noteq> [] then concrete
      else if proto = Tcp then
        filter (\<lambda>e. same_family (sk_local e) source \<and> sk_remote e = Some dest) rows
      else let unspecified = filter (\<lambda>e. is_unspecified (sa_ip (sk_local e))) rows in
        if unspecified \<noteq> [] then unspecified
        else filter (\<lambda>e. same_family (sk_local e) source) rows)"

definition candidate_pids ::
  "socket_entry list \<Rightarrow> ip_protocol \<Rightarrow> socket_addr \<Rightarrow> socket_addr \<Rightarrow> u32 list" where
  "candidate_pids entries proto source dest = concat (map sk_pids (candidate_entries entries proto source dest))"

section \<open>The matcher\<close>

text \<open>
  The cache of one matcher and what one lookup finds: the moment it was asked for, the moment a
  refresh would begin, the socket table read then and the names of processes.
\<close>

record matcher_cache =
  mc_fetched_at :: "nat option"
  mc_entries :: "socket_entry list"
  mc_pid_names :: "u32 \<Rightarrow> string list option"

record session_identity =
  si_names :: "string list"
  si_udp_owner :: "socket_owner option"

record process_lookup =
  pl_requested :: nat
  pl_now :: nat
  pl_table :: "socket_entry list result"
  pl_names :: "u32 \<Rightarrow> string list"
  pl_protocol :: ip_protocol
  pl_src :: socket_addr
  pl_dst :: socket_addr

record matcher_config =
  mt_exclude_self :: bool
  mt_self :: u32

definition matcher_cache_default :: matcher_cache where
  "matcher_cache_default = \<lparr>mc_fetched_at = None, mc_entries = [], mc_pid_names = (\<lambda>_. None)\<rparr>"

definition process_matcher_new :: "process_bypass \<Rightarrow> u32 \<Rightarrow> (matcher_config \<times> matcher_cache) option" where
  "process_matcher_new names self =
     (if \<not> is_configured names then None
      else Some (\<lparr>mt_exclude_self = False, mt_self = self\<rparr>, matcher_cache_default))"

definition local_process_matcher_new :: "u32 \<Rightarrow> matcher_config \<times> matcher_cache" where
  "local_process_matcher_new self = (\<lparr>mt_exclude_self = True, mt_self = self\<rparr>, matcher_cache_default)"

definition snapshot_covers_request :: "nat option \<Rightarrow> nat \<Rightarrow> bool" where
  "snapshot_covers_request fetched_at requested_at = (case fetched_at of
     None \<Rightarrow> False
   | Some t \<Rightarrow> t \<ge> requested_at)"

definition refresh :: "process_lookup \<Rightarrow> matcher_cache \<Rightarrow> matcher_cache" where
  "refresh l c = (case pl_table l of
     Inr entries \<Rightarrow> c\<lparr>mc_entries := entries, mc_pid_names := (\<lambda>_. None), mc_fetched_at := Some (pl_now l)\<rparr>
   | Inl err \<Rightarrow> c\<lparr>mc_entries := [], mc_pid_names := (\<lambda>_. None), mc_fetched_at := Some (pl_now l)\<rparr>)"

definition resolved_names :: "(u32 \<Rightarrow> string list) \<Rightarrow> u32 \<Rightarrow> string list" where
  "resolved_names process_names pid =
     filter (\<lambda>name. name \<noteq> []) (map normalize_process_name (process_names pid))"

fun collect_identities ::
  "matcher_config \<Rightarrow> (u32 \<Rightarrow> string list) \<Rightarrow> u32 list \<Rightarrow> (u32 \<Rightarrow> string list option)
     \<Rightarrow> string list \<times> (u32 \<Rightarrow> string list option)" where
  "collect_identities cfg process_names [] memo = ([], memo)"
| "collect_identities cfg process_names (pid # pids) memo =
     (if mt_exclude_self cfg \<and> pid = mt_self cfg then collect_identities cfg process_names pids memo
      else let names = (case memo pid of Some names \<Rightarrow> names | None \<Rightarrow> resolved_names process_names pid) in
        case collect_identities cfg process_names pids (memo(pid \<mapsto> names)) of
          (identities, memo') \<Rightarrow> (names @ identities, memo'))"

definition identities_in_cache ::
  "matcher_config \<Rightarrow> process_lookup \<Rightarrow> matcher_cache \<Rightarrow> string list \<times> matcher_cache" where
  "identities_in_cache cfg l c =
     (let pids = candidate_pids (mc_entries c) (pl_protocol l) (pl_src l) (pl_dst l) in
      if pids = [] then ([], c)
      else case collect_identities cfg (pl_names l) pids (mc_pid_names c) of
        (identities, memo) \<Rightarrow> (remdups_adj (sort identities), c\<lparr>mc_pid_names := memo\<rparr>))"

definition identities_blocking ::
  "matcher_config \<Rightarrow> process_lookup \<Rightarrow> matcher_cache \<Rightarrow> session_identity \<times> matcher_cache" where
  "identities_blocking cfg l c =
     (let c1 = (if snapshot_covers_request (mc_fetched_at c) (pl_requested l) then c else refresh l c) in
      case identities_in_cache cfg l c1 of (names, c2) \<Rightarrow>
        (\<lparr>si_names = names,
          si_udp_owner = (if pl_protocol l = Udp then udp_owner (mc_entries c2) (pl_src l) else None)\<rparr>, c2))"

section \<open>The policy of a session\<close>

record session_policy =
  sp_identities :: "string list"
  sp_seen :: nat
  sp_bypass :: bool
  sp_udp_owner :: "socket_owner option"

definition matches_policy :: "process_bypass \<Rightarrow> string list \<Rightarrow> bool" where
  "matches_policy b identities = list_ex (\<lambda>name. name \<in> set (pb_names b)) identities"

definition policy_is_current :: "process_bypass \<Rightarrow> session_policy \<Rightarrow> bool" where
  "policy_is_current b p = (matches_policy b (sp_identities p) = sp_bypass p)"

definition may_delegate_dns :: "session_policy \<Rightarrow> bool" where
  "may_delegate_dns p =
     (sp_identities p = [] \<or> list_ex (\<lambda>name. name = ''svchost'') (sp_identities p))"

text \<open>
  \<^verbatim>\<open>match_session\<close> subscribes to the list as it is when the lookup is asked for, and decides by the
  list as it is when the lookup has finished; \<^verbatim>\<open>lost\<close> tells that the lookup task was cancelled before
  it ran.
\<close>

definition match_session ::
  "matcher_config \<Rightarrow> process_bypass \<Rightarrow> process_bypass \<Rightarrow> bool \<Rightarrow> process_lookup \<Rightarrow> matcher_cache
     \<Rightarrow> session_policy \<times> matcher_cache" where
  "match_session cfg before after lost l c =
     (let changes = subscribe before in
      case (if lost then (\<lparr>si_names = [], si_udp_owner = None\<rparr>, c) else identities_blocking cfg l c) of
        (identity, c') \<Rightarrow>
          (\<lparr>sp_identities = si_names identity, sp_seen = changes,
            sp_bypass = matches_policy after (si_names identity),
            sp_udp_owner = si_udp_owner identity\<rparr>, c'))"

definition match_tcp ::
  "matcher_config \<Rightarrow> process_bypass \<Rightarrow> process_bypass \<Rightarrow> bool \<Rightarrow> process_lookup \<Rightarrow> matcher_cache
     \<Rightarrow> session_policy option \<times> matcher_cache" where
  "match_tcp cfg before after lost l c =
     (if \<not> is_configured before \<or> \<not> is_loopback (sa_ip (pl_src l)) \<or> \<not> is_loopback (sa_ip (pl_dst l))
      then (None, c)
      else case match_session cfg before after lost (l\<lparr>pl_protocol := Tcp\<rparr>) c of (p, c') \<Rightarrow> (Some p, c'))"

text \<open>
  One poll of \<^verbatim>\<open>wait_for_routing_change\<close>: the loop runs until the channel has nothing new.
\<close>

definition poll_routing_change :: "process_bypass \<Rightarrow> session_policy \<Rightarrow> unit poll \<times> session_policy" where
  "poll_routing_change b p =
     (if sp_seen p < pb_sent b then
        let p' = p\<lparr>sp_seen := pb_sent b\<rparr> in
        (if matches_policy b (sp_identities p) \<noteq> sp_bypass p then Ready () else Pending, p')
      else (Pending, p))"

datatype policy_event = UpdateNames "string list" | PollRelay

fun wait_for_routing_change ::
  "process_bypass \<Rightarrow> session_policy \<Rightarrow> policy_event list \<Rightarrow> unit poll \<times> process_bypass" where
  "wait_for_routing_change b p [] = (Pending, b)"
| "wait_for_routing_change b p (UpdateNames names # es) = wait_for_routing_change (set_names names b) p es"
| "wait_for_routing_change b p (PollRelay # es) = (case poll_routing_change b p of
     (Ready _, p') \<Rightarrow> (Ready (), b)
   | (Pending, p') \<Rightarrow> wait_for_routing_change b p' es)"

section \<open>Properties of the list of names\<close>

lemma set_names_sorted:
  "pb_names b = sort (remdups (pb_names b)) \<Longrightarrow>
   sorted (pb_names (set_names names b)) \<and> distinct (pb_names (set_names names b))"
  by (cases "pb_names b = sort (remdups (filter (\<lambda>name. name \<noteq> []) (map normalize_process_name names)))")
    (simp_all add: set_names_def Let_def)

lemma set_set_names:
  "set (pb_names (set_names names b)) = normalize_process_name ` set names - {[]}"
  by (cases "pb_names b = sort (remdups (filter (\<lambda>name. name \<noteq> []) (map normalize_process_name names)))")
    (auto simp: set_names_def Let_def)

lemma set_names_sent:
  "pb_sent (set_names names b) = (if pb_names (set_names names b) = pb_names b then pb_sent b else pb_sent b + 1)"
  by (simp add: set_names_def Let_def)

lemma set_names_same: "pb_names (set_names names b) = pb_names b \<Longrightarrow> set_names names b = b"
  by (cases b) (simp add: set_names_def Let_def split: if_splits)

lemma matches_policy_iff: "matches_policy b identities \<longleftrightarrow> (\<exists>name \<in> set identities. name \<in> set (pb_names b))"
  by (simp add: matches_policy_def list_ex_iff)

section \<open>Bounds of the UDP table\<close>

lemma udp_rows_in_bounds:
  assumes "udp_rows buffer sz offset row_size = Inr rows"
  shows "length rows * row_size + offset \<le> length buffer
    \<and> (\<forall>i < length rows. rows ! i = take row_size (drop (offset + i * row_size) buffer)
         \<and> length (rows ! i) = row_size)"
proof -
  define count where "count = nat_of_be (rev (take 4 buffer))"
  have ok: "offset \<le> sz" "sz \<le> length buffer" "count \<le> (sz - offset) div row_size"
    and rows: "rows = map (\<lambda>i. take row_size (drop (offset + i * row_size) buffer)) [0..<count]"
    using assms by (auto simp: udp_rows_def Let_def count_def split: if_splits)
  have "count * row_size \<le> (sz - offset) div row_size * row_size" using ok(3) by (rule mult_le_mono1)
  also have "\<dots> \<le> sz - offset" by (rule div_times_less_eq_dividend)
  finally have fits: "count * row_size + offset \<le> length buffer" using ok by simp
  have "i * row_size + row_size \<le> count * row_size" if "i < count" for i
    using that mult_le_mono1 [of "Suc i" count row_size] by simp
  then show ?thesis using rows fits by fastforce
qed

section \<open>A lookup uses a table read after it was asked for\<close>

lemma candidate_entries_sound:
  assumes "e \<in> set (candidate_entries entries proto source dest)"
  shows "e \<in> set entries \<and> sk_protocol e = proto \<and> sa_port (sk_local e) = sa_port source
    \<and> (proto = Tcp \<longrightarrow> sk_remote e = Some dest)"
  using assms by (auto simp: candidate_entries_def Let_def split: if_splits)

text \<open>
  The lookups that one matcher has served, in their order, and what its cache then holds: the
  table of one of them, and names that it or a later one gave.
\<close>

fun run_lookups :: "matcher_config \<Rightarrow> process_lookup list \<Rightarrow> matcher_cache \<Rightarrow> matcher_cache" where
  "run_lookups cfg [] c = c"
| "run_lookups cfg (l # ls) c = run_lookups cfg ls (snd (identities_blocking cfg l c))"

definition table_rows :: "process_lookup \<Rightarrow> socket_entry list" where
  "table_rows l = (case pl_table l of Inr entries \<Rightarrow> entries | Inl e \<Rightarrow> [])"

definition answered :: "process_lookup list \<Rightarrow> u32 \<Rightarrow> string list \<Rightarrow> bool" where
  "answered ls pid names = (\<exists>l \<in> set ls. names = resolved_names (pl_names l) pid)"

definition cache_holds :: "process_lookup list \<Rightarrow> process_lookup list \<Rightarrow> matcher_cache \<Rightarrow> bool" where
  "cache_holds ls later c = (\<exists>earlier. ls = earlier @ later \<and> later \<noteq> []
     \<and> mc_fetched_at c = Some (pl_now (hd later)) \<and> mc_entries c = table_rows (hd later)
     \<and> (\<forall>pid names. mc_pid_names c pid = Some names \<longrightarrow> answered later pid names))"

lemma answered_snoc: "answered ls pid names \<Longrightarrow> answered (ls @ [l]) pid names"
  by (auto simp: answered_def)

abbreviation counted :: "matcher_config \<Rightarrow> u32 list \<Rightarrow> u32 set" where
  "counted cfg pids \<equiv> {pid \<in> set pids. \<not> (mt_exclude_self cfg \<and> pid = mt_self cfg)}"

lemma collect_identities_spec:
  assumes "collect_identities cfg (pl_names l) pids memo = (ids, memo')"
    and "\<forall>pid names. memo pid = Some names \<longrightarrow> answered ls pid names" and "l \<in> set ls"
  shows "(\<forall>pid names. memo pid = Some names \<longrightarrow> memo' pid = Some names)
    \<and> (\<forall>pid names. memo' pid = Some names \<longrightarrow> answered ls pid names)
    \<and> set ids = (\<Union>pid \<in> counted cfg pids. set (the (memo' pid)))
    \<and> (\<forall>pid \<in> counted cfg pids. memo' pid \<noteq> None)"
  using assms(1,2)
proof (induction pids arbitrary: memo ids)
  case Nil
  then have "ids = []" "memo' = memo" by simp_all
  then show ?case using Nil.prems(2) by simp
next
  case (Cons pid pids)
  show ?case
  proof (cases "mt_exclude_self cfg \<and> pid = mt_self cfg")
    case True
    have "collect_identities cfg (pl_names l) pids memo = (ids, memo')"
      using Cons.prems(1) True by simp
    note IH = Cons.IH [OF this Cons.prems(2)]
    have "counted cfg (pid # pids) = counted cfg pids" using True by auto
    then show ?thesis using IH by simp
  next
    case False
    define names where "names = (case memo pid of Some names \<Rightarrow> names | None \<Rightarrow> resolved_names (pl_names l) pid)"
    obtain ids' where rest: "collect_identities cfg (pl_names l) pids (memo(pid \<mapsto> names)) = (ids', memo')"
      and ids: "ids = names @ ids'"
      using Cons.prems(1) False by (auto simp: names_def Let_def split: prod.splits)
    have "answered ls pid names"
    proof (cases "memo pid")
      case None
      then show ?thesis using assms(3) by (auto simp: names_def answered_def)
    next
      case (Some ns)
      then show ?thesis using Cons.prems(2) by (simp add: names_def)
    qed
    then have "\<forall>q ns. (memo(pid \<mapsto> names)) q = Some ns \<longrightarrow> answered ls q ns"
      using Cons.prems(2) by simp
    note IH = Cons.IH [OF rest this]
    have kept: "memo' pid = Some names" using IH by simp
    have "memo q = Some ns \<longrightarrow> memo' q = Some ns" for q ns
      using IH kept by (cases "q = pid") (simp_all add: names_def)
    moreover have "counted cfg (pid # pids) = insert pid (counted cfg pids)" using False by auto
    ultimately show ?thesis using IH kept ids by simp
  qed
qed

lemma set_remdups_adj_sort: "set (remdups_adj (sort xs)) = set xs"
  by simp

lemma cache_after_refresh: "cache_holds (ls @ [l]) [l] (refresh l c)"
  by (auto simp: cache_holds_def refresh_def table_rows_def split: sum.splits)

lemma cache_holds_snoc: "cache_holds ls later c \<Longrightarrow> cache_holds (ls @ [l]) (later @ [l]) c"
  by (auto simp: cache_holds_def intro: answered_snoc)

text \<open>The cache a lookup works on: refreshed, or read at or after the request.\<close>

lemma lookup_cache:
  assumes "c = matcher_cache_default \<or> (\<exists>later. cache_holds ls later c)" and "pl_requested l \<le> pl_now l"
  obtains later where
    "cache_holds (ls @ [l]) later
       (if snapshot_covers_request (mc_fetched_at c) (pl_requested l) then c else refresh l c)"
    "pl_requested l \<le> pl_now (hd later)" "l \<in> set later"
proof (cases "snapshot_covers_request (mc_fetched_at c) (pl_requested l)")
  case True
  then obtain later where later: "cache_holds ls later c"
    using assms(1) by (auto simp: snapshot_covers_request_def matcher_cache_default_def)
  then have "pl_requested l \<le> pl_now (hd (later @ [l]))"
    using True by (auto simp: snapshot_covers_request_def cache_holds_def)
  then show ?thesis using that [of "later @ [l]"] cache_holds_snoc [OF later] True by simp
next
  case False
  then show ?thesis using that [of "[l]"] cache_after_refresh assms(2) by simp
qed

lemma identities_blocking_spec:
  assumes "c = matcher_cache_default \<or> (\<exists>later. cache_holds ls later c)" and "pl_requested l \<le> pl_now l"
    and "identities_blocking cfg l c = (identity, c')"
  shows "\<exists>later who. cache_holds (ls @ [l]) later c' \<and> pl_requested l \<le> pl_now (hd later)
    \<and> (\<forall>pid. answered later pid (who pid))
    \<and> set (si_names identity) = (\<Union>pid \<in> counted cfg
         (candidate_pids (table_rows (hd later)) (pl_protocol l) (pl_src l) (pl_dst l)). set (who pid))"
proof -
  define c1 where "c1 = (if snapshot_covers_request (mc_fetched_at c) (pl_requested l) then c else refresh l c)"
  obtain later where later: "cache_holds (ls @ [l]) later c1" "pl_requested l \<le> pl_now (hd later)" "l \<in> set later"
    using lookup_cache [OF assms(1,2)] unfolding c1_def by metis
  define pids where "pids = candidate_pids (mc_entries c1) (pl_protocol l) (pl_src l) (pl_dst l)"
  have rows: "mc_entries c1 = table_rows (hd later)" using later(1) by (auto simp: cache_holds_def)
  obtain ids memo where col: "collect_identities cfg (pl_names l) pids (mc_pid_names c1) = (ids, memo)"
    by (cases "collect_identities cfg (pl_names l) pids (mc_pid_names c1)")
  have memo0: "\<forall>pid names. mc_pid_names c1 pid = Some names \<longrightarrow> answered later pid names"
    using later(1) by (auto simp: cache_holds_def)
  note spec = collect_identities_spec [OF col memo0 later(3)]
  have "identities_in_cache cfg l c1 = (if pids = [] then ([], c1)
      else (remdups_adj (sort ids), c1\<lparr>mc_pid_names := memo\<rparr>))"
    unfolding identities_in_cache_def Let_def pids_def [symmetric] using col by simp
  moreover have "ids = []" if "pids = []" using col that by simp
  ultimately have c': "c' = (if pids = [] then c1 else c1\<lparr>mc_pid_names := memo\<rparr>)"
    and names: "set (si_names identity) = set ids"
    using assms(3) unfolding identities_blocking_def Let_def c1_def [symmetric] by (cases "pids = []"; auto)+
  define who where "who pid = (case memo pid of Some ns \<Rightarrow> ns | None \<Rightarrow> resolved_names (pl_names l) pid)" for pid
  have "answered later pid (who pid)" for pid
    using spec later(3) by (cases "memo pid") (auto simp: who_def answered_def)
  moreover have "set ids = (\<Union>pid \<in> counted cfg pids. set (who pid))"
  proof -
    have "set (the (memo pid)) = set (who pid)" if "pid \<in> counted cfg pids" for pid
      using spec that by (auto simp: who_def split: option.split)
    then show ?thesis using spec by simp
  qed
  moreover have "cache_holds (ls @ [l]) later c'"
  proof -
    have "\<forall>pid names. mc_pid_names c' pid = Some names \<longrightarrow> answered later pid names"
      using c' memo0 spec by (cases "pids = []") simp_all
    moreover have "mc_fetched_at c' = mc_fetched_at c1" "mc_entries c' = mc_entries c1" using c' by simp_all
    ultimately show ?thesis using later(1) unfolding cache_holds_def by simp
  qed
  ultimately show ?thesis
    using later(2) names rows unfolding pids_def by (intro exI [of _ later] exI [of _ who]) simp
qed

lemma run_lookups_holds:
  assumes "\<forall>l \<in> set ls. pl_requested l \<le> pl_now l"
  shows "run_lookups cfg ls matcher_cache_default = matcher_cache_default
    \<or> (\<exists>later. cache_holds ls later (run_lookups cfg ls matcher_cache_default))"
  using assms
proof (induction ls rule: rev_induct)
  case (snoc l ls)
  have step: "run_lookups cfg (ls @ [l]) c = snd (identities_blocking cfg l (run_lookups cfg ls c))" for c
    by (induction ls arbitrary: c) auto
  obtain identity c' where "identities_blocking cfg l (run_lookups cfg ls matcher_cache_default) = (identity, c')"
    by (cases "identities_blocking cfg l (run_lookups cfg ls matcher_cache_default)")
  then show ?case
    using identities_blocking_spec [of "run_lookups cfg ls matcher_cache_default" ls l cfg identity c'] snoc step by auto
qed simp

section \<open>The decision for a session\<close>

text \<open>
  C11. A session bypasses the proxy exactly when a process that owns a matching row of the socket
  table has a listed name.  The table is one whose reading began at or after the moment the session
  was looked up, never an older one, and the names were asked for in that lookup or later; after a
  failed reading the table is empty.  A local proxy never counts its own process.
\<close>

theorem bypass_has_fresh_owner:
  assumes "\<forall>l' \<in> set (ls @ [l]). pl_requested l' \<le> pl_now l'"
    and "match_session cfg before after False l (run_lookups cfg ls matcher_cache_default) = (p, c')"
  shows "\<exists>earlier later who. ls @ [l] = earlier @ later \<and> later \<noteq> [] \<and> pl_requested l \<le> pl_now (hd later)
    \<and> (\<forall>pid. answered later pid (who pid))
    \<and> (sp_bypass p \<longleftrightarrow> (\<exists>pid \<in> set (candidate_pids (table_rows (hd later)) (pl_protocol l) (pl_src l) (pl_dst l)).
         \<not> (mt_exclude_self cfg \<and> pid = mt_self cfg) \<and> set (who pid) \<inter> set (pb_names after) \<noteq> {}))"
proof -
  obtain identity c'' where idb:
      "identities_blocking cfg l (run_lookups cfg ls matcher_cache_default) = (identity, c'')"
    by (cases "identities_blocking cfg l (run_lookups cfg ls matcher_cache_default)")
  have bypass: "sp_bypass p = matches_policy after (si_names identity)"
    using assms(2) idb by (auto simp: match_session_def Let_def)
  have "run_lookups cfg ls matcher_cache_default = matcher_cache_default
      \<or> (\<exists>later. cache_holds ls later (run_lookups cfg ls matcher_cache_default))"
    using run_lookups_holds assms(1) by simp
  from identities_blocking_spec [OF this _ idb] assms(1)
  obtain later who where spec: "cache_holds (ls @ [l]) later c''" "pl_requested l \<le> pl_now (hd later)"
      "\<forall>pid. answered later pid (who pid)"
      "set (si_names identity) = (\<Union>pid \<in> counted cfg
         (candidate_pids (table_rows (hd later)) (pl_protocol l) (pl_src l) (pl_dst l)). set (who pid))"
    by auto
  then obtain earlier where "ls @ [l] = earlier @ later" "later \<noteq> []" by (auto simp: cache_holds_def)
  moreover have "sp_bypass p \<longleftrightarrow> (\<exists>pid \<in> counted cfg
      (candidate_pids (table_rows (hd later)) (pl_protocol l) (pl_src l) (pl_dst l)).
        set (who pid) \<inter> set (pb_names after) \<noteq> {})"
    unfolding bypass matches_policy_iff spec(4) by blast
  ultimately show ?thesis using spec(2,3) by (intro exI [of _ earlier] exI [of _ later] exI [of _ who]) auto
qed

definition demo_lookup :: process_lookup where
  "demo_lookup = \<lparr>pl_requested = 3, pl_now = 4,
     pl_table = Inr [\<lparr>sk_protocol = Tcp, sk_local = SocketAddr (V4 5) 6, sk_remote = Some (SocketAddr (V4 7) 8),
                      sk_pids = [9], sk_udp_owner = None\<rparr>],
     pl_names = (\<lambda>pid. [''Curl.EXE'']), pl_protocol = Tcp, pl_src = SocketAddr (V4 5) 6, pl_dst = SocketAddr (V4 7) 8\<rparr>"

definition demo_matcher :: matcher_config where
  "demo_matcher = \<lparr>mt_exclude_self = True, mt_self = 2\<rparr>"

lemma demo_names: "pb_names (process_bypass_new [''curl'']) = [''curl'']"
  by code_simp

lemma demo_curl: "normalize_process_name ''Curl.EXE'' = ''curl''"
  by code_simp

lemma demo_bypass:
  "sp_bypass (fst (match_session demo_matcher (process_bypass_new [''curl'']) (process_bypass_new [''curl'']) False
     demo_lookup (run_lookups demo_matcher [demo_lookup\<lparr>pl_requested := 1, pl_now := 2, pl_table := Inl TryFromInt\<rparr>]
       matcher_cache_default)))"
  by code_simp

theorem bypass_has_fresh_owner_witness:
  "(\<exists>pid \<in> set (candidate_pids (table_rows demo_lookup) Tcp (SocketAddr (V4 5) 6) (SocketAddr (V4 7) 8)).
      pid \<noteq> 2 \<and> ''curl'' \<in> set (resolved_names (pl_names demo_lookup) pid))"
proof -
  let ?b = "process_bypass_new [''curl'']" and ?old = "demo_lookup\<lparr>pl_requested := 1, pl_now := 2, pl_table := Inl TryFromInt\<rparr>"
  obtain p c' where m: "match_session demo_matcher ?b ?b False demo_lookup
      (run_lookups demo_matcher [?old] matcher_cache_default) = (p, c')"
    by (cases "match_session demo_matcher ?b ?b False demo_lookup (run_lookups demo_matcher [?old] matcher_cache_default)")
  have "\<forall>l' \<in> set ([?old] @ [demo_lookup]). pl_requested l' \<le> pl_now l'"
    by (simp add: demo_lookup_def)
  from bypass_has_fresh_owner [OF this m]
  obtain earlier later who where h: "[?old] @ [demo_lookup] = earlier @ later" "later \<noteq> []"
      "pl_requested demo_lookup \<le> pl_now (hd later)" "\<forall>pid. answered later pid (who pid)"
      "sp_bypass p \<longleftrightarrow> (\<exists>pid \<in> set (candidate_pids (table_rows (hd later)) (pl_protocol demo_lookup) (pl_src demo_lookup) (pl_dst demo_lookup)).
         \<not> (mt_exclude_self demo_matcher \<and> pid = mt_self demo_matcher) \<and> set (who pid) \<inter> set (pb_names ?b) \<noteq> {})"
    by blast
  have "sp_bypass p" using demo_bypass m by simp
  moreover have "later = [demo_lookup]"
    using h(1-3) by (cases earlier) (auto simp: demo_lookup_def Cons_eq_append_conv)
  ultimately show ?thesis
    using h(4,5) by (auto simp: answered_def demo_lookup_def demo_matcher_def demo_names)
qed

text \<open>The list after the updates among some events.\<close>

fun after_updates :: "policy_event list \<Rightarrow> process_bypass \<Rightarrow> process_bypass" where
  "after_updates [] b = b"
| "after_updates (UpdateNames names # es) b = after_updates es (set_names names b)"
| "after_updates (PollRelay # es) b = after_updates es b"

definition watching :: "process_bypass \<Rightarrow> session_policy \<Rightarrow> bool" where
  "watching b p = (sp_seen p \<le> pb_sent b \<and> (sp_seen p < pb_sent b \<or> policy_is_current b p))"

lemma watching_set_names: "watching b p \<Longrightarrow> watching (set_names names b) p"
  by (cases "pb_names (set_names names b) = pb_names b")
    (simp_all add: set_names_same, simp add: watching_def set_names_sent)

lemma watching_poll:
  assumes "watching b p" and "poll_routing_change b p = (r, p')"
  shows "(r = Ready () \<longleftrightarrow> \<not> policy_is_current b p) \<and> (r = Pending \<longrightarrow> watching b p')
    \<and> sp_identities p' = sp_identities p \<and> sp_bypass p' = sp_bypass p"
  using assms by (auto simp: poll_routing_change_def watching_def policy_is_current_def Let_def split: if_splits)

lemma ex_split_Cons:
  "(\<exists>es1 es2. e # es = es1 @ x # es2 \<and> Q es1) \<longleftrightarrow> (e = x \<and> Q []) \<or> (\<exists>es1 es2. es = es1 @ x # es2 \<and> Q (e # es1))"
proof
  assume "\<exists>es1 es2. e # es = es1 @ x # es2 \<and> Q es1"
  then obtain es1 es2 where "e # es = es1 @ x # es2" "Q es1" by blast
  then show "(e = x \<and> Q []) \<or> (\<exists>es1 es2. es = es1 @ x # es2 \<and> Q (e # es1))" by (cases es1) auto
next
  assume "(e = x \<and> Q []) \<or> (\<exists>es1 es2. es = es1 @ x # es2 \<and> Q (e # es1))"
  then show "\<exists>es1 es2. e # es = es1 @ x # es2 \<and> Q es1"
  proof
    assume "e = x \<and> Q []"
    then show ?thesis by (intro exI [of _ "[]"] exI [of _ es]) simp
  next
    assume "\<exists>es1 es2. es = es1 @ x # es2 \<and> Q (e # es1)"
    then obtain es1 es2 where "es = es1 @ x # es2" "Q (e # es1)" by blast
    then show ?thesis by (intro exI [of _ "e # es1"] exI [of _ es2]) simp
  qed
qed

lemma wait_for_routing_change_iff:
  assumes "watching b p"
  shows "fst (wait_for_routing_change b p es) = Ready () \<longleftrightarrow>
    (\<exists>es1 es2. es = es1 @ PollRelay # es2 \<and> matches_policy (after_updates es1 b) (sp_identities p) \<noteq> sp_bypass p)"
  using assms
proof (induction b p es rule: wait_for_routing_change.induct)
  case (1 b p)
  then show ?case by simp
next
  case (2 b p names es)
  show ?case unfolding ex_split_Cons using 2 watching_set_names by simp
next
  case (3 b p es)
  obtain r p' where poll: "poll_routing_change b p = (r, p')" by (cases "poll_routing_change b p")
  note spec = watching_poll [OF 3(2) poll]
  show ?case
  proof (cases r)
    case (Ready u)
    then show ?thesis unfolding ex_split_Cons using spec poll by (simp add: policy_is_current_def)
  next
    case Pending
    then show ?thesis
      unfolding ex_split_Cons using spec poll 3(1) [OF poll [symmetric] Pending] by (simp add: policy_is_current_def)
  qed
qed

lemma sent_mono: "pb_sent b \<le> pb_sent (fold set_names updates b)"
proof (induction updates arbitrary: b)
  case (Cons names updates)
  have "pb_sent b \<le> pb_sent (set_names names b)" by (simp add: set_names_sent)
  also have "\<dots> \<le> pb_sent (fold set_names updates (set_names names b))" by (rule Cons.IH)
  finally show ?case by simp
qed simp

text \<open>
  C12. A relay ends for a change of the list exactly when it is polled at a moment at which the list
  decides differently about the session than when the session began: no update is missed, even one
  that races the lookup, and an update that leaves this session's decision as it was never ends it.
\<close>

theorem relay_ends_on_policy_change:
  "let after = fold set_names updates before; p = fst (match_session cfg before after lost l c) in
   fst (wait_for_routing_change after p es) = Ready () \<longleftrightarrow>
    (\<exists>es1 es2. es = es1 @ PollRelay # es2
       \<and> matches_policy (after_updates es1 after) (sp_identities p) \<noteq> matches_policy after (sp_identities p))"
proof -
  define after where "after = fold set_names updates before"
  define p where "p = fst (match_session cfg before after lost l c)"
  have pinned: "sp_bypass p = matches_policy after (sp_identities p)" "sp_seen p = pb_sent before"
    unfolding p_def by (simp_all add: match_session_def subscribe_def Let_def split: prod.splits)
  then have "watching after p"
    using sent_mono [of before updates] by (simp add: watching_def policy_is_current_def after_def)
  from wait_for_routing_change_iff [OF this] show ?thesis
    by (simp add: pinned Let_def after_def [symmetric] p_def [symmetric])
qed

end
