(* ===== verification/UdpBypass.thy ===== *)
theory UdpBypass
  imports ProcessPolicy Direct
begin

text \<open>
  The pool of physical UDP sockets of bypassed processes, \<^verbatim>\<open>src/udp_bypass.rs\<close>.  One endpoint serves
  one application socket; a flow of the endpoint restores one peer.  The tasks are the opening of
  flows and the maintenance of the pool, a receiver per endpoint and a relay per flow.  Each critical
  section of the source is one function on the shared state and \<^verbatim>\<open>bypass_step\<close> is their interleaving.
  Endpoints and flows are never freed here: a handle is an index.  Times are milliseconds and the
  outcomes of system calls are arguments.
\<close>

section \<open>Shared state\<close>

definition IDLE_TIMEOUT :: nat where "IDLE_TIMEOUT = 120000"
definition OWNER_FAILURE_GRACE :: nat where "OWNER_FAILURE_GRACE = 6000"
definition QUEUED_BYTES :: nat where "QUEUED_BYTES = 8 * 1024 * 1024"
definition PEER_QUEUE :: nat where "PEER_QUEUE = 16"

record endpoint =
  ep_owner :: socket_owner
  ep_interface :: bind_interface
  ep_routes :: "(socket_addr \<times> nat) list"
  ep_last_activity :: nat
  ep_closed :: bool
  ep_receiving :: bool

datatype flow_phase = Selecting | Sending bytes | Ended

record flow =
  fl_endpoint :: nat
  fl_peer :: socket_addr
  fl_queue :: "bytes list"
  fl_phase :: flow_phase

record bypass_pool =
  bp_pool :: "(socket_addr \<times> nat) list"
  bp_endpoints :: "endpoint list"
  bp_flows :: "flow list"
  bp_budget :: nat
  bp_owner_failure :: "nat option"
  bp_limit :: nat

definition pool_new :: "nat \<Rightarrow> bypass_pool" where
  "pool_new limit = \<lparr>bp_pool = [], bp_endpoints = [], bp_flows = [], bp_budget = QUEUED_BYTES,
     bp_owner_failure = None, bp_limit = min limit 1024\<rparr>"

text \<open>The share of the byte budget a queued datagram holds.\<close>

definition permit :: "bytes \<Rightarrow> nat" where
  "permit bs = max (length bs) 1"

section \<open>Endpoints\<close>

definition uses_interface :: "socket_addr \<Rightarrow> bind_interface \<Rightarrow> endpoint \<Rightarrow> bool" where
  "uses_interface source iface ep =
     (if is_ipv4 (sa_ip source) then bi_ipv4_index (ep_interface ep) = bi_ipv4_index iface
      else bi_ipv6_index (ep_interface ep) = bi_ipv6_index iface)"

definition close_endpoint :: "endpoint \<Rightarrow> endpoint" where
  "close_endpoint ep = ep\<lparr>ep_closed := True, ep_routes := []\<rparr>"

definition expired :: "nat \<Rightarrow> endpoint \<Rightarrow> bool" where
  "expired now ep = (ep_closed ep \<or> (ep_routes ep = [] \<and> now - ep_last_activity ep \<ge> IDLE_TIMEOUT))"

text \<open>\<^verbatim>\<open>HashMap::retain\<close> over the pool, closing what is dropped.\<close>

fun retain ::
  "(socket_addr \<Rightarrow> endpoint \<Rightarrow> bool) \<Rightarrow> (socket_addr \<times> nat) list \<Rightarrow> endpoint list
     \<Rightarrow> (socket_addr \<times> nat) list \<times> endpoint list" where
  "retain keep [] eps = ([], eps)"
| "retain keep ((source, i) # entries) eps =
     (if keep source (eps ! i) then
        (case retain keep entries eps of (kept, eps') \<Rightarrow> ((source, i) # kept, eps'))
      else retain keep entries (eps[i := close_endpoint (eps ! i)]))"

definition retain_endpoints :: "(socket_addr \<Rightarrow> endpoint \<Rightarrow> bool) \<Rightarrow> bypass_pool \<Rightarrow> bypass_pool" where
  "retain_endpoints keep s = (case retain keep (bp_pool s) (bp_endpoints s) of
     (kept, eps) \<Rightarrow> s\<lparr>bp_pool := kept, bp_endpoints := eps\<rparr>)"

definition retire :: "socket_addr \<Rightarrow> bypass_pool \<Rightarrow> bypass_pool" where
  "retire source s = (case map_of (bp_pool s) source of
     None \<Rightarrow> s
   | Some i \<Rightarrow> s\<lparr>bp_pool := filter (\<lambda>e. fst e \<noteq> source) (bp_pool s),
                  bp_endpoints := (bp_endpoints s)[i := close_endpoint (bp_endpoints s ! i)]\<rparr>)"

section \<open>Opening and maintenance\<close>

text \<open>
  The socket of an endpoint: \<^verbatim>\<open>ioctl\<close> is the outcome of suppressing the notifications of unreachable
  ports (False) and of expired datagrams (True).
\<close>

definition bind_shared_udp :: "sock_sys \<Rightarrow> (bool \<Rightarrow> unit io_result) \<Rightarrow> bool \<Rightarrow> bind_interface \<Rightarrow> unit io_result" where
  "bind_shared_udp sys ioctl ipv6 iface =
     rbind (fst (bind_udp_unconnected Windows sys ipv6 iface)) (\<lambda>_. rbind (ioctl False) (\<lambda>_. ioctl True))"

definition oldest_idle :: "bypass_pool \<Rightarrow> socket_addr option" where
  "oldest_idle s = map_option fst (first_min (\<lambda>(source, i). ep_last_activity (bp_endpoints s ! i))
     (filter (\<lambda>(source, i). ep_routes (bp_endpoints s ! i) = []) (bp_pool s)))"

definition new_endpoint :: "nat \<Rightarrow> socket_addr \<Rightarrow> socket_owner \<Rightarrow> bind_interface \<Rightarrow> bypass_pool \<Rightarrow> bypass_pool" where
  "new_endpoint now source owner iface s =
     s\<lparr>bp_pool := (source, length (bp_endpoints s)) # bp_pool s,
       bp_endpoints := bp_endpoints s @ [\<lparr>ep_owner = owner, ep_interface = iface, ep_routes = [],
          ep_last_activity = now, ep_closed = False, ep_receiving = True\<rparr>]\<rparr>"

definition register_flow :: "nat \<Rightarrow> nat \<Rightarrow> socket_addr \<Rightarrow> bypass_pool \<Rightarrow> bypass_pool" where
  "register_flow now i peer s =
     (let ep = bp_endpoints s ! i; f = length (bp_flows s) in
      s\<lparr>bp_endpoints := (bp_endpoints s)[i := ep\<lparr>ep_routes := (peer, f) # ep_routes ep, ep_last_activity := now\<rparr>],
        bp_flows := bp_flows s @ [\<lparr>fl_endpoint = i, fl_peer = peer, fl_queue = [], fl_phase = Selecting\<rparr>]\<rparr>)"

text \<open>\<^verbatim>\<open>open_with\<close> without its check of the addresses: the endpoint of the source, then the route.\<close>

definition ensure_endpoint ::
  "nat \<Rightarrow> socket_addr \<Rightarrow> socket_owner \<Rightarrow> bind_interface \<Rightarrow> unit io_result \<Rightarrow> bypass_pool
     \<Rightarrow> nat option io_result \<times> bypass_pool" where
  "ensure_endpoint now source owner iface bound s =
     (case map_of (bp_pool s) source of
        Some i \<Rightarrow> (Inr (Some i), s)
      | None \<Rightarrow>
          (let room = (if length (bp_pool s) \<ge> bp_limit s
                       then map_option (\<lambda>oldest. retire oldest s) (oldest_idle s) else Some s) in
           case room of
             None \<Rightarrow> (Inr None, s)
           | Some s1 \<Rightarrow> (case bound of
                 Inl e \<Rightarrow> (Inl e, s1)
               | Inr _ \<Rightarrow> (Inr (Some (length (bp_endpoints s1))), new_endpoint now source owner iface s1))))"

definition open_route :: "nat \<Rightarrow> nat \<Rightarrow> socket_addr \<Rightarrow> bypass_pool \<Rightarrow> nat option io_result \<times> bypass_pool" where
  "open_route now i peer s =
     (let ep = bp_endpoints s ! i in
      if ep_closed ep then (Inl (IoError BrokenPipe []), s)
      else if map_of (ep_routes ep) peer \<noteq> None then (Inr None, s)
      else (Inr (Some (length (bp_flows s))), register_flow now i peer s))"

definition open_with ::
  "nat \<Rightarrow> socket_addr \<Rightarrow> socket_addr \<Rightarrow> socket_owner \<Rightarrow> bind_interface \<Rightarrow> unit io_result \<Rightarrow> bypass_pool
     \<Rightarrow> nat option io_result \<times> bypass_pool" where
  "open_with now source peer owner iface bound s =
     (if \<not> same_family source peer \<or> is_multicast (sa_ip peer) \<or> is_unspecified (sa_ip peer)
      then (Inl (IoError InvalidInput []), s)
      else
        let s1 = retain_endpoints (\<lambda>_ ep. \<not> expired now ep) s;
            s2 = (case map_of (bp_pool s1) source of
                    Some i \<Rightarrow> if ep_owner (bp_endpoints s1 ! i) \<noteq> owner
                               \<or> \<not> uses_interface source iface (bp_endpoints s1 ! i)
                             then retire source s1 else s1
                  | None \<Rightarrow> s1) in
        case ensure_endpoint now source owner iface bound s2 of
          (Inr (Some i), s3) \<Rightarrow> open_route now i peer s3
        | (r, s3) \<Rightarrow> (r, s3))"

definition maintain_with :: "nat \<Rightarrow> udp_owners option \<Rightarrow> bind_interface option \<Rightarrow> bypass_pool \<Rightarrow> bypass_pool" where
  "maintain_with now owners iface s =
     (let since = (case owners of
            Some _ \<Rightarrow> None
          | None \<Rightarrow> Some (case bp_owner_failure s of None \<Rightarrow> now | Some t \<Rightarrow> t));
          unknown = (case since of None \<Rightarrow> False | Some t \<Rightarrow> now - t < OWNER_FAILURE_GRACE) in
      retain_endpoints (\<lambda>source ep.
          (unknown \<or> (case owners of None \<Rightarrow> False | Some os \<Rightarrow> udp_owners_get os source = Some (ep_owner ep)))
          \<and> (case iface of None \<Rightarrow> False | Some b \<Rightarrow> uses_interface source b ep)
          \<and> \<not> expired now ep) (s\<lparr>bp_owner_failure := since\<rparr>))"

definition pool_open ::
  "nat \<Rightarrow> udp_owners io_result \<Rightarrow> bind_interface option \<Rightarrow> process_bypass \<Rightarrow> session_policy \<Rightarrow> socket_addr \<Rightarrow> socket_addr
     \<Rightarrow> sock_sys \<Rightarrow> (bool \<Rightarrow> unit io_result) \<Rightarrow> bypass_pool \<Rightarrow> nat option io_result \<times> bypass_pool" where
  "pool_open now owners iface b policy source peer sys ioctl s =
     (let s1 = maintain_with now (case owners of Inr os \<Rightarrow> Some os | Inl _ \<Rightarrow> None) iface s in
      case owners of
        Inl e \<Rightarrow> (Inl e, s1)
      | Inr os \<Rightarrow> (case sp_udp_owner policy of
          None \<Rightarrow> (Inl (IoError PermissionDenied []), s1)
        | Some owner \<Rightarrow>
            if udp_owners_get os source \<noteq> Some owner \<or> \<not> sp_bypass policy \<or> \<not> policy_is_current b policy
            then (Inl (IoError PermissionDenied ''UDP bypass owner or policy changed during setup''), s1)
            else (case iface of
                None \<Rightarrow> (Inl (IoError OtherKind ''UDP bypass physical interface unavailable''), s1)
              | Some i \<Rightarrow> open_with now source peer owner i (bind_shared_udp sys ioctl (\<not> is_ipv4 (sa_ip source)) i) s1)))"

definition shutdown :: "bypass_pool \<Rightarrow> bypass_pool" where
  "shutdown s = (let s1 = retain_endpoints (\<lambda>_ _. False) s in
     s1\<lparr>bp_endpoints := map (\<lambda>ep. ep\<lparr>ep_receiving := False\<rparr>) (bp_endpoints s1)\<rparr>)"

section \<open>The receiver of an endpoint\<close>

datatype receive_event = RecvDatagram socket_addr bytes | RecvError io_error | PolicyChanged

definition stop_receiving :: "nat \<Rightarrow> bypass_pool \<Rightarrow> bypass_pool" where
  "stop_receiving i s = s\<lparr>bp_endpoints := (bp_endpoints s)[i :=
     (close_endpoint (bp_endpoints s ! i))\<lparr>ep_receiving := False\<rparr>]\<rparr>"

definition enqueue :: "nat \<Rightarrow> nat \<Rightarrow> nat \<Rightarrow> bytes \<Rightarrow> bypass_pool \<Rightarrow> bypass_pool" where
  "enqueue now i f bs s =
     (let ep = bp_endpoints s ! i; fl = bp_flows s ! f in
      s\<lparr>bp_flows := (bp_flows s)[f := fl\<lparr>fl_queue := fl_queue fl @ [bs]\<rparr>],
        bp_budget := bp_budget s - permit bs,
        bp_endpoints := (bp_endpoints s)[i := ep\<lparr>ep_last_activity := now\<rparr>]\<rparr>)"

text \<open>One turn of \<^verbatim>\<open>Endpoint::receive\<close>; the first component is the flow that took the datagram.\<close>

definition receive_turn :: "nat \<Rightarrow> nat \<Rightarrow> receive_event \<Rightarrow> bypass_pool \<Rightarrow> nat option \<times> bypass_pool" where
  "receive_turn now i ev s =
     (let ep = bp_endpoints s ! i in
      if ep_closed ep then (None, stop_receiving i s)
      else case ev of
        PolicyChanged \<Rightarrow> (None, stop_receiving i s)
      | RecvError e \<Rightarrow>
          if io_kind e = ConnectionReset \<or> io_kind e = ConnectionRefused then (None, s)
          else (None, stop_receiving i s)
      | RecvDatagram peer bs \<Rightarrow> (case map_of (ep_routes ep) peer of
            None \<Rightarrow> (None, s)
          | Some f \<Rightarrow>
              if permit bs > bp_budget s \<or> length (fl_queue (bp_flows s ! f)) \<ge> PEER_QUEUE then (None, s)
              else (Some f, enqueue now i f bs s)))"

section \<open>The relay of a flow\<close>

definition end_flow :: "nat \<Rightarrow> bypass_pool \<Rightarrow> bypass_pool" where
  "end_flow f s =
     (let fl = bp_flows s ! f; i = fl_endpoint fl; ep = bp_endpoints s ! i in
      s\<lparr>bp_endpoints := (bp_endpoints s)[i := ep\<lparr>ep_routes := filter (\<lambda>r. fst r \<noteq> fl_peer fl) (ep_routes ep)\<rparr>],
        bp_flows := (bp_flows s)[f := fl\<lparr>fl_queue := [], fl_phase := Ended\<rparr>],
        bp_budget := bp_budget s + sum_list (map permit (fl_queue fl))\<rparr>)"

definition set_phase :: "nat \<Rightarrow> flow_phase \<Rightarrow> bypass_pool \<Rightarrow> bypass_pool" where
  "set_phase f ph s = s\<lparr>bp_flows := (bp_flows s)[f := (bp_flows s ! f)\<lparr>fl_phase := ph\<rparr>]\<rparr>"

text \<open>
  What the relay's wait yields: the endpoint was closed, a datagram of the application or the end of
  its stream, or the queue of replies.  \<^verbatim>\<open>injected\<close> is the outcome of handing a reply to the
  application and \<^verbatim>\<open>stat_ok\<close> that of the traffic statistics.
\<close>

datatype relay_event = RelayClosed | RelayLocal "bytes option io_result" | RelayReply

datatype bypass_label =
    Quiet | Accepted nat nat socket_addr bytes | Injected nat bytes | SentTo nat bytes

definition flow_closed :: "nat \<Rightarrow> bypass_pool \<Rightarrow> bool" where
  "flow_closed f s = ep_closed (bp_endpoints s ! fl_endpoint (bp_flows s ! f))"

definition pop_reply :: "nat \<Rightarrow> bypass_pool \<Rightarrow> bypass_pool" where
  "pop_reply f s = (let fl = bp_flows s ! f in
     s\<lparr>bp_flows := (bp_flows s)[f := fl\<lparr>fl_queue := tl (fl_queue fl)\<rparr>],
       bp_budget := bp_budget s + permit (hd (fl_queue fl))\<rparr>)"

definition relay_turn ::
  "nat \<Rightarrow> relay_event \<Rightarrow> bool \<Rightarrow> bool \<Rightarrow> bypass_pool \<Rightarrow> bypass_label \<times> bypass_pool" where
  "relay_turn f ev injected stat_ok s =
     (let fl = bp_flows s ! f in
      case ev of
        RelayClosed \<Rightarrow> if flow_closed f s then (Quiet, end_flow f s) else (Quiet, s)
      | RelayLocal (Inr (Some payload)) \<Rightarrow> (Quiet, set_phase f (Sending payload) s)
      | RelayLocal _ \<Rightarrow> (Quiet, end_flow f s)
      | RelayReply \<Rightarrow> (case fl_queue fl of
            [] \<Rightarrow> if map_of (ep_routes (bp_endpoints s ! fl_endpoint fl)) (fl_peer fl) = Some f
                  then (Quiet, s) else (Quiet, end_flow f s)
          | bs # _ \<Rightarrow>
              (let s1 = pop_reply f s in
               if flow_closed f s then (Quiet, end_flow f s1)
               else if \<not> injected then (Quiet, end_flow f s1)
               else (Injected f bs, if stat_ok then s1 else end_flow f s1))))"

definition send_turn ::
  "nat \<Rightarrow> nat \<Rightarrow> unit io_result \<Rightarrow> unit io_result \<Rightarrow> bool \<Rightarrow> bypass_pool \<Rightarrow> bypass_label \<times> bypass_pool" where
  "send_turn now f writable outcome stat_ok s =
     (let fl = bp_flows s ! f; i = fl_endpoint fl; ep = bp_endpoints s ! i in
      case fl_phase fl of
        Sending payload \<Rightarrow>
          if ep_closed ep then (Quiet, end_flow f s)
          else (case writable of
              Inl e \<Rightarrow> (Quiet, end_flow f s)
            | Inr _ \<Rightarrow> (case outcome of
                Inl e \<Rightarrow> if io_kind e = WouldBlock then (Quiet, s) else (Quiet, end_flow f s)
              | Inr _ \<Rightarrow>
                  (let s1 = set_phase f Selecting
                         (s\<lparr>bp_endpoints := (bp_endpoints s)[i := ep\<lparr>ep_last_activity := now\<rparr>]\<rparr>) in
                   (SentTo f payload, if stat_ok then s1 else end_flow f s1))))
      | _ \<Rightarrow> (Quiet, s))"

section \<open>Interleaving\<close>

inductive bypass_step :: "bypass_pool \<Rightarrow> bypass_label \<Rightarrow> bypass_pool \<Rightarrow> bool" where
  opened: "bypass_step s Quiet (snd (pool_open now owners iface b policy source peer sys ioctl s))"
| maintained: "bypass_step s Quiet (maintain_with now owners iface s)"
| shut: "bypass_step s Quiet (shutdown s)"
| received: "i < length (bp_endpoints s) \<Longrightarrow> ep_receiving (bp_endpoints s ! i)
    \<Longrightarrow> receive_turn now i (RecvDatagram peer bs) s = (Some f, s')
    \<Longrightarrow> bypass_step s (Accepted f i peer bs) s'"
| receiver: "i < length (bp_endpoints s) \<Longrightarrow> ep_receiving (bp_endpoints s ! i)
    \<Longrightarrow> receive_turn now i ev s = (None, s') \<Longrightarrow> bypass_step s Quiet s'"
| relayed: "f < length (bp_flows s) \<Longrightarrow> fl_phase (bp_flows s ! f) = Selecting
    \<Longrightarrow> relay_turn f ev injected stat_ok s = (l, s') \<Longrightarrow> bypass_step s l s'"
| sending: "f < length (bp_flows s) \<Longrightarrow> fl_phase (bp_flows s ! f) \<noteq> Ended
    \<Longrightarrow> send_turn now f writable outcome stat_ok s = (l, s') \<Longrightarrow> bypass_step s l s'"
| dropped: "f < length (bp_flows s) \<Longrightarrow> fl_phase (bp_flows s ! f) \<noteq> Ended
    \<Longrightarrow> bypass_step s Quiet (end_flow f s)"

inductive bypass_steps :: "bypass_pool \<Rightarrow> bypass_label list \<Rightarrow> bypass_pool \<Rightarrow> bool" where
  no_step: "bypass_steps s [] s"
| more_steps: "bypass_steps s tr s' \<Longrightarrow> bypass_step s' l s'' \<Longrightarrow> bypass_steps s (tr @ [l]) s''"

inductive_cases bypass_stepE: "bypass_step s l s'"

section \<open>The invariant\<close>

text \<open>
  The pool has at most one endpoint for a source and respects its limit; an endpoint that is not
  closed is in it.  A route of an endpoint and a flow that has not ended belong to each other, so two
  flows never share a peer of one endpoint.  Queues are bounded, and every permit of the byte budget
  is either free or held by a queued datagram.
\<close>

definition pool_ok :: "bypass_pool \<Rightarrow> bool" where
  "pool_ok s = (distinct (map fst (bp_pool s)) \<and> distinct (map snd (bp_pool s))
     \<and> (\<forall>e \<in> set (bp_pool s). snd e < length (bp_endpoints s)) \<and> length (bp_pool s) \<le> bp_limit s
     \<and> (\<forall>i < length (bp_endpoints s). \<not> ep_closed (bp_endpoints s ! i) \<longrightarrow> i \<in> snd ` set (bp_pool s)))"

definition route_ok :: "flow list \<Rightarrow> nat \<Rightarrow> socket_addr \<times> nat \<Rightarrow> bool" where
  "route_ok flows i r = (snd r < length flows \<and> fl_endpoint (flows ! snd r) = i
     \<and> fl_peer (flows ! snd r) = fst r \<and> fl_phase (flows ! snd r) \<noteq> Ended)"

definition endpoint_ok :: "flow list \<Rightarrow> nat \<Rightarrow> endpoint \<Rightarrow> bool" where
  "endpoint_ok flows i ep = ((ep_closed ep \<longrightarrow> ep_routes ep = []) \<and> distinct (map fst (ep_routes ep))
     \<and> (\<forall>r \<in> set (ep_routes ep). route_ok flows i r))"

definition flow_ok :: "endpoint list \<Rightarrow> nat \<Rightarrow> flow \<Rightarrow> bool" where
  "flow_ok eps f fl = (fl_endpoint fl < length eps \<and> length (fl_queue fl) \<le> PEER_QUEUE
     \<and> (fl_phase fl = Ended \<longrightarrow> fl_queue fl = [])
     \<and> (fl_phase fl \<noteq> Ended \<longrightarrow> \<not> ep_closed (eps ! fl_endpoint fl)
          \<longrightarrow> (fl_peer fl, f) \<in> set (ep_routes (eps ! fl_endpoint fl))))"

definition queued :: "flow \<Rightarrow> nat" where
  "queued fl = sum_list (map permit (fl_queue fl))"

definition budget_ok :: "bypass_pool \<Rightarrow> bool" where
  "budget_ok s = (bp_budget s + sum_list (map queued (bp_flows s)) = QUEUED_BYTES)"

definition bypass_inv :: "bypass_pool \<Rightarrow> bool" where
  "bypass_inv s = (pool_ok s \<and> budget_ok s
     \<and> (\<forall>i < length (bp_endpoints s). endpoint_ok (bp_flows s) i (bp_endpoints s ! i))
     \<and> (\<forall>f < length (bp_flows s). flow_ok (bp_endpoints s) f (bp_flows s ! f)))"

lemma bypass_inv_new: "bypass_inv (pool_new limit)"
  by (simp add: bypass_inv_def pool_ok_def budget_ok_def pool_new_def)

subsection \<open>Closing and touching endpoints\<close>

text \<open>What happens to an endpoint apart from its routes: nothing, or it is closed.\<close>

definition closes :: "endpoint \<Rightarrow> endpoint \<Rightarrow> bool" where
  "closes ep ep' = ((ep_closed ep' = ep_closed ep \<and> ep_routes ep' = ep_routes ep)
     \<or> (ep_closed ep' \<and> ep_routes ep' = []))"

lemma closes_refl [simp]: "closes ep ep"
  by (simp add: closes_def)

lemma closes_close [simp]: "closes ep (close_endpoint ep)"
  by (simp add: closes_def close_endpoint_def)

lemma close_close [simp]: "close_endpoint (close_endpoint ep) = close_endpoint ep"
  by (simp add: close_endpoint_def)

lemma closes_endpoint_ok: "endpoint_ok flows i ep \<Longrightarrow> closes ep ep' \<Longrightarrow> endpoint_ok flows i ep'"
  by (auto simp: endpoint_ok_def closes_def)

lemma closes_flow_ok:
  assumes "flow_ok eps f fl" "length eps' = length eps" "\<forall>i < length eps. closes (eps ! i) (eps' ! i)"
  shows "flow_ok eps' f fl"
  using assms by (auto simp: flow_ok_def closes_def)

lemma inv_endpoints:
  assumes inv: "bypass_inv s" and len: "length eps = length (bp_endpoints s)"
    and cl: "\<forall>i < length eps. closes (bp_endpoints s ! i) (eps ! i)"
    and dropped: "\<forall>e \<in> set (bp_pool s). \<not> P e \<longrightarrow> ep_closed (eps ! snd e)"
  shows "bypass_inv (s\<lparr>bp_pool := filter P (bp_pool s), bp_endpoints := eps\<rparr>)"
proof -
  have pool: "pool_ok s" and eps: "\<forall>i < length eps. endpoint_ok (bp_flows s) i (bp_endpoints s ! i)"
    and fls: "\<forall>f < length (bp_flows s). flow_ok (bp_endpoints s) f (bp_flows s ! f)"
    using inv len by (auto simp: bypass_inv_def)
  have "i \<in> snd ` set (filter P (bp_pool s))" if "i < length eps" "\<not> ep_closed (eps ! i)" for i
  proof -
    have "\<not> ep_closed (bp_endpoints s ! i)" using cl that by (auto simp: closes_def)
    then have "i \<in> snd ` set (bp_pool s)" using pool that len by (simp add: pool_ok_def)
    then obtain e where "e \<in> set (bp_pool s)" "i = snd e" by blast
    then show ?thesis using dropped that by auto
  qed
  moreover have "distinct (map fst (filter P (bp_pool s)))" "distinct (map snd (filter P (bp_pool s)))"
    "length (filter P (bp_pool s)) \<le> bp_limit s"
    using pool by (auto simp: pool_ok_def distinct_map_filter intro: order_trans [OF length_filter_le])
  ultimately have "pool_ok (s\<lparr>bp_pool := filter P (bp_pool s), bp_endpoints := eps\<rparr>)"
    using pool len by (auto simp: pool_ok_def)
  moreover have "\<forall>i < length eps. endpoint_ok (bp_flows s) i (eps ! i)"
    using eps cl closes_endpoint_ok by blast
  moreover have "\<forall>f < length (bp_flows s). flow_ok eps f (bp_flows s ! f)"
    using fls cl len closes_flow_ok by auto
  ultimately show ?thesis using inv by (simp add: bypass_inv_def budget_ok_def)
qed

lemma inv_touch:
  assumes "bypass_inv s" "length eps = length (bp_endpoints s)" "\<forall>i < length eps. closes (bp_endpoints s ! i) (eps ! i)"
  shows "bypass_inv (s\<lparr>bp_endpoints := eps\<rparr>)"
  using inv_endpoints [OF assms, of "\<lambda>_. True"] by simp

lemma closes_update:
  "closes (eps ! i) ep' \<Longrightarrow> \<forall>j < length eps. closes (eps ! j) (eps[i := ep'] ! j)"
  by (cases "i < length eps") (auto simp: nth_list_update)

lemma inv_touch_one:
  assumes "bypass_inv s" "closes (bp_endpoints s ! i) ep'"
  shows "bypass_inv (s\<lparr>bp_endpoints := (bp_endpoints s)[i := ep']\<rparr>)"
proof (rule inv_touch [OF assms(1)])
  show "\<forall>j < length ((bp_endpoints s)[i := ep']). closes (bp_endpoints s ! j) ((bp_endpoints s)[i := ep'] ! j)"
    using closes_update [OF assms(2)] by simp
qed simp

lemma retain_spec:
  assumes "retain keep entries eps = (kept, eps')" "distinct (map snd entries)" "\<forall>e \<in> set entries. snd e < length eps"
  shows "length eps' = length eps \<and> kept = filter (\<lambda>(source, i). keep source (eps ! i)) entries
    \<and> (\<forall>i < length eps. eps' ! i = (if \<exists>e \<in> set entries. snd e = i \<and> \<not> keep (fst e) (eps ! i)
         then close_endpoint (eps ! i) else eps ! i))"
  using assms
proof (induction keep entries eps arbitrary: kept eps' rule: retain.induct)
  case (2 keep source j entries eps)
  show ?case
  proof (cases "keep source (eps ! j)")
    case True
    obtain kept1 where rest: "retain keep entries eps = (kept1, eps')" and kept: "kept = (source, j) # kept1"
      using 2(3) True by (auto split: prod.splits)
    from 2(1) [OF True rest] 2(4,5) True kept show ?thesis by auto
  next
    case False
    let ?eps = "eps[j := close_endpoint (eps ! j)]"
    have rest: "retain keep entries ?eps = (kept, eps')" using 2(3) False by simp
    have IH: "length eps' = length eps" "kept = filter (\<lambda>(source, i). keep source (?eps ! i)) entries"
        "\<forall>i < length eps. eps' ! i = (if \<exists>e \<in> set entries. snd e = i \<and> \<not> keep (fst e) (?eps ! i)
           then close_endpoint (?eps ! i) else ?eps ! i)"
      using 2(2) [OF False rest] 2(4,5) by auto
    have other: "snd e \<noteq> j" if "e \<in> set entries" for e using that 2(4) by auto
    have "kept = filter (\<lambda>(source, i). keep source (eps ! i)) entries"
    proof -
      have "?eps ! snd e = eps ! snd e" if "e \<in> set entries" for e
        using other [OF that] by (metis nth_list_update_neq)
      then show ?thesis unfolding IH(2) by (intro filter_cong) fastforce+
    qed
    moreover have "eps' ! i = (if \<exists>e \<in> set ((source, j) # entries). snd e = i \<and> \<not> keep (fst e) (eps ! i)
         then close_endpoint (eps ! i) else eps ! i)" if "i < length eps" for i
    proof (cases "i = j")
      case True
      then have "\<not> (\<exists>e \<in> set entries. snd e = i \<and> \<not> keep (fst e) (?eps ! i))" using other by auto
      then show ?thesis using IH(3) that True False by simp
    next
      case False
      then have "?eps ! i = eps ! i" by simp
      then show ?thesis using IH(3) that False by auto
    qed
    ultimately show ?thesis using IH(1) False by simp
  qed
qed simp

lemma retain_endpoints_spec:
  assumes "pool_ok s"
  obtains eps where "retain_endpoints keep s
      = s\<lparr>bp_pool := filter (\<lambda>(source, i). keep source (bp_endpoints s ! i)) (bp_pool s), bp_endpoints := eps\<rparr>"
    "length eps = length (bp_endpoints s)"
    "\<forall>i < length eps. closes (bp_endpoints s ! i) (eps ! i) \<and> (eps ! i = bp_endpoints s ! i \<or> ep_closed (eps ! i))"
    "\<forall>e \<in> set (bp_pool s). \<not> (case e of (source, i) \<Rightarrow> keep source (bp_endpoints s ! i)) \<longrightarrow> ep_closed (eps ! snd e)"
proof -
  obtain kept eps where r: "retain keep (bp_pool s) (bp_endpoints s) = (kept, eps)"
    by (cases "retain keep (bp_pool s) (bp_endpoints s)")
  have ok: "distinct (map snd (bp_pool s))" "\<forall>e \<in> set (bp_pool s). snd e < length (bp_endpoints s)"
    using assms by (auto simp: pool_ok_def)
  note spec = retain_spec [OF r ok]
  show thesis
  proof (rule that [of eps])
    show "retain_endpoints keep s
      = s\<lparr>bp_pool := filter (\<lambda>(source, i). keep source (bp_endpoints s ! i)) (bp_pool s), bp_endpoints := eps\<rparr>"
      using r spec by (simp add: retain_endpoints_def)
    show "length eps = length (bp_endpoints s)" using spec by simp
    show "\<forall>i < length eps. closes (bp_endpoints s ! i) (eps ! i) \<and> (eps ! i = bp_endpoints s ! i \<or> ep_closed (eps ! i))"
      using spec by (auto simp: close_endpoint_def closes_def)
    show "\<forall>e \<in> set (bp_pool s). \<not> (case e of (source, i) \<Rightarrow> keep source (bp_endpoints s ! i)) \<longrightarrow> ep_closed (eps ! snd e)"
    proof (intro ballI impI)
      fix e
      assume e: "e \<in> set (bp_pool s)" "\<not> (case e of (source, i) \<Rightarrow> keep source (bp_endpoints s ! i))"
      then have "snd e < length (bp_endpoints s)" using ok by blast
      moreover have "\<exists>e' \<in> set (bp_pool s). snd e' = snd e \<and> \<not> keep (fst e') (bp_endpoints s ! snd e)"
        using e by (intro bexI [of _ e]) (auto split: prod.splits)
      ultimately have "eps ! snd e = close_endpoint (bp_endpoints s ! snd e)" using spec by simp
      then show "ep_closed (eps ! snd e)" by (simp add: close_endpoint_def)
    qed
  qed
qed

lemma retain_endpoints_inv: "bypass_inv s \<Longrightarrow> bypass_inv (retain_endpoints keep s)"
proof -
  assume inv: "bypass_inv s"
  then have "pool_ok s" by (simp add: bypass_inv_def)
  then obtain eps where eps: "retain_endpoints keep s
      = s\<lparr>bp_pool := filter (\<lambda>(source, i). keep source (bp_endpoints s ! i)) (bp_pool s), bp_endpoints := eps\<rparr>"
    "length eps = length (bp_endpoints s)"
    "\<forall>i < length eps. closes (bp_endpoints s ! i) (eps ! i) \<and> (eps ! i = bp_endpoints s ! i \<or> ep_closed (eps ! i))"
    "\<forall>e \<in> set (bp_pool s). \<not> (case e of (source, i) \<Rightarrow> keep source (bp_endpoints s ! i)) \<longrightarrow> ep_closed (eps ! snd e)"
    by (rule retain_endpoints_spec)
  show ?thesis unfolding eps(1) using eps by (intro inv_endpoints [OF inv]) auto
qed

lemma retire_inv: "bypass_inv s \<Longrightarrow> bypass_inv (retire source s)"
proof (cases "map_of (bp_pool s) source")
  case (Some i)
  assume inv: "bypass_inv s"
  have "(source, i) \<in> set (bp_pool s)" using Some by (rule map_of_SomeD)
  moreover have "distinct (map fst (bp_pool s))" "\<forall>e \<in> set (bp_pool s). snd e < length (bp_endpoints s)"
    using inv by (auto simp: bypass_inv_def pool_ok_def)
  ultimately have "snd e = i \<and> i < length (bp_endpoints s)" if "e \<in> set (bp_pool s)" "fst e = source" for e
    using that by (metis Some map_of_eq_Some_iff prod.collapse option.inject snd_conv)
  then have "\<forall>e \<in> set (bp_pool s). \<not> fst e \<noteq> source \<longrightarrow>
      ep_closed ((bp_endpoints s)[i := close_endpoint (bp_endpoints s ! i)] ! snd e)"
    by (auto simp: close_endpoint_def)
  then have "bypass_inv (s\<lparr>bp_pool := filter (\<lambda>e. fst e \<noteq> source) (bp_pool s),
      bp_endpoints := (bp_endpoints s)[i := close_endpoint (bp_endpoints s ! i)]\<rparr>)"
    by (intro inv_endpoints [OF inv]) (auto intro: closes_update [OF closes_close, rule_format])
  then show ?thesis using Some by (simp add: retire_def)
qed (simp add: retire_def)

subsection \<open>New endpoints and flows\<close>

lemma new_endpoint_inv:
  assumes inv: "bypass_inv s" and fresh: "map_of (bp_pool s) source = None" and room: "length (bp_pool s) < bp_limit s"
  shows "bypass_inv (new_endpoint now source owner iface s)"
proof -
  let ?s = "new_endpoint now source owner iface s" and ?n = "length (bp_endpoints s)"
  have pool: "pool_ok s" using inv by (simp add: bypass_inv_def)
  then have "source \<notin> fst ` set (bp_pool s)" "?n \<notin> snd ` set (bp_pool s)"
    using fresh by (auto simp: pool_ok_def map_of_eq_None_iff)
  then have "pool_ok ?s" using pool room by (auto simp: pool_ok_def new_endpoint_def nth_append less_Suc_eq)
  moreover have "endpoint_ok (bp_flows s) i (bp_endpoints ?s ! i)" if "i < length (bp_endpoints ?s)" for i
    using inv that by (auto simp: bypass_inv_def new_endpoint_def nth_append less_Suc_eq endpoint_ok_def)
  moreover have "flow_ok (bp_endpoints ?s) f (bp_flows s ! f)" if "f < length (bp_flows s)" for f
    using inv that by (auto simp: bypass_inv_def flow_ok_def new_endpoint_def nth_append)
  ultimately show ?thesis using inv by (auto simp: bypass_inv_def budget_ok_def new_endpoint_def)
qed

lemma nth_update_all: "P j (xs ! j) \<Longrightarrow> P i x \<Longrightarrow> j < length xs \<Longrightarrow> P j (xs[i := x] ! j)"
  by (cases "i = j") auto

lemma route_ok_append: "route_ok flows i r \<Longrightarrow> route_ok (flows @ new) i r"
  by (auto simp: route_ok_def nth_append)

lemma register_flow_inv:
  assumes inv: "bypass_inv s" and i: "i < length (bp_endpoints s)" "\<not> ep_closed (bp_endpoints s ! i)"
    and fresh: "map_of (ep_routes (bp_endpoints s ! i)) peer = None"
  shows "bypass_inv (register_flow now i peer s)"
proof -
  let ?s = "register_flow now i peer s" and ?ep = "bp_endpoints s ! i"
  define fl where "fl = \<lparr>fl_endpoint = i, fl_peer = peer, fl_queue = [], fl_phase = Selecting\<rparr>"
  define ep' where "ep' = ?ep\<lparr>ep_routes := (peer, length (bp_flows s)) # ep_routes ?ep, ep_last_activity := now\<rparr>"
  have s': "?s = s\<lparr>bp_endpoints := (bp_endpoints s)[i := ep'], bp_flows := bp_flows s @ [fl]\<rparr>"
    by (simp add: register_flow_def Let_def fl_def ep'_def)
  have old: "endpoint_ok (bp_flows s @ [fl]) j (bp_endpoints s ! j)" if "j < length (bp_endpoints s)" for j
    using inv that by (auto simp: bypass_inv_def endpoint_ok_def intro: route_ok_append)
  have "endpoint_ok (bp_flows s @ [fl]) i ep'"
    using old [OF i(1)] i(2) fresh
    by (auto simp: endpoint_ok_def ep'_def map_of_eq_None_iff route_ok_def [of _ _ "(peer, length (bp_flows s))"] fl_def)
  then have "\<forall>j < length (bp_endpoints s). endpoint_ok (bp_flows s @ [fl]) j ((bp_endpoints s)[i := ep'] ! j)"
    using old nth_update_all [of "endpoint_ok (bp_flows s @ [fl])"] by blast
  moreover have "\<forall>f < Suc (length (bp_flows s)). flow_ok ((bp_endpoints s)[i := ep']) f ((bp_flows s @ [fl]) ! f)"
  proof (intro allI impI)
    fix f
    assume f: "f < Suc (length (bp_flows s))"
    show "flow_ok ((bp_endpoints s)[i := ep']) f ((bp_flows s @ [fl]) ! f)"
    proof (cases "f = length (bp_flows s)")
      case True
      then show ?thesis using i by (auto simp: flow_ok_def fl_def ep'_def PEER_QUEUE_def)
    next
      case False
      then have "flow_ok (bp_endpoints s) f (bp_flows s ! f)" using inv f by (auto simp: bypass_inv_def)
      then show ?thesis using False f i(1) by (auto simp: flow_ok_def nth_append nth_list_update ep'_def)
    qed
  qed
  moreover have "pool_ok ?s" using inv i by (auto simp: bypass_inv_def pool_ok_def s' nth_list_update ep'_def)
  moreover have "budget_ok ?s" using inv by (simp add: bypass_inv_def budget_ok_def s' fl_def queued_def)
  ultimately show ?thesis by (simp add: bypass_inv_def s')
qed

lemma oldest_idle_in_pool:
  assumes "oldest_idle s = Some source"
  shows "source \<in> fst ` set (bp_pool s)"
proof -
  obtain e where e: "first_min (\<lambda>(source, i). ep_last_activity (bp_endpoints s ! i))
     (filter (\<lambda>(source, i). ep_routes (bp_endpoints s ! i) = []) (bp_pool s)) = Some e" "source = fst e"
    using assms by (auto simp: oldest_idle_def)
  from first_min_Some [OF e(1)] have "e \<in> set (bp_pool s)" by simp
  then show ?thesis using e(2) by simp
qed

lemma retire_length:
  assumes "source \<in> fst ` set (bp_pool s)"
  shows "length (bp_pool (retire source s)) < length (bp_pool s)"
proof -
  obtain i where "map_of (bp_pool s) source = Some i" using assms by (metis domIff dom_map_of_conv_image_fst not_Some_eq)
  moreover have "length (filter (\<lambda>e. fst e \<noteq> source) (bp_pool s)) < length (bp_pool s)"
  proof -
    obtain e where "e \<in> set (bp_pool s)" "\<not> fst e \<noteq> source" using assms by blast
    then show ?thesis by (rule length_filter_less)
  qed
  ultimately show ?thesis by (simp add: retire_def)
qed

lemma retire_keeps:
  "bp_limit (retire source s) = bp_limit s"
  "map_of (bp_pool s) q = None \<Longrightarrow> map_of (bp_pool (retire source s)) q = None"
  by (auto simp: retire_def map_of_eq_None_iff split: option.splits)

lemma ensure_endpoint_inv:
  assumes "bypass_inv s" and "ensure_endpoint now source owner iface bound s = (r, s')"
  shows "bypass_inv s' \<and> (\<forall>i. r = Inr (Some i) \<longrightarrow> i < length (bp_endpoints s'))"
proof (cases "map_of (bp_pool s) source")
  case (Some i)
  then have "r = Inr (Some i)" "s' = s" using assms by (auto simp: ensure_endpoint_def)
  moreover have "i < length (bp_endpoints s)"
    using assms(1) map_of_SomeD [OF Some] by (auto simp: bypass_inv_def pool_ok_def)
  ultimately show ?thesis using assms(1) by auto
next
  case None
  define room where "room = (if length (bp_pool s) \<ge> bp_limit s
    then map_option (\<lambda>oldest. retire oldest s) (oldest_idle s) else Some s)"
  show ?thesis
  proof (cases room)
    case N: None
    then show ?thesis using None assms by (auto simp: ensure_endpoint_def Let_def room_def [symmetric])
  next
    case S: (Some s1)
    have "bypass_inv s1 \<and> map_of (bp_pool s1) source = None \<and> length (bp_pool s1) < bp_limit s1"
    proof (cases "length (bp_pool s) \<ge> bp_limit s")
      case True
      then obtain oldest where o: "oldest_idle s = Some oldest" "s1 = retire oldest s"
        using S by (auto simp: room_def)
      have "length (bp_pool s) \<le> bp_limit s" using assms(1) by (simp add: bypass_inv_def pool_ok_def)
      then show ?thesis
        using o retire_inv [OF assms(1)] retire_keeps None retire_length [OF oldest_idle_in_pool [OF o(1)]] by simp
    next
      case False
      then show ?thesis using S assms(1) None by (simp add: room_def)
    qed
    then show ?thesis
      using S None assms(2) new_endpoint_inv
      by (cases bound) (auto simp: ensure_endpoint_def Let_def room_def [symmetric] new_endpoint_def)
  qed
qed

lemma open_route_inv:
  assumes "bypass_inv s" "i < length (bp_endpoints s)"
  shows "bypass_inv (snd (open_route now i peer s))"
  using assms register_flow_inv by (auto simp: open_route_def Let_def)

lemma open_with_inv:
  assumes inv: "bypass_inv s"
  shows "bypass_inv (snd (open_with now source peer owner iface bound s))"
proof (cases "\<not> same_family source peer \<or> is_multicast (sa_ip peer) \<or> is_unspecified (sa_ip peer)")
  case False
  define s1 where "s1 = retain_endpoints (\<lambda>_ ep. \<not> expired now ep) s"
  define s2 where "s2 = (case map_of (bp_pool s1) source of
      Some i \<Rightarrow> if ep_owner (bp_endpoints s1 ! i) \<noteq> owner \<or> \<not> uses_interface source iface (bp_endpoints s1 ! i)
               then retire source s1 else s1
    | None \<Rightarrow> s1)"
  have "bypass_inv s1" unfolding s1_def using inv by (rule retain_endpoints_inv)
  then have s2: "bypass_inv s2" using retire_inv by (auto simp: s2_def split: option.split)
  obtain r s3 where e: "ensure_endpoint now source owner iface bound s2 = (r, s3)"
    by (cases "ensure_endpoint now source owner iface bound s2")
  have o: "open_with now source peer owner iface bound s
      = (case (r, s3) of (Inr (Some i), s3) \<Rightarrow> open_route now i peer s3 | (r, s3) \<Rightarrow> (r, s3))"
    unfolding e [symmetric] s2_def s1_def using False by (simp add: open_with_def Let_def)
  show ?thesis
    using ensure_endpoint_inv [OF s2 e] open_route_inv unfolding o by (auto split: sum.split option.split)
qed (use inv in \<open>auto simp: open_with_def\<close>)

lemma maintain_with_inv: "bypass_inv s \<Longrightarrow> bypass_inv (maintain_with now owners iface s)"
proof -
  assume "bypass_inv s"
  then have "bypass_inv (s\<lparr>bp_owner_failure := since\<rparr>)" for since
    by (simp add: bypass_inv_def pool_ok_def budget_ok_def)
  then show ?thesis by (simp add: maintain_with_def Let_def retain_endpoints_inv)
qed

lemma pool_open_inv:
  assumes "bypass_inv s"
  shows "bypass_inv (snd (pool_open now owners iface b policy source peer sys ioctl s))"
  using maintain_with_inv [OF assms] open_with_inv
  by (simp add: pool_open_def Let_def split: sum.split option.split)

lemma shutdown_inv: "bypass_inv s \<Longrightarrow> bypass_inv (shutdown s)"
proof -
  assume "bypass_inv s"
  then have "bypass_inv (retain_endpoints (\<lambda>_ _. False) s)" by (rule retain_endpoints_inv)
  then show ?thesis unfolding shutdown_def Let_def by (rule inv_touch) (auto simp: closes_def)
qed

lemma stop_receiving_inv: "bypass_inv s \<Longrightarrow> bypass_inv (stop_receiving i s)"
  unfolding stop_receiving_def by (rule inv_touch_one) (auto simp: closes_def close_endpoint_def)

subsection \<open>Queues and the end of flows\<close>

lemma sum_queued_update:
  "f < length flows \<Longrightarrow>
   sum_list (map queued (flows[f := fl])) + queued (flows ! f) = sum_list (map queued flows) + queued fl"
  by (induction flows arbitrary: f) (auto split: nat.split)

lemma queued_le: "f < length flows \<Longrightarrow> queued (flows ! f) \<le> sum_list (map queued flows)"
  by (metis elem_le_sum_list length_map nth_map)

lemma route_ok_update:
  assumes "route_ok flows i r" "f < length flows"
    and "fl_endpoint fl = fl_endpoint (flows ! f)" "fl_peer fl = fl_peer (flows ! f)"
    and "fl_phase (flows ! f) \<noteq> Ended \<Longrightarrow> fl_phase fl \<noteq> Ended"
  shows "route_ok (flows[f := fl]) i r"
  using assms by (cases "snd r = f") (auto simp: route_ok_def)

text \<open>A flow whose queue or phase changes, but which neither ends nor begins.\<close>

lemma inv_flow:
  assumes inv: "bypass_inv s" and f: "f < length (bp_flows s)"
    and same: "fl_endpoint fl = fl_endpoint (bp_flows s ! f)" "fl_peer fl = fl_peer (bp_flows s ! f)"
    and phase: "fl_phase (bp_flows s ! f) \<noteq> Ended" "fl_phase fl \<noteq> Ended" and q: "length (fl_queue fl) \<le> PEER_QUEUE"
    and budget: "budget + queued fl = bp_budget s + queued (bp_flows s ! f)"
  shows "bypass_inv (s\<lparr>bp_flows := (bp_flows s)[f := fl], bp_budget := budget\<rparr>)"
proof -
  let ?flows = "(bp_flows s)[f := fl]"
  have "\<forall>i < length (bp_endpoints s). endpoint_ok ?flows i (bp_endpoints s ! i)"
    using inv f same phase by (auto simp: bypass_inv_def endpoint_ok_def intro: route_ok_update)
  moreover have "flow_ok (bp_endpoints s) g (?flows ! g)" if "g < length (bp_flows s)" for g
    using inv f that same phase q by (cases "g = f") (auto simp: bypass_inv_def flow_ok_def)
  moreover have "budget + sum_list (map queued ?flows) = QUEUED_BYTES"
    using inv budget sum_queued_update [OF f, of fl] by (simp add: bypass_inv_def budget_ok_def)
  moreover have "pool_ok s" using inv by (simp add: bypass_inv_def)
  ultimately show ?thesis by (simp add: bypass_inv_def budget_ok_def pool_ok_def)
qed

lemma set_phase_inv:
  assumes "bypass_inv s" "f < length (bp_flows s)" "fl_phase (bp_flows s ! f) \<noteq> Ended" "ph \<noteq> Ended"
  shows "bypass_inv (set_phase f ph s)"
proof -
  have "length (fl_queue (bp_flows s ! f)) \<le> PEER_QUEUE"
    using assms by (auto simp: bypass_inv_def flow_ok_def)
  then have "bypass_inv (s\<lparr>bp_flows := (bp_flows s)[f := (bp_flows s ! f)\<lparr>fl_phase := ph\<rparr>], bp_budget := bp_budget s\<rparr>)"
    using assms by (intro inv_flow) (auto simp: queued_def)
  then show ?thesis by (simp add: set_phase_def)
qed

lemma pop_reply_inv:
  assumes "bypass_inv s" "f < length (bp_flows s)" "fl_phase (bp_flows s ! f) \<noteq> Ended" "fl_queue (bp_flows s ! f) = bs # rest"
  shows "bypass_inv (pop_reply f s)"
proof -
  have "length (fl_queue (bp_flows s ! f)) \<le> PEER_QUEUE"
    using assms by (auto simp: bypass_inv_def flow_ok_def)
  then show ?thesis unfolding pop_reply_def Let_def
    using assms by (intro inv_flow) (auto simp: queued_def)
qed

lemma enqueue_pool_inv:
  assumes inv: "bypass_inv s" and i: "i < length (bp_endpoints s)" "map_of (ep_routes (bp_endpoints s ! i)) peer = Some f"
    and room: "permit bs \<le> bp_budget s" "length (fl_queue (bp_flows s ! f)) < PEER_QUEUE"
  shows "bypass_inv (enqueue now i f bs s)"
proof -
  have "route_ok (bp_flows s) i (peer, f)"
    using inv i map_of_SomeD [OF i(2)] by (auto simp: bypass_inv_def endpoint_ok_def)
  then have f: "f < length (bp_flows s)" "fl_phase (bp_flows s ! f) \<noteq> Ended" by (simp_all add: route_ok_def)
  have "bypass_inv (s\<lparr>bp_flows := (bp_flows s)[f := (bp_flows s ! f)\<lparr>fl_queue := fl_queue (bp_flows s ! f) @ [bs]\<rparr>],
      bp_budget := bp_budget s - permit bs\<rparr>)"
    using inv f room by (intro inv_flow) (auto simp: queued_def)
  from inv_touch_one [OF this, of i "(bp_endpoints s ! i)\<lparr>ep_last_activity := now\<rparr>"]
  show ?thesis by (simp add: enqueue_def Let_def closes_def)
qed

lemma end_flow_inv:
  assumes inv: "bypass_inv s" and f: "f < length (bp_flows s)" "fl_phase (bp_flows s ! f) \<noteq> Ended"
  shows "bypass_inv (end_flow f s)"
proof -
  define fl where "fl = bp_flows s ! f"
  define i where "i = fl_endpoint fl"
  define fl' where "fl' = fl\<lparr>fl_queue := [], fl_phase := Ended\<rparr>"
  define ep' where "ep' = (bp_endpoints s ! i)\<lparr>ep_routes := filter (\<lambda>r. fst r \<noteq> fl_peer fl) (ep_routes (bp_endpoints s ! i))\<rparr>"
  let ?eps = "(bp_endpoints s)[i := ep']" and ?flows = "(bp_flows s)[f := fl']"
  have s': "end_flow f s = s\<lparr>bp_endpoints := ?eps, bp_flows := ?flows, bp_budget := bp_budget s + queued fl\<rparr>"
    by (simp add: end_flow_def Let_def fl_def i_def fl'_def ep'_def queued_def)
  have ok: "flow_ok (bp_endpoints s) g (bp_flows s ! g)" if "g < length (bp_flows s)" for g
    using inv that by (simp add: bypass_inv_def)
  have eok: "endpoint_ok (bp_flows s) j (bp_endpoints s ! j)" if "j < length (bp_endpoints s)" for j
    using inv that by (simp add: bypass_inv_def)
  have i: "i < length (bp_endpoints s)" using ok [OF f(1)] by (simp add: flow_ok_def fl_def i_def)
  have mine: "snd r \<noteq> f" if "route_ok (bp_flows s) j r" "j \<noteq> i \<or> fst r \<noteq> fl_peer fl" for j r
    using that by (auto simp: route_ok_def fl_def i_def)
  have route: "route_ok ?flows j r" if "route_ok (bp_flows s) j r" "j \<noteq> i \<or> fst r \<noteq> fl_peer fl" for j r
    using that mine [OF that] by (simp add: route_ok_def)
  have "endpoint_ok ?flows j (?eps ! j)" if "j < length (bp_endpoints s)" for j
  proof (cases "j = i")
    case True
    then show ?thesis
      using eok [OF i] i route [of i] by (auto simp: endpoint_ok_def ep'_def distinct_fst_filter)
  next
    case False
    then show ?thesis using eok [OF that] route [of j] by (auto simp: endpoint_ok_def)
  qed
  moreover have "flow_ok ?eps g (?flows ! g)" if g: "g < length (bp_flows s)" for g
  proof (cases "g = f")
    case True
    then show ?thesis using f i by (simp add: flow_ok_def fl'_def i_def [symmetric] PEER_QUEUE_def)
  next
    case False
    have "fl_peer (bp_flows s ! g) \<noteq> fl_peer fl"
      if "fl_endpoint (bp_flows s ! g) = i" "fl_phase (bp_flows s ! g) \<noteq> Ended" "\<not> ep_closed (bp_endpoints s ! i)"
    proof
      assume same: "fl_peer (bp_flows s ! g) = fl_peer fl"
      have "(fl_peer fl, g) \<in> set (ep_routes (bp_endpoints s ! i))" "(fl_peer fl, f) \<in> set (ep_routes (bp_endpoints s ! i))"
        using ok [OF g] ok [OF f(1)] f(2) that same by (auto simp: flow_ok_def fl_def i_def)
      moreover have "distinct (map fst (ep_routes (bp_endpoints s ! i)))" using eok [OF i] by (simp add: endpoint_ok_def)
      ultimately show False using False by (metis eq_key_imp_eq_value)
    qed
    then show ?thesis
      using ok [OF g] False i by (cases "fl_endpoint (bp_flows s ! g) = i") (auto simp: flow_ok_def ep'_def)
  qed
  moreover have "pool_ok (end_flow f s)"
    using inv i by (auto simp: bypass_inv_def pool_ok_def s' nth_list_update ep'_def)
  moreover have "budget_ok (end_flow f s)"
  proof -
    have "queued fl' = 0" by (simp add: queued_def fl'_def)
    then have "sum_list (map queued ?flows) + queued fl = sum_list (map queued (bp_flows s))"
      using sum_queued_update [OF f(1), of fl'] by (simp add: fl_def)
    then show ?thesis using inv by (simp add: bypass_inv_def budget_ok_def s')
  qed
  ultimately show ?thesis by (simp add: bypass_inv_def s')
qed

subsection \<open>Every step keeps the invariant\<close>

lemma receive_turn_inv:
  assumes "bypass_inv s" "i < length (bp_endpoints s)" "receive_turn now i ev s = (r, s')"
  shows "bypass_inv s'"
  using assms stop_receiving_inv enqueue_pool_inv
  by (auto simp: receive_turn_def Let_def not_less split: if_splits receive_event.splits option.splits)

lemma pop_reply_flow:
  "f < length (bp_flows s) \<Longrightarrow> fl_phase (bp_flows (pop_reply f s) ! f) = fl_phase (bp_flows s ! f)"
  "length (bp_flows (pop_reply f s)) = length (bp_flows s)"
  by (simp_all add: pop_reply_def Let_def)

lemma relay_turn_inv:
  assumes inv: "bypass_inv s" and f: "f < length (bp_flows s)" "fl_phase (bp_flows s ! f) = Selecting"
    and turn: "relay_turn f ev injected stat_ok s = (l, s')"
  shows "bypass_inv s'"
proof -
  have ended: "bypass_inv (end_flow f s)" using inv f by (intro end_flow_inv) auto
  have popped: "bypass_inv (pop_reply f s)" "bypass_inv (end_flow f (pop_reply f s))"
    if "fl_queue (bp_flows s ! f) = bs # rest" for bs rest
  proof -
    show pop: "bypass_inv (pop_reply f s)" using inv f that by (intro pop_reply_inv) auto
    show "bypass_inv (end_flow f (pop_reply f s))" using pop f pop_reply_flow by (intro end_flow_inv) auto
  qed
  show ?thesis
  proof (cases ev)
    case (RelayLocal r)
    then show ?thesis
      using turn ended set_phase_inv [OF inv f(1)] f(2)
      by (auto simp: relay_turn_def Let_def split: sum.splits option.splits)
  next
    case RelayReply
    then show ?thesis
      using turn ended popped inv
      by (cases "fl_queue (bp_flows s ! f)") (auto simp: relay_turn_def Let_def split: if_splits)
  qed (use turn ended inv in \<open>auto simp: relay_turn_def Let_def split: if_splits\<close>)
qed

lemma send_turn_inv:
  assumes inv: "bypass_inv s" and f: "f < length (bp_flows s)" "fl_phase (bp_flows s ! f) \<noteq> Ended"
    and turn: "send_turn now f writable outcome stat_ok s = (l, s')"
  shows "bypass_inv s'"
proof -
  let ?i = "fl_endpoint (bp_flows s ! f)"
  let ?s = "s\<lparr>bp_endpoints := (bp_endpoints s)[?i := (bp_endpoints s ! ?i)\<lparr>ep_last_activity := now\<rparr>]\<rparr>"
  have ended: "bypass_inv (end_flow f s)" using inv f by (rule end_flow_inv)
  have "bypass_inv ?s" using inv by (rule inv_touch_one) (simp add: closes_def)
  then have sel: "bypass_inv (set_phase f Selecting ?s)" using f by (intro set_phase_inv) auto
  then have "bypass_inv (end_flow f (set_phase f Selecting ?s))"
    using f by (intro end_flow_inv) (auto simp: set_phase_def)
  with ended sel inv turn show ?thesis
    by (auto simp: send_turn_def Let_def split: flow_phase.splits if_splits sum.splits)
qed

lemma bypass_step_inv: "bypass_step s l s' \<Longrightarrow> bypass_inv s \<Longrightarrow> bypass_inv s'"
proof (induction rule: bypass_step.induct)
  case (opened s now owners iface b policy source peer sys ioctl)
  then show ?case by (rule pool_open_inv)
next
  case (maintained s now owners iface)
  then show ?case by (rule maintain_with_inv)
next
  case (shut s)
  then show ?case by (rule shutdown_inv)
next
  case (relayed f s ev injected stat_ok l s')
  then show ?case using relay_turn_inv [of s f ev injected stat_ok l s'] by simp
next
  case (sending f s now writable outcome stat_ok l s')
  then show ?case using send_turn_inv [of s f now writable outcome stat_ok l s'] by simp
next
  case (dropped f s)
  then show ?case using end_flow_inv [of s f] by simp
next
  case (received i s now peer bs f s')
  then show ?case using receive_turn_inv [of s i now "RecvDatagram peer bs" "Some f" s'] by simp
next
  case (receiver i s now ev s')
  then show ?case using receive_turn_inv [of s i now ev None s'] by simp
qed

lemma bypass_steps_inv: "bypass_steps s tr s' \<Longrightarrow> bypass_inv s \<Longrightarrow> bypass_inv s'"
proof (induction rule: bypass_steps.induct)
  case (more_steps s tr s' l s'')
  then show ?case using bypass_step_inv [of s' l s''] by simp
qed simp

section \<open>What a step does to endpoints and flows\<close>

text \<open>An endpoint keeps its owner and interface, and once closed it stays closed.\<close>

definition ep_stays :: "endpoint \<Rightarrow> endpoint \<Rightarrow> bool" where
  "ep_stays ep ep' = (ep_owner ep' = ep_owner ep \<and> ep_interface ep' = ep_interface ep \<and> (ep_closed ep \<longrightarrow> ep_closed ep'))"

definition eps_evolve :: "endpoint list \<Rightarrow> endpoint list \<Rightarrow> bool" where
  "eps_evolve eps eps' = (length eps \<le> length eps' \<and> (\<forall>i < length eps. ep_stays (eps ! i) (eps' ! i)))"

lemma eps_evolve_refl [simp]: "eps_evolve eps eps"
  by (simp add: eps_evolve_def ep_stays_def)

lemma eps_evolve_trans [trans]: "eps_evolve a b \<Longrightarrow> eps_evolve b c \<Longrightarrow> eps_evolve a c"
  by (auto simp: eps_evolve_def ep_stays_def)

lemma eps_evolve_update [simp]: "ep_stays (eps ! i) ep' \<Longrightarrow> eps_evolve eps (eps[i := ep'])"
  by (cases "i < length eps") (auto simp: eps_evolve_def nth_list_update ep_stays_def)

lemma ep_stays_simps [simp]:
  "ep_stays ep (close_endpoint ep)" "ep_stays ep (ep\<lparr>ep_last_activity := now\<rparr>)" "ep_stays ep (ep\<lparr>ep_routes := rs\<rparr>)"
  "ep_stays ep (ep\<lparr>ep_routes := rs, ep_last_activity := now\<rparr>)" "ep_stays ep ((close_endpoint ep)\<lparr>ep_receiving := b\<rparr>)"
  by (simp_all add: ep_stays_def close_endpoint_def)

lemma retain_evolve: "retain keep entries eps = (kept, eps') \<Longrightarrow> eps_evolve eps eps'"
proof (induction keep entries eps arbitrary: kept eps' rule: retain.induct)
  case (2 keep source i entries eps)
  show ?case
  proof (cases "keep source (eps ! i)")
    case True
    then show ?thesis using 2 by (auto split: prod.splits)
  next
    case False
    have "eps_evolve eps (eps[i := close_endpoint (eps ! i)])" by (rule eps_evolve_update) simp
    also have "eps_evolve \<dots> eps'" using 2 False by simp
    finally show ?thesis .
  qed
qed simp

lemma retain_endpoints_evolve [simp]:
  "eps_evolve (bp_endpoints s) (bp_endpoints (retain_endpoints keep s))" "bp_flows (retain_endpoints keep s) = bp_flows s"
  by (auto simp: retain_endpoints_def intro: retain_evolve split: prod.splits)

lemma retire_evolve [simp]:
  "eps_evolve (bp_endpoints s) (bp_endpoints (retire source s))" "bp_flows (retire source s) = bp_flows s"
  by (auto simp: retire_def intro: eps_evolve_update split: option.splits)

lemma maintain_evolve [simp]:
  "eps_evolve (bp_endpoints s) (bp_endpoints (maintain_with now owners iface s))"
  "bp_flows (maintain_with now owners iface s) = bp_flows s"
  using retain_endpoints_evolve(1) [of "s\<lparr>bp_owner_failure := since\<rparr>" for since]
  by (simp_all add: maintain_with_def Let_def)

lemma ensure_endpoint_evolve:
  assumes "ensure_endpoint now source owner iface bound s = (r, s')"
  shows "eps_evolve (bp_endpoints s) (bp_endpoints s') \<and> bp_flows s' = bp_flows s"
proof -
  have new: "eps_evolve (bp_endpoints u) (bp_endpoints (new_endpoint now source owner iface u))"
    "bp_flows (new_endpoint now source owner iface u) = bp_flows u" for u
    by (auto simp: new_endpoint_def eps_evolve_def nth_append ep_stays_def)
  have "eps_evolve (bp_endpoints s) (bp_endpoints (new_endpoint now source owner iface (retire q s)))" for q
    using retire_evolve(1) new(1) by (rule eps_evolve_trans)
  then show ?thesis
    using assms new by (auto simp: ensure_endpoint_def Let_def split: option.splits if_splits sum.splits)
qed

text \<open>New flows start with an empty queue.\<close>

definition flows_grow :: "flow list \<Rightarrow> flow list \<Rightarrow> bool" where
  "flows_grow fls fls' = (fls' = fls \<or> (\<exists>fl. fls' = fls @ [fl] \<and> fl_queue fl = [] \<and> fl_phase fl = Selecting))"

lemma open_route_evolve:
  assumes "open_route now i peer s = (r, s')"
  shows "eps_evolve (bp_endpoints s) (bp_endpoints s') \<and> flows_grow (bp_flows s) (bp_flows s')"
  using assms
  by (auto simp: open_route_def register_flow_def flows_grow_def Let_def intro: eps_evolve_update split: if_splits)

lemma open_with_evolve:
  "eps_evolve (bp_endpoints s) (bp_endpoints (snd (open_with now source peer owner iface bound s)))
   \<and> flows_grow (bp_flows s) (bp_flows (snd (open_with now source peer owner iface bound s)))"
proof (cases "\<not> same_family source peer \<or> is_multicast (sa_ip peer) \<or> is_unspecified (sa_ip peer)")
  case False
  define s1 where "s1 = retain_endpoints (\<lambda>_ ep. \<not> expired now ep) s"
  define s2 where "s2 = (case map_of (bp_pool s1) source of
      Some i \<Rightarrow> if ep_owner (bp_endpoints s1 ! i) \<noteq> owner \<or> \<not> uses_interface source iface (bp_endpoints s1 ! i)
               then retire source s1 else s1
    | None \<Rightarrow> s1)"
  obtain r s3 where e: "ensure_endpoint now source owner iface bound s2 = (r, s3)"
    by (cases "ensure_endpoint now source owner iface bound s2")
  have "eps_evolve (bp_endpoints s) (bp_endpoints s1)" "bp_flows s1 = bp_flows s" by (simp_all add: s1_def)
  moreover have "eps_evolve (bp_endpoints s1) (bp_endpoints s2)" "bp_flows s2 = bp_flows s1"
    by (auto simp: s2_def split: option.split)
  ultimately have s3: "eps_evolve (bp_endpoints s) (bp_endpoints s3)" "bp_flows s3 = bp_flows s"
    using ensure_endpoint_evolve [OF e] eps_evolve_trans by (blast, simp)
  have "open_with now source peer owner iface bound s
      = (case (r, s3) of (Inr (Some i), s3) \<Rightarrow> open_route now i peer s3 | (r, s3) \<Rightarrow> (r, s3))"
    unfolding e [symmetric] s2_def s1_def using False by (simp add: open_with_def Let_def)
  moreover have "eps_evolve (bp_endpoints s) (bp_endpoints (snd (open_route now i peer s3)))
      \<and> flows_grow (bp_flows s) (bp_flows (snd (open_route now i peer s3)))" for i
    using open_route_evolve [of now i peer s3] s3 eps_evolve_trans by (metis prod.collapse)
  ultimately show ?thesis using s3 by (auto simp: flows_grow_def split: sum.split option.split)
qed (auto simp: open_with_def flows_grow_def)

abbreviation maintained_pool :: "nat \<Rightarrow> udp_owners io_result \<Rightarrow> bind_interface option \<Rightarrow> bypass_pool \<Rightarrow> bypass_pool" where
  "maintained_pool now owners iface s \<equiv> maintain_with now (case owners of Inr os \<Rightarrow> Some os | Inl e \<Rightarrow> None) iface s"

lemma pool_open_cases:
  "snd (pool_open now owners iface b policy source peer sys ioctl s) = maintained_pool now owners iface s
   \<or> (\<exists>owner i bound. snd (pool_open now owners iface b policy source peer sys ioctl s)
        = snd (open_with now source peer owner i bound (maintained_pool now owners iface s)))"
  by (simp add: pool_open_def Let_def split: sum.split option.split) blast

lemma pool_open_evolve:
  "eps_evolve (bp_endpoints s) (bp_endpoints (snd (pool_open now owners iface b policy source peer sys ioctl s)))
   \<and> flows_grow (bp_flows s) (bp_flows (snd (pool_open now owners iface b policy source peer sys ioctl s)))"
  using pool_open_cases [of now owners iface b policy source peer sys ioctl s]
proof (elim disjE exE)
  fix owner i bound
  assume eq: "snd (pool_open now owners iface b policy source peer sys ioctl s)
    = snd (open_with now source peer owner i bound (maintained_pool now owners iface s))"
  have "eps_evolve (bp_endpoints s) (bp_endpoints (maintained_pool now owners iface s))" by simp
  with open_with_evolve [of "maintained_pool now owners iface s" now source peer owner i bound] show ?thesis
    unfolding eq using eps_evolve_trans by (simp, blast)
qed (simp add: flows_grow_def)

text \<open>
  What a step does to one flow: it keeps its endpoint and peer, an accepted datagram joins the end of
  its queue, an injected one leaves the front, and otherwise the queue stays unless the flow ends.
\<close>

definition flow_moves :: "bypass_label \<Rightarrow> nat \<Rightarrow> flow \<Rightarrow> flow \<Rightarrow> bool" where
  "flow_moves l f fl fl' = (fl_endpoint fl' = fl_endpoint fl \<and> fl_peer fl' = fl_peer fl
     \<and> (fl_phase fl = Ended \<longrightarrow> fl' = fl)
     \<and> (case l of
          Accepted g i p bs \<Rightarrow> if g = f then fl_phase fl \<noteq> Ended \<and> fl_phase fl' = fl_phase fl \<and> fl_queue fl' = fl_queue fl @ [bs]
            else fl' = fl
        | Injected g bs \<Rightarrow> if g = f then fl_phase fl \<noteq> Ended \<and> (\<exists>q. fl_queue fl = bs # q \<and> (fl_phase fl' = Ended \<or> fl_queue fl' = q))
            else fl' = fl
        | _ \<Rightarrow> fl_phase fl' = Ended \<or> fl_queue fl' = fl_queue fl))"

lemma flow_moves_same [simp]: "flow_moves Quiet f fl fl" "flow_moves (SentTo g bs) f fl fl"
  "g \<noteq> f \<Longrightarrow> flow_moves (Accepted g i p bs) f fl fl" "g \<noteq> f \<Longrightarrow> flow_moves (Injected g bs) f fl fl"
  by (simp_all add: flow_moves_def)

definition label_flow :: "bypass_label \<Rightarrow> nat option" where
  "label_flow l = (case l of Quiet \<Rightarrow> None | Accepted f i p bs \<Rightarrow> Some f | Injected f bs \<Rightarrow> Some f | SentTo f bs \<Rightarrow> Some f)"

definition flows_move :: "bypass_label \<Rightarrow> flow list \<Rightarrow> flow list \<Rightarrow> bool" where
  "flows_move l fls fls' = (length fls \<le> length fls' \<and> (\<forall>f < length fls. flow_moves l f (fls ! f) (fls' ! f))
     \<and> (\<forall>f < length fls'. length fls \<le> f \<longrightarrow> fl_queue (fls' ! f) = [])
     \<and> (\<forall>f. label_flow l = Some f \<longrightarrow> f < length fls))"

lemma flows_move_refl: "(\<And>f. label_flow l = Some f \<Longrightarrow> False) \<Longrightarrow> flows_move l fls fls"
  by (cases l) (auto simp: flows_move_def label_flow_def)

lemma flows_move_grow: "flows_grow fls fls' \<Longrightarrow> flows_move Quiet fls fls'"
  by (auto simp: flows_grow_def flows_move_def nth_append label_flow_def less_Suc_eq)

lemma flows_move_update:
  assumes "f < length fls" "flow_moves l f (fls ! f) fl'" "label_flow l = None \<or> label_flow l = Some f"
  shows "flows_move l fls (fls[f := fl'])"
proof -
  have "flow_moves l g (fls ! g) (fls[f := fl'] ! g)" if "g < length fls" for g
    using assms that by (cases "g = f"; cases l) (auto simp: label_flow_def)
  then show ?thesis using assms by (auto simp: flows_move_def)
qed

lemma end_flow_flows:
  "bp_flows (end_flow f s) = (bp_flows s)[f := (bp_flows s ! f)\<lparr>fl_queue := [], fl_phase := Ended\<rparr>]"
  "eps_evolve (bp_endpoints s) (bp_endpoints (end_flow f s))"
  by (simp_all add: end_flow_def Let_def)

lemma end_flow_moves:
  "f < length (bp_flows s) \<Longrightarrow> fl_phase (bp_flows s ! f) \<noteq> Ended \<Longrightarrow> flows_move Quiet (bp_flows s) (bp_flows (end_flow f s))"
  unfolding end_flow_flows by (intro flows_move_update) (auto simp: flow_moves_def label_flow_def)

lemma set_phase_moves:
  "f < length (bp_flows s) \<Longrightarrow> fl_phase (bp_flows s ! f) \<noteq> Ended \<Longrightarrow> label_flow l = None \<or> (\<exists>bs. l = SentTo f bs)
   \<Longrightarrow> flows_move l (bp_flows s) (bp_flows (set_phase f ph s))"
  unfolding set_phase_def by (auto intro!: flows_move_update simp: flow_moves_def label_flow_def split: bypass_label.splits)

definition label_ok :: "bypass_label \<Rightarrow> bypass_pool \<Rightarrow> bool" where
  "label_ok l s = (case l of
     Quiet \<Rightarrow> True
   | Accepted f i p bs \<Rightarrow> fl_endpoint (bp_flows s ! f) = i \<and> fl_peer (bp_flows s ! f) = p \<and> \<not> flow_closed f s
   | Injected f bs \<Rightarrow> \<not> flow_closed f s
   | SentTo f bs \<Rightarrow> \<not> flow_closed f s)"

definition step_effect :: "bypass_pool \<Rightarrow> bypass_label \<Rightarrow> bypass_pool \<Rightarrow> bool" where
  "step_effect s l s' = (eps_evolve (bp_endpoints s) (bp_endpoints s') \<and> flows_move l (bp_flows s) (bp_flows s') \<and> label_ok l s)"

lemma flows_move_Quiet: "flows_move Quiet fls fls"
  by (rule flows_move_refl) (simp add: label_flow_def)

lemma quiet_effect:
  "eps_evolve (bp_endpoints s) (bp_endpoints s') \<Longrightarrow> bp_flows s' = bp_flows s \<Longrightarrow> step_effect s Quiet s'"
  by (simp add: step_effect_def label_ok_def flows_move_Quiet)

lemma received_effect:
  assumes inv: "bypass_inv s" and i: "i < length (bp_endpoints s)"
    and turn: "receive_turn now i (RecvDatagram peer bs) s = (Some f, s')"
  shows "step_effect s (Accepted f i peer bs) s'"
proof -
  have s': "s' = enqueue now i f bs s" and route: "map_of (ep_routes (bp_endpoints s ! i)) peer = Some f"
    and live: "\<not> ep_closed (bp_endpoints s ! i)"
    using turn by (auto simp: receive_turn_def Let_def split: if_splits option.splits)
  have "route_ok (bp_flows s) i (peer, f)"
    using inv i map_of_SomeD [OF route] by (auto simp: bypass_inv_def endpoint_ok_def)
  then have f: "f < length (bp_flows s)" "fl_endpoint (bp_flows s ! f) = i" "fl_peer (bp_flows s ! f) = peer"
      "fl_phase (bp_flows s ! f) \<noteq> Ended"
    by (simp_all add: route_ok_def)
  have "flows_move (Accepted f i peer bs) (bp_flows s) (bp_flows s')"
    unfolding s' enqueue_def Let_def using f
    by (auto intro!: flows_move_update simp: flow_moves_def label_flow_def)
  then show ?thesis using f live by (simp add: step_effect_def label_ok_def flow_closed_def s' enqueue_def Let_def)
qed

lemma receiver_effect:
  assumes "receive_turn now i ev s = (None, s')"
  shows "step_effect s Quiet s'"
proof (rule quiet_effect)
  have "s' = s \<or> s' = stop_receiving i s"
    using assms by (auto simp: receive_turn_def Let_def split: if_splits receive_event.splits option.splits)
  then show "eps_evolve (bp_endpoints s) (bp_endpoints s')" "bp_flows s' = bp_flows s"
    by (auto simp: stop_receiving_def)
qed

lemma end_flow_effect:
  "f < length (bp_flows s) \<Longrightarrow> fl_phase (bp_flows s ! f) \<noteq> Ended \<Longrightarrow> step_effect s Quiet (end_flow f s)"
  using end_flow_flows(2) [of s f] by (simp add: step_effect_def end_flow_moves label_ok_def)

text \<open>The reply that leaves the queue and, in some branches, ends the flow as well.\<close>

lemma popped_moves:
  assumes "f < length (bp_flows s)" "fl_phase (bp_flows s ! f) = Selecting" "fl_queue (bp_flows s ! f) = bs # rest"
  shows "flows_move (Injected f bs) (bp_flows s) (bp_flows (pop_reply f s))"
    "flows_move (Injected f bs) (bp_flows s) (bp_flows (end_flow f (pop_reply f s)))"
    "flows_move Quiet (bp_flows s) (bp_flows (end_flow f (pop_reply f s)))"
  unfolding end_flow_flows using assms
  by (auto intro!: flows_move_update simp: pop_reply_def Let_def flow_moves_def label_flow_def)

lemma relay_turn_effect:
  assumes f: "f < length (bp_flows s)" "fl_phase (bp_flows s ! f) = Selecting"
    and turn: "relay_turn f ev injected stat_ok s = (l, s')"
  shows "step_effect s l s'"
proof -
  have ended: "step_effect s Quiet (end_flow f s)" and same: "step_effect s Quiet s"
    using f by (auto intro: end_flow_effect quiet_effect)
  show ?thesis
  proof (cases ev)
    case RelayClosed
    then show ?thesis using turn ended same by (auto simp: relay_turn_def Let_def split: if_splits)
  next
    case (RelayLocal r)
    have "step_effect s Quiet (set_phase f ph s)" for ph
      using f set_phase_moves [of f s Quiet ph] by (simp add: step_effect_def label_ok_def label_flow_def set_phase_def)
    then show ?thesis
      using RelayLocal turn ended by (auto simp: relay_turn_def Let_def split: sum.splits option.splits)
  next
    case RelayReply
    show ?thesis
    proof (cases "fl_queue (bp_flows s ! f)")
      case Nil
      then show ?thesis using RelayReply turn ended same by (auto simp: relay_turn_def Let_def split: if_splits)
    next
      case (Cons bs rest)
      have eps: "bp_endpoints (pop_reply f s) = bp_endpoints s" by (simp add: pop_reply_def Let_def)
      then have eps': "eps_evolve (bp_endpoints s) (bp_endpoints (end_flow f (pop_reply f s)))"
        using end_flow_flows(2) [of "pop_reply f s" f] by simp
      have "l = Quiet \<and> s' = end_flow f (pop_reply f s)
          \<or> l = Injected f bs \<and> \<not> flow_closed f s \<and> (s' = pop_reply f s \<or> s' = end_flow f (pop_reply f s))"
        using RelayReply turn Cons by (auto simp: relay_turn_def Let_def split: if_splits)
      then show ?thesis
        using popped_moves [OF f Cons] eps eps' by (auto simp: step_effect_def label_ok_def)
    qed
  qed
qed

lemma send_turn_effect:
  assumes f: "f < length (bp_flows s)" "fl_phase (bp_flows s ! f) \<noteq> Ended"
    and turn: "send_turn now f writable outcome stat_ok s = (l, s')"
  shows "step_effect s l s'"
proof -
  let ?i = "fl_endpoint (bp_flows s ! f)"
  define s1 where "s1 = set_phase f Selecting
    (s\<lparr>bp_endpoints := (bp_endpoints s)[?i := (bp_endpoints s ! ?i)\<lparr>ep_last_activity := now\<rparr>]\<rparr>)"
  have ended: "step_effect s Quiet (end_flow f s)" and same: "step_effect s Quiet s"
    using f by (auto intro: end_flow_effect quiet_effect)
  have flows: "bp_flows s1 = (bp_flows s)[f := (bp_flows s ! f)\<lparr>fl_phase := Selecting\<rparr>]"
    and eps: "eps_evolve (bp_endpoints s) (bp_endpoints s1)"
    by (simp_all add: s1_def set_phase_def)
  then have eps': "eps_evolve (bp_endpoints s) (bp_endpoints (end_flow f s1))"
    using end_flow_flows(2) eps_evolve_trans by blast
  have moves: "flows_move (SentTo f bs) (bp_flows s) (bp_flows s1)"
      "flows_move (SentTo f bs) (bp_flows s) (bp_flows (end_flow f s1))" for bs
    unfolding end_flow_flows flows using f
    by (auto intro!: flows_move_update simp: flow_moves_def label_flow_def)
  have "l = Quiet \<and> (s' = s \<or> s' = end_flow f s)
      \<or> (\<exists>bs. l = SentTo f bs \<and> \<not> flow_closed f s \<and> (s' = s1 \<or> s' = end_flow f s1))"
    using turn by (auto simp: send_turn_def Let_def s1_def flow_closed_def split: flow_phase.splits if_splits sum.splits)
  then show ?thesis using ended same eps eps' moves by (auto simp: step_effect_def label_ok_def)
qed

lemma shutdown_evolve: "eps_evolve (bp_endpoints s) (bp_endpoints (shutdown s)) \<and> bp_flows (shutdown s) = bp_flows s"
proof -
  have "eps_evolve (bp_endpoints s) (bp_endpoints (retain_endpoints (\<lambda>_ _. False) s))" by simp
  also have "eps_evolve \<dots> (bp_endpoints (shutdown s))"
    by (simp add: shutdown_def Let_def eps_evolve_def ep_stays_def)
  finally show ?thesis by (simp add: shutdown_def Let_def)
qed

lemma bypass_step_effect: "bypass_step s l s' \<Longrightarrow> bypass_inv s \<Longrightarrow> step_effect s l s'"
proof (induction rule: bypass_step.induct)
  case (opened s now owners iface b policy source peer sys ioctl)
  show ?case
    using pool_open_evolve [of s now owners iface b policy source peer sys ioctl]
    by (simp add: step_effect_def label_ok_def flows_move_grow)
next
  case (maintained s now owners iface)
  show ?case by (rule quiet_effect) simp_all
next
  case (shut s)
  show ?case using shutdown_evolve by (intro quiet_effect) auto
next
  case (received i s now peer bs f s')
  then show ?case using received_effect by simp
next
  case (receiver i s now ev s')
  then show ?case using receiver_effect by simp
next
  case (relayed f s ev injected stat_ok l s')
  then show ?case using relay_turn_effect by simp
next
  case (sending f s now writable outcome stat_ok l s')
  then show ?case using send_turn_effect by simp
next
  case (dropped f s)
  then show ?case using end_flow_effect by simp
qed

lemma bypass_steps_evolve:
  "bypass_steps s tr s' \<Longrightarrow> bypass_inv s \<Longrightarrow>
   eps_evolve (bp_endpoints s) (bp_endpoints s') \<and> length (bp_flows s) \<le> length (bp_flows s')
   \<and> (\<forall>f < length (bp_flows s). fl_endpoint (bp_flows s' ! f) = fl_endpoint (bp_flows s ! f)
        \<and> fl_peer (bp_flows s' ! f) = fl_peer (bp_flows s ! f))"
proof (induction rule: bypass_steps.induct)
  case (more_steps s tr s' l s'')
  have "step_effect s' l s''"
    using bypass_step_effect [OF more_steps.hyps(2)] bypass_steps_inv [OF more_steps.hyps(1)] more_steps.prems by simp
  then have e: "eps_evolve (bp_endpoints s') (bp_endpoints s'')" and m: "flows_move l (bp_flows s') (bp_flows s'')"
    by (simp_all add: step_effect_def)
  note IH = more_steps.IH [OF more_steps.prems]
  have "eps_evolve (bp_endpoints s) (bp_endpoints s'')" using IH e eps_evolve_trans by blast
  then show ?case using IH m by (auto simp: flows_move_def flow_moves_def)
qed simp

section \<open>Properties\<close>

lemma retain_endpoints_limit [simp]: "bp_limit (retain_endpoints keep s) = bp_limit s"
  by (simp add: retain_endpoints_def split: prod.split)

lemma ensure_endpoint_limit: "bp_limit (snd (ensure_endpoint now source owner iface bound s)) = bp_limit s"
  by (simp add: ensure_endpoint_def Let_def new_endpoint_def retire_keeps split: option.split sum.split)

lemma open_with_limit: "bp_limit (snd (open_with now source peer owner iface bound s)) = bp_limit s"
proof (cases "\<not> same_family source peer \<or> is_multicast (sa_ip peer) \<or> is_unspecified (sa_ip peer)")
  case False
  define s2 where "s2 = (let s1 = retain_endpoints (\<lambda>_ ep. \<not> expired now ep) s in case map_of (bp_pool s1) source of
      Some i \<Rightarrow> if ep_owner (bp_endpoints s1 ! i) \<noteq> owner \<or> \<not> uses_interface source iface (bp_endpoints s1 ! i)
               then retire source s1 else s1
    | None \<Rightarrow> s1)"
  obtain r s3 where e: "ensure_endpoint now source owner iface bound s2 = (r, s3)"
    by (cases "ensure_endpoint now source owner iface bound s2")
  have "bp_limit s2 = bp_limit s" by (simp add: s2_def Let_def retire_keeps split: option.split)
  then have "bp_limit s3 = bp_limit s" using ensure_endpoint_limit [of now source owner iface bound s2] e by simp
  moreover have "bp_limit (snd (open_route now i peer s3)) = bp_limit s3" for i
    by (simp add: open_route_def Let_def register_flow_def)
  moreover have "open_with now source peer owner iface bound s
      = (case (r, s3) of (Inr (Some i), s3) \<Rightarrow> open_route now i peer s3 | (r, s3) \<Rightarrow> (r, s3))"
    unfolding e [symmetric] s2_def using False by (simp add: open_with_def Let_def)
  ultimately show ?thesis by (simp split: sum.split option.split)
qed (auto simp: open_with_def)

lemma maintain_with_limit [simp]: "bp_limit (maintain_with now owners iface s) = bp_limit s"
  by (simp add: maintain_with_def Let_def)

lemma end_flow_limit [simp]: "bp_limit (end_flow f s) = bp_limit s"
  by (simp add: end_flow_def Let_def)

lemma bypass_step_limit: "bypass_step s l s' \<Longrightarrow> bp_limit s' = bp_limit s"
proof (induction rule: bypass_step.induct)
  case (opened s now owners iface b policy source peer sys ioctl)
  then show ?case using pool_open_cases [of now owners iface b policy source peer sys ioctl s] open_with_limit by auto
next
  case (received i s now peer bs f s')
  then show ?case by (auto simp: receive_turn_def Let_def enqueue_def split: if_splits option.splits)
next
  case (receiver i s now ev s')
  then show ?case
    by (auto simp: receive_turn_def Let_def stop_receiving_def split: if_splits option.splits receive_event.splits)
next
  case (relayed f s ev injected stat_ok l s')
  then show ?case
    by (auto simp: relay_turn_def Let_def set_phase_def pop_reply_def
        split: if_splits option.splits relay_event.splits sum.splits list.splits)
next
  case (sending f s now writable outcome stat_ok l s')
  then show ?case
    by (auto simp: send_turn_def Let_def set_phase_def split: if_splits flow_phase.splits sum.splits)
qed (simp_all add: shutdown_def Let_def)

lemma bypass_steps_limit: "bypass_steps s tr s' \<Longrightarrow> bp_limit s' = bp_limit s"
  by (induction rule: bypass_steps.induct) (auto dest: bypass_step_limit)

lemma queued_octets: "sum_list (map (\<lambda>fl. sum_list (map length (fl_queue fl))) fls) \<le> sum_list (map queued fls)"
proof -
  have "sum_list (map length bss) \<le> sum_list (map permit bss)" for bss :: "bytes list"
    by (rule sum_list_mono) (simp add: permit_def)
  then show ?thesis by (intro sum_list_mono) (simp add: queued_def)
qed

text \<open>
  C14. In every interleaving the pool stays well formed: at most one endpoint for an application
  socket and no more than the configured number (1024 at most), at most 16 datagrams queued for a
  peer and 8 MiB in all, every endpoint that is not closed is in the pool where maintenance finds it,
  and two flows of one live endpoint never have the same peer, so every reply has one addressee.
\<close>

theorem udp_bypass_well_formed:
  assumes "bypass_steps (pool_new limit) tr s"
  shows "distinct (map fst (bp_pool s)) \<and> length (bp_pool s) \<le> min limit 1024
    \<and> (\<forall>fl \<in> set (bp_flows s). length (fl_queue fl) \<le> PEER_QUEUE)
    \<and> sum_list (map (\<lambda>fl. sum_list (map length (fl_queue fl))) (bp_flows s)) \<le> QUEUED_BYTES
    \<and> (\<forall>i < length (bp_endpoints s). \<not> ep_closed (bp_endpoints s ! i) \<longrightarrow> (\<exists>source. (source, i) \<in> set (bp_pool s)))
    \<and> (\<forall>f < length (bp_flows s). \<forall>g < length (bp_flows s). f \<noteq> g \<longrightarrow> \<not> flow_closed f s
         \<longrightarrow> fl_phase (bp_flows s ! f) \<noteq> Ended \<longrightarrow> fl_phase (bp_flows s ! g) \<noteq> Ended
         \<longrightarrow> fl_endpoint (bp_flows s ! f) = fl_endpoint (bp_flows s ! g)
         \<longrightarrow> fl_peer (bp_flows s ! f) \<noteq> fl_peer (bp_flows s ! g))"
proof -
  have inv: "bypass_inv s" using bypass_steps_inv [OF assms] bypass_inv_new by simp
  then have pool: "pool_ok s" and fls: "\<And>f. f < length (bp_flows s) \<Longrightarrow> flow_ok (bp_endpoints s) f (bp_flows s ! f)"
    and eps: "\<And>i. i < length (bp_endpoints s) \<Longrightarrow> endpoint_ok (bp_flows s) i (bp_endpoints s ! i)"
    and budget: "budget_ok s"
    by (simp_all add: bypass_inv_def)
  have "length (bp_pool s) \<le> min limit 1024"
    using pool bypass_steps_limit [OF assms] by (simp add: pool_ok_def pool_new_def)
  moreover have "\<forall>fl \<in> set (bp_flows s). length (fl_queue fl) \<le> PEER_QUEUE"
    using fls by (auto simp: in_set_conv_nth flow_ok_def)
  moreover have "sum_list (map (\<lambda>fl. sum_list (map length (fl_queue fl))) (bp_flows s)) \<le> QUEUED_BYTES"
    using queued_octets [of "bp_flows s"] budget by (simp add: budget_ok_def)
  moreover have "\<exists>source. (source, i) \<in> set (bp_pool s)"
    if "i < length (bp_endpoints s)" "\<not> ep_closed (bp_endpoints s ! i)" for i
  proof -
    have "i \<in> snd ` set (bp_pool s)" using pool that by (simp add: pool_ok_def)
    then show ?thesis by force
  qed
  moreover have "fl_peer (bp_flows s ! f) \<noteq> fl_peer (bp_flows s ! g)"
    if fg: "f < length (bp_flows s)" "g < length (bp_flows s)" "f \<noteq> g" "\<not> flow_closed f s"
      "fl_phase (bp_flows s ! f) \<noteq> Ended" "fl_phase (bp_flows s ! g) \<noteq> Ended"
      "fl_endpoint (bp_flows s ! f) = fl_endpoint (bp_flows s ! g)" for f g
  proof
    assume same: "fl_peer (bp_flows s ! f) = fl_peer (bp_flows s ! g)"
    let ?ep = "bp_endpoints s ! fl_endpoint (bp_flows s ! f)"
    have "(fl_peer (bp_flows s ! f), f) \<in> set (ep_routes ?ep)" "(fl_peer (bp_flows s ! f), g) \<in> set (ep_routes ?ep)"
      using fls [OF fg(1)] fls [OF fg(2)] fg same by (auto simp: flow_ok_def flow_closed_def)
    moreover have "distinct (map fst (ep_routes ?ep))"
      using fls [OF fg(1)] eps by (simp add: flow_ok_def endpoint_ok_def)
    ultimately show False using fg(3) by (metis eq_key_imp_eq_value)
  qed
  ultimately show ?thesis using pool unfolding pool_ok_def by blast
qed

text \<open>A concrete pool: one application socket, confirmed by the socket table, with one flow.\<close>

definition demo_source :: socket_addr where "demo_source = SocketAddr (V4 2) 3"
definition demo_peer :: socket_addr where "demo_peer = SocketAddr (V4 4) 5"
definition demo_owner :: socket_owner where "demo_owner = \<lparr>so_pid = 6, so_bound_at = 7\<rparr>"

definition demo_owners :: udp_owners where
  "demo_owners = udp_owners_snapshot [udp_entry demo_source 6 7]"

definition demo_policy :: session_policy where
  "demo_policy = \<lparr>sp_identities = [''a''], sp_seen = 1, sp_bypass = True, sp_udp_owner = Some demo_owner\<rparr>"

definition demo_pool :: bypass_pool where
  "demo_pool = \<lparr>bp_pool = [(demo_source, 0)],
     bp_endpoints = [\<lparr>ep_owner = demo_owner, ep_interface = demo_interface, ep_routes = [(demo_peer, 0)],
        ep_last_activity = 2, ep_closed = False, ep_receiving = True\<rparr>],
     bp_flows = [\<lparr>fl_endpoint = 0, fl_peer = demo_peer, fl_queue = [], fl_phase = Selecting\<rparr>],
     bp_budget = QUEUED_BYTES, bp_owner_failure = None, bp_limit = 2\<rparr>"

lemma demo_owners_get: "udp_owners_get demo_owners demo_source = Some demo_owner"
  by (simp add: udp_owners_get_def demo_owners_def udp_owners_snapshot_def udp_owner_def udp_entry_def
      demo_source_def same_family_def demo_owner_def)

lemma demo_opened:
  "snd (pool_open 2 (Inr demo_owners) (Some demo_interface) (process_bypass_default\<lparr>pb_names := [''a'']\<rparr>) demo_policy
     demo_source demo_peer (\<lambda>_ _. Inr ()) (\<lambda>_. Inr ()) (pool_new 2)) = demo_pool"
proof -
  have "is_multicast (sa_ip demo_peer) = False" "is_unspecified (sa_ip demo_peer) = False" "same_family demo_source demo_peer"
    by (simp_all add: demo_peer_def demo_source_def is_multicast_def is_unspecified_def same_family_def)
  moreover have "policy_is_current (process_bypass_default\<lparr>pb_names := [''a'']\<rparr>) demo_policy"
    by (simp add: policy_is_current_def matches_policy_def demo_policy_def)
  moreover have "maintain_with 2 (Some demo_owners) (Some demo_interface) (pool_new 2) = pool_new 2"
    by (simp add: maintain_with_def retain_endpoints_def pool_new_def)
  moreover have "retain_endpoints keep (pool_new 2) = pool_new 2" for keep
    by (simp add: retain_endpoints_def pool_new_def)
  moreover have "bind_shared_udp (\<lambda>_ _. Inr ()) (\<lambda>_. Inr ()) (\<not> is_ipv4 (sa_ip demo_source)) demo_interface = Inr ()"
    by (simp add: bind_shared_udp_def bind_udp_unconnected_def demo_interface_def demo_source_def apply_device_bind_def
        unspecified_addr_def)
  ultimately show ?thesis
    by (simp add: pool_open_def open_with_def ensure_endpoint_def open_route_def demo_owners_get demo_policy_def)
       (simp add: pool_new_def new_endpoint_def open_route_def register_flow_def demo_pool_def)
qed

lemma demo_reached: "bypass_steps (pool_new 2) [Quiet] demo_pool"
  using more_steps [OF no_step [of "pool_new 2"] opened [of "pool_new 2" 2 "Inr demo_owners" "Some demo_interface"
      "process_bypass_default\<lparr>pb_names := [''a'']\<rparr>" demo_policy demo_source demo_peer "\<lambda>_ _. Inr ()" "\<lambda>_. Inr ()"]]
  by (simp add: demo_opened)

theorem udp_bypass_well_formed_witness:
  "length (bp_pool demo_pool) \<le> min 2 1024 \<and> (\<exists>source. (source, 0) \<in> set (bp_pool demo_pool))"
  using udp_bypass_well_formed [OF demo_reached] by (simp add: demo_pool_def)

text \<open>
  C13. After the pool was maintained with a reading of the socket table, nothing more is sent or
  handed to the application over an endpoint that the reading did not confirm: every later datagram,
  in either direction, of a flow that existed then belongs to an endpoint whose owner the table named
  for its source and which is bound to the current interface.  Replies still queued for a
  replaced socket are dropped.
\<close>

theorem unconfirmed_endpoints_silent:
  assumes "bypass_steps (pool_new limit) tr0 s"
    and "bypass_steps (maintain_with now (Some owners) iface s) tr s'"
    and "f < length (bp_flows s)" and "Injected f bs \<in> set tr \<or> SentTo f bs \<in> set tr"
  shows "\<exists>source b. (source, fl_endpoint (bp_flows s ! f)) \<in> set (bp_pool s)
    \<and> udp_owners_get owners source = Some (ep_owner (bp_endpoints s ! fl_endpoint (bp_flows s ! f)))
    \<and> iface = Some b \<and> uses_interface source b (bp_endpoints s ! fl_endpoint (bp_flows s ! f))"
proof -
  let ?s1 = "maintain_with now (Some owners) iface s" and ?i = "fl_endpoint (bp_flows s ! f)"
  have inv: "bypass_inv s" using bypass_steps_inv [OF assms(1)] bypass_inv_new by simp
  then have inv1: "bypass_inv ?s1" by (rule maintain_with_inv)
  have live: "\<not> ep_closed (bp_endpoints ?s1 ! ?i)"
    using assms(2,4) inv1
  proof (induction ?s1 tr s' rule: bypass_steps.induct)
    case (more_steps tr s' l s'')
    show ?case
    proof (cases "Injected f bs \<in> set tr \<or> SentTo f bs \<in> set tr")
      case False
      then have l: "l = Injected f bs \<or> l = SentTo f bs" using more_steps.prems by auto
      have "step_effect s' l s''"
        using bypass_step_effect [OF more_steps.hyps(3)] bypass_steps_inv [OF more_steps.hyps(1) inv1] by simp
      then have "\<not> flow_closed f s'" using l by (auto simp: step_effect_def label_ok_def)
      moreover note bypass_steps_evolve [OF more_steps.hyps(1) inv1]
      moreover have "?i < length (bp_endpoints ?s1)"
        using inv1 assms(3) by (simp add: bypass_inv_def flow_ok_def)
      ultimately show ?thesis using assms(3) by (auto simp: flow_closed_def eps_evolve_def ep_stays_def)
    qed (use more_steps in auto)
  qed simp
  define keep where "keep = (\<lambda>source ep. udp_owners_get owners source = Some (ep_owner ep)
      \<and> (case iface of None \<Rightarrow> False | Some b \<Rightarrow> uses_interface source b ep) \<and> \<not> expired now ep)"
  have "pool_ok (s\<lparr>bp_owner_failure := None\<rparr>)" using inv by (simp add: bypass_inv_def pool_ok_def)
  then obtain eps where eps: "?s1 = s\<lparr>bp_owner_failure := None,
      bp_pool := filter (\<lambda>(source, i). keep source (bp_endpoints s ! i)) (bp_pool s), bp_endpoints := eps\<rparr>"
    by (rule retain_endpoints_spec [of _ keep]) (auto simp: maintain_with_def keep_def)
  have "?i < length (bp_endpoints ?s1)" using inv1 assms(3) by (simp add: bypass_inv_def flow_ok_def)
  then have "?i \<in> snd ` set (bp_pool ?s1)" using live inv1 by (simp add: bypass_inv_def pool_ok_def)
  then obtain source where "(source, ?i) \<in> set (bp_pool s)" "keep source (bp_endpoints s ! ?i)" unfolding eps by auto
  then show ?thesis by (auto simp: keep_def split: option.splits)
qed

lemma demo_maintained: "maintain_with 2 (Some demo_owners) (Some demo_interface) demo_pool = demo_pool"
  by (simp add: maintain_with_def retain_endpoints_def demo_pool_def demo_owners_get uses_interface_def expired_def)

lemma demo_sending:
  "bypass_steps demo_pool [Quiet, SentTo 0 [9]] (demo_pool\<lparr>bp_endpoints := [(bp_endpoints demo_pool ! 0)\<lparr>ep_last_activity := 3\<rparr>]\<rparr>)"
proof -
  let ?s1 = "set_phase 0 (Sending [9]) demo_pool"
  have "relay_turn 0 (RelayLocal (Inr (Some [9]))) True True demo_pool = (Quiet, ?s1)"
    by (simp add: relay_turn_def)
  then have "bypass_step demo_pool Quiet ?s1" by (rule relayed [rotated 2]) (simp_all add: demo_pool_def)
  moreover have "send_turn 3 0 (Inr ()) (Inr ()) True ?s1
      = (SentTo 0 [9], demo_pool\<lparr>bp_endpoints := [(bp_endpoints demo_pool ! 0)\<lparr>ep_last_activity := 3\<rparr>]\<rparr>)"
    by (simp add: send_turn_def set_phase_def demo_pool_def)
  then have "bypass_step ?s1 (SentTo 0 [9]) (demo_pool\<lparr>bp_endpoints := [(bp_endpoints demo_pool ! 0)\<lparr>ep_last_activity := 3\<rparr>]\<rparr>)"
    by (rule sending [rotated 2]) (simp_all add: demo_pool_def set_phase_def)
  ultimately show ?thesis using more_steps [OF more_steps [OF no_step]] by fastforce
qed

theorem unconfirmed_endpoints_silent_witness:
  "\<exists>source b. (source, 0) \<in> set (bp_pool demo_pool) \<and> udp_owners_get demo_owners source = Some demo_owner
     \<and> Some demo_interface = Some b \<and> uses_interface source b (bp_endpoints demo_pool ! 0)"
  using unconfirmed_endpoints_silent [OF demo_reached, of 2 demo_owners "Some demo_interface" "[Quiet, SentTo 0 [9]]" _ 0 "[9]"]
    demo_sending by (auto simp: demo_maintained) (auto simp: demo_pool_def)

text \<open>The datagrams that a trace accepted for a flow, and those it handed to the application.\<close>

definition accepted :: "nat \<Rightarrow> bypass_label list \<Rightarrow> bytes list" where
  "accepted f tr = concat (map (\<lambda>l. case l of Accepted g i p bs \<Rightarrow> if g = f then [bs] else [] | _ \<Rightarrow> []) tr)"

definition injected_of :: "nat \<Rightarrow> bypass_label list \<Rightarrow> bytes list" where
  "injected_of f tr = concat (map (\<lambda>l. case l of Injected g bs \<Rightarrow> if g = f then [bs] else [] | _ \<Rightarrow> []) tr)"

definition history_ok :: "bypass_label list \<Rightarrow> nat \<Rightarrow> flow \<Rightarrow> bool" where
  "history_ok tr f fl = (\<exists>rest. accepted f tr = injected_of f tr @ rest \<and> (fl_phase fl \<noteq> Ended \<longrightarrow> rest = fl_queue fl))"

lemma history_step:
  assumes "history_ok tr f fl" "flow_moves l f fl fl'"
  shows "history_ok (tr @ [l]) f fl'"
proof (cases l)
  case Quiet
  then show ?thesis using assms by (auto simp: history_ok_def flow_moves_def accepted_def injected_of_def)
next
  case (Accepted g i p bs)
  then show ?thesis using assms
    by (cases "g = f") (auto simp: history_ok_def flow_moves_def accepted_def injected_of_def)
next
  case (Injected g bs)
  then show ?thesis using assms
    by (cases "g = f") (auto simp: history_ok_def flow_moves_def accepted_def injected_of_def)
next
  case (SentTo g bs)
  then show ?thesis using assms by (auto simp: history_ok_def flow_moves_def accepted_def injected_of_def)
qed

lemma unlabelled_flow:
  "(\<And>l. l \<in> set tr \<Longrightarrow> label_flow l \<noteq> Some f) \<Longrightarrow> accepted f tr = [] \<and> injected_of f tr = []"
proof (induction tr)
  case (Cons l tr)
  have "label_flow l \<noteq> Some f" using Cons.prems by simp
  then show ?case
    using Cons by (cases l) (auto simp: accepted_def injected_of_def label_flow_def)
qed (simp add: accepted_def injected_of_def)

lemma bypass_history:
  "bypass_steps s0 tr s \<Longrightarrow> s0 = pool_new limit \<Longrightarrow>
   (\<forall>f < length (bp_flows s). history_ok tr f (bp_flows s ! f))
   \<and> (\<forall>l \<in> set tr. \<forall>f. label_flow l = Some f \<longrightarrow> f < length (bp_flows s))
   \<and> (\<forall>f i p bs. Accepted f i p bs \<in> set tr \<longrightarrow> fl_endpoint (bp_flows s ! f) = i \<and> fl_peer (bp_flows s ! f) = p)"
proof (induction rule: bypass_steps.induct)
  case (no_step s)
  then show ?case by (simp add: pool_new_def)
next
  case (more_steps s tr s' l s'')
  note IH = more_steps.IH [OF more_steps.prems]
  have "bypass_inv s'" using bypass_steps_inv [OF more_steps.hyps(1)] more_steps.prems bypass_inv_new by simp
  then have eff: "flows_move l (bp_flows s') (bp_flows s'')" "label_ok l s'"
    using bypass_step_effect [OF more_steps.hyps(2)] by (simp_all add: step_effect_def)
  have new: "label_flow l' \<noteq> Some f" if "l' \<in> set (tr @ [l])" "length (bp_flows s') \<le> f" for l' f
    using IH eff(1) that by (auto simp: flows_move_def)
  have "history_ok (tr @ [l]) f (bp_flows s'' ! f)" if f: "f < length (bp_flows s'')" for f
  proof (cases "f < length (bp_flows s')")
    case True
    then have "history_ok tr f (bp_flows s' ! f)" "flow_moves l f (bp_flows s' ! f) (bp_flows s'' ! f)"
      using IH eff(1) by (simp_all add: flows_move_def)
    then show ?thesis by (rule history_step)
  next
    case False
    then have "label_flow l' \<noteq> Some f" if "l' \<in> set (tr @ [l])" for l' using new that by simp
    then have "accepted f (tr @ [l]) = []" "injected_of f (tr @ [l]) = []" using unlabelled_flow by blast+
    moreover have "fl_queue (bp_flows s'' ! f) = []" using eff(1) f False by (simp add: flows_move_def)
    ultimately show ?thesis by (simp add: history_ok_def)
  qed
  moreover have "f < length (bp_flows s'')" if "l' \<in> set (tr @ [l])" "label_flow l' = Some f" for l' f
  proof -
    have "f < length (bp_flows s')" using new [OF that(1)] that(2) by (meson not_less)
    then show ?thesis using eff(1) by (simp add: flows_move_def)
  qed
  moreover have "fl_endpoint (bp_flows s'' ! f) = i \<and> fl_peer (bp_flows s'' ! f) = p"
    if "Accepted f i p bs \<in> set (tr @ [l])" for f i p bs
  proof -
    have "label_flow (Accepted f i p bs) = Some f" by (simp add: label_flow_def)
    then have "f < length (bp_flows s')" using new [OF that] by (meson not_less)
    moreover have "fl_endpoint (bp_flows s' ! f) = i \<and> fl_peer (bp_flows s' ! f) = p"
    proof (cases "Accepted f i p bs \<in> set tr")
      case True
      then show ?thesis using IH by blast
    next
      case False
      then have "l = Accepted f i p bs" using that by simp
      then show ?thesis using eff(2) by (simp add: label_ok_def)
    qed
    ultimately show ?thesis using eff(1) by (auto simp: flows_move_def flow_moves_def)
  qed
  ultimately show ?case by blast
qed

text \<open>
  C19. A flow hands the application only datagrams that its own endpoint received from its own peer,
  each at most once and in the order of their arrival; while the flow lives, exactly those still
  queued are missing.
\<close>

theorem udp_bypass_replies_fifo:
  assumes "bypass_steps (pool_new limit) tr s" and "f < length (bp_flows s)"
  shows "(\<exists>rest. accepted f tr = injected_of f tr @ rest \<and> (fl_phase (bp_flows s ! f) \<noteq> Ended \<longrightarrow> rest = fl_queue (bp_flows s ! f)))
    \<and> (\<forall>i p bs. Accepted f i p bs \<in> set tr \<longrightarrow> fl_endpoint (bp_flows s ! f) = i \<and> fl_peer (bp_flows s ! f) = p)"
  using bypass_history [OF assms(1) refl] assms(2) by (simp add: history_ok_def)

lemma demo_reply:
  "\<exists>s. bypass_steps (pool_new 2) [Quiet, Accepted 0 0 demo_peer [9], Injected 0 [9]] s \<and> length (bp_flows s) = 1"
proof -
  let ?s1 = "enqueue 2 0 0 [9] demo_pool"
  let ?s2 = "pop_reply 0 ?s1"
  have "receive_turn 2 0 (RecvDatagram demo_peer [9]) demo_pool = (Some 0, ?s1)"
    by (simp add: receive_turn_def demo_pool_def permit_def QUEUED_BYTES_def PEER_QUEUE_def)
  then have "bypass_step demo_pool (Accepted 0 0 demo_peer [9]) ?s1"
    by (rule received [rotated 2]) (simp_all add: demo_pool_def)
  moreover have "relay_turn 0 RelayReply True True ?s1 = (Injected 0 [9], ?s2)"
    by (simp add: relay_turn_def enqueue_def demo_pool_def flow_closed_def)
  then have "bypass_step ?s1 (Injected 0 [9]) ?s2"
    by (rule relayed [rotated 2]) (simp_all add: demo_pool_def enqueue_def)
  ultimately have "bypass_steps (pool_new 2) [Quiet, Accepted 0 0 demo_peer [9], Injected 0 [9]] ?s2"
    using more_steps [OF more_steps [OF demo_reached]] by fastforce
  moreover have "length (bp_flows ?s2) = 1" by (simp add: pop_reply_def enqueue_def demo_pool_def)
  ultimately show ?thesis by blast
qed

theorem udp_bypass_replies_fifo_witness:
  "\<exists>rest. accepted 0 [Quiet, Accepted 0 0 demo_peer [9], Injected 0 [9]] = [[9]] @ rest"
proof -
  obtain s where s: "bypass_steps (pool_new 2) [Quiet, Accepted 0 0 demo_peer [9], Injected 0 [9]] s" "0 < length (bp_flows s)"
    using demo_reply by (metis zero_less_one)
  from udp_bypass_replies_fifo [OF s] show ?thesis by (auto simp: injected_of_def)
qed

end
