(* ===== verification/QueryOrigins.thy ===== *)
theory QueryOrigins
  imports ProcessPolicy Dns Http "HOL-Library.AList"
begin

text \<open>
  The attribution of shared DNS questions to the processes that caused them,
  \<^verbatim>\<open>src/dns_routing/windows.rs\<close>: decoding of the events of the DNS client, the bounded table of recent
  callers, the checkpoints by which a question waits for the events that precede it, and the start and
  release of the trace session.  Times are nanoseconds.  The event stream of the system delivers the
  records of a session in the order in which they were written, as \<^verbatim>\<open>ProcessTrace\<close> documents; outcomes
  of system calls are arguments.
\<close>

section \<open>The table of callers\<close>

definition ORIGIN_TTL :: nat where "ORIGIN_TTL = 30 * 1000000000"
definition MAX_ORIGINS :: nat where "MAX_ORIGINS = 4096"

record question =
  qn_name :: string
  qn_kind :: u16

definition question_new :: "string \<Rightarrow> u16 \<Rightarrow> question" where
  "question_new name kind = \<lparr>qn_name = to_ascii_lowercase (trim_end_matches CHR ''.'' name), qn_kind = kind\<rparr>"

record query_origin =
  qo_pid :: u32
  qo_at :: nat

text \<open>The entries are listed in the order in which the hash table enumerates them.\<close>

record origin_state =
  os_marker_id :: "64 word"
  os_queries :: "(question \<times> query_origin) list"
  os_delivered :: nat

definition make_room :: "nat \<Rightarrow> (question \<times> query_origin) list \<Rightarrow> (question \<times> query_origin) list" where
  "make_room now entries =
     (if length entries \<ge> MAX_ORIGINS then
        let kept = filter (\<lambda>(_, origin). now - qo_at origin < ORIGIN_TTL) entries in
        if length kept \<ge> MAX_ORIGINS then (case first_min (\<lambda>(_, v). qo_at v) kept of
            None \<Rightarrow> kept
          | Some (oldest, _) \<Rightarrow> filter (\<lambda>(k, _). k \<noteq> oldest) kept)
        else kept
      else entries)"

definition record_origin :: "question \<Rightarrow> u32 \<Rightarrow> nat \<Rightarrow> origin_state \<Rightarrow> origin_state" where
  "record_origin question pid now st =
     (if pid = 0 then st
      else st\<lparr>os_queries := AList.update question \<lparr>qo_pid = pid, qo_at = now\<rparr> (make_room now (os_queries st))\<rparr>)"

definition origin_pid :: "origin_state \<Rightarrow> question \<Rightarrow> nat \<Rightarrow> u32 option" where
  "origin_pid st question now = (case map_of (os_queries st) question of
     None \<Rightarrow> None
   | Some origin \<Rightarrow> if now - qo_at origin < ORIGIN_TTL then Some (qo_pid origin) else None)"

section \<open>Event payloads\<close>

definition le_word :: "bytes \<Rightarrow> 'a::len word" where
  "le_word bs = from_be_bytes (rev bs)"

definition to_le_bytes :: "'a::len word \<Rightarrow> bytes" where
  "to_le_bytes w = rev (to_be_bytes w)"

fun byte_pairs :: "bytes \<Rightarrow> (byte \<times> byte) list" where
  "byte_pairs (a # b # bs) = (a, b) # byte_pairs bs"
| "byte_pairs _ = []"

text \<open>\<^verbatim>\<open>String::from_utf16\<close>: the code points of the units, and their encoding in UTF-8.\<close>

fun utf16_points :: "u16 list \<Rightarrow> nat list option" where
  "utf16_points [] = Some []"
| "utf16_points (u # us) =
     (let n = unat u in
      if n < 0xD800 \<or> n \<ge> 0xE000 then map_option (\<lambda>ps. n # ps) (utf16_points us)
      else if n \<ge> 0xDC00 then None
      else (case us of [] \<Rightarrow> None
        | l # us' \<Rightarrow> if unat l < 0xDC00 \<or> unat l \<ge> 0xE000 then None
            else map_option (\<lambda>ps. (0x10000 + (n - 0xD800) * 0x400 + (unat l - 0xDC00)) # ps) (utf16_points us')))"

definition utf8_char :: "nat \<Rightarrow> string" where
  "utf8_char n =
     (if n < 0x80 then [char_of n]
      else if n < 0x800 then [char_of (0xC0 + n div 0x40), char_of (0x80 + n mod 0x40)]
      else if n < 0x10000 then
        [char_of (0xE0 + n div 0x1000), char_of (0x80 + n div 0x40 mod 0x40), char_of (0x80 + n mod 0x40)]
      else [char_of (0xF0 + n div 0x40000), char_of (0x80 + n div 0x1000 mod 0x40),
            char_of (0x80 + n div 0x40 mod 0x40), char_of (0x80 + n mod 0x40)])"

definition from_utf16 :: "u16 list \<Rightarrow> string option" where
  "from_utf16 us = map_option (\<lambda>ps. concat (map utf8_char ps)) (utf16_points us)"

definition wide :: "bytes \<Rightarrow> (string \<times> bytes) option" where
  "wide data =
     (let pairs = byte_pairs data; units = takeWhile (\<lambda>pair. pair \<noteq> (0, 0)) pairs in
      if length units = length pairs then None
      else map_option (\<lambda>s. (s, drop ((length units + 1) * 2) data))
             (from_utf16 (map (\<lambda>(a, b). le_word [a, b]) units)))"

definition number :: "bytes \<Rightarrow> (u32 \<times> bytes) option" where
  "number data = (if length data < 4 then None else Some (le_word (take 4 data), drop 4 data))"

definition event_origin :: "u16 \<Rightarrow> byte \<Rightarrow> u32 \<Rightarrow> bytes \<Rightarrow> (question \<times> u32) option" where
  "event_origin i version header_pid data =
     (if (i, version) \<noteq> (3006, 0) \<and> (i, version) \<noteq> (3010, 1) then None
      else Option.bind (wide data) (\<lambda>(name, data).
           Option.bind (number data) (\<lambda>(kind, data).
           if unat kind \<ge> 2 ^ 16 then None
           else Option.bind (if i = 3010 then Option.bind (wide data) (\<lambda>(_, data). map_option fst (number data))
                             else Some header_pid) (\<lambda>pid.
             Some (question_new name (ucast kind), pid)))))"

definition DNS_PROVIDER :: u128 where "DNS_PROVIDER = 0x1c95126e7eea49a9a3fea378b03ddb4d"
definition CHECKPOINT_PROVIDER :: u128 where "CHECKPOINT_PROVIDER = 0xf49c48337d744781869cbdb5e23601cb"

record event_record =
  er_null :: bool
  er_provider :: u128
  er_process :: u32
  er_id :: u16
  er_version :: byte
  er_data :: bytes

text \<open>The callback of the event stream; \<^verbatim>\<open>self\<close> is the identifier of this process.\<close>

definition event :: "u32 \<Rightarrow> nat \<Rightarrow> event_record \<Rightarrow> origin_state \<Rightarrow> origin_state" where
  "event self now r st =
     (if er_null r then st
      else if er_provider r = CHECKPOINT_PROVIDER \<and> er_process r = self then
        (if er_id r = 1 \<and> length (er_data r) = 16 \<and> le_word (take 8 (er_data r)) = os_marker_id st
         then st\<lparr>os_delivered := max (os_delivered st) (unat (le_word (drop 8 (er_data r)) :: 64 word))\<rparr>
         else st)
      else if er_provider r = DNS_PROVIDER then
        (case event_origin (er_id r) (er_version r) (er_process r) (er_data r) of
           None \<Rightarrow> st
         | Some (question, pid) \<Rightarrow> record_origin question pid now st)
      else st)"

section \<open>Trace sessions\<close>

definition ERROR_TIMEOUT :: u32 where "ERROR_TIMEOUT = 1460"
definition ERROR_MORE_DATA :: u32 where "ERROR_MORE_DATA = 234"
definition ERROR_INVALID_PARAMETER :: u32 where "ERROR_INVALID_PARAMETER = 87"
definition INVALID_TRACE :: "64 word" where "INVALID_TRACE = - 1"

definition check_status :: "u32 \<Rightarrow> unit io_result" where
  "check_status status = (if status = 0 then Inr () else Inl (IoError OtherKind []))"

definition check_enable :: "u32 \<Rightarrow> unit io_result" where
  "check_enable status = (if status = ERROR_TIMEOUT then Inr () else check_status status)"

definition split_once :: "char \<Rightarrow> string \<Rightarrow> (string \<times> string) option" where
  "split_once c s = (if c \<in> set s then Some (takeWhile (\<lambda>d. d \<noteq> c) s, tl (dropWhile (\<lambda>d. d \<noteq> c) s)) else None)"

definition trace_owner :: "string \<Rightarrow> nat option" where
  "trace_owner name =
     (if \<not> prefix ''CipherRelay-DNS-'' name then None
      else Option.bind (split_once CHR ''-'' (drop (length ''CipherRelay-DNS-'') name)) (\<lambda>(pid, sequence).
           case parse_usize pid of
             None \<Rightarrow> None
           | Some p \<Rightarrow> if p \<ge> 2 ^ 32 \<or> p = 0 \<or> parse_usize sequence = None then None else Some p))"

text \<open>
  \<^verbatim>\<open>reclaim_orphaned_traces\<close>: the enumeration is repeated with the size that the system asks for, then
  the sessions whose owner has provably gone are stopped.
\<close>

datatype owner_probe = OpenFailed u32 | OpenedExited bool

definition owner_absent :: "owner_probe \<Rightarrow> bool" where
  "owner_absent p = (case p of OpenFailed e \<Rightarrow> e = ERROR_INVALID_PARAMETER | OpenedExited exited \<Rightarrow> exited)"

function query_all_traces :: "(nat \<Rightarrow> u32 \<times> nat) \<Rightarrow> nat \<Rightarrow> nat io_result" where
  "query_all_traces query count = (case query count of (status, needed) \<Rightarrow>
     if status = ERROR_MORE_DATA \<and> needed > count \<and> needed \<le> 1024 then query_all_traces query needed
     else rbind (check_status status) (\<lambda>_. Inr needed))"
  by pat_completeness auto

termination
  by (relation "measure (\<lambda>(query, count). 1024 - count)") auto

fun reclaim :: "(nat \<Rightarrow> owner_probe) \<Rightarrow> (string \<Rightarrow> u32) \<Rightarrow> string list \<Rightarrow> string list \<Rightarrow> nat io_result \<times> string list" where
  "reclaim probe stop [] stopped = (Inr (length stopped), stopped)"
| "reclaim probe stop (name # names) stopped = (case trace_owner name of
     None \<Rightarrow> reclaim probe stop names stopped
   | Some pid \<Rightarrow> if \<not> owner_absent (probe pid) then reclaim probe stop names stopped
       else (case check_status (stop name) of
           Inl e \<Rightarrow> (Inl e, stopped)
         | Inr _ \<Rightarrow> reclaim probe stop names (stopped @ [name])))"

text \<open>The start of a session, with the calls it makes; dropping the session releases what it holds.\<close>

datatype etw_call =
  StartTrace | EnableDns | RegisterMarker | EnableCheckpoint | OpenTrace | SpawnConsumer
| StopTrace | CloseTrace | UnregisterMarker | JoinConsumer

record etw_sys =
  es_start :: u32
  es_enable_dns :: u32
  es_register :: "u32 \<times> 64 word"
  es_enable_checkpoint :: u32
  es_open :: "64 word"
  es_spawn :: "unit io_result"

definition trace_drop :: "64 word \<Rightarrow> 64 word \<Rightarrow> bool \<Rightarrow> etw_call list" where
  "trace_drop reader marker consumer =
     [StopTrace] @ (if reader \<noteq> INVALID_TRACE then [CloseTrace] else [])
     @ (if marker \<noteq> 0 then [UnregisterMarker] else []) @ (if consumer then [JoinConsumer] else [])"

definition trace_start :: "etw_sys \<Rightarrow> unit io_result \<times> etw_call list" where
  "trace_start E = (case check_status (es_start E) of
     Inl e \<Rightarrow> (Inl e, [StartTrace])
   | Inr _ \<Rightarrow> (case check_enable (es_enable_dns E) of
       Inl e \<Rightarrow> (Inl e, [StartTrace, EnableDns] @ trace_drop INVALID_TRACE 0 False)
     | Inr _ \<Rightarrow> (case es_register E of (status, marker) \<Rightarrow> (case check_status status of
         Inl e \<Rightarrow> (Inl e, [StartTrace, EnableDns, RegisterMarker] @ trace_drop INVALID_TRACE marker False)
       | Inr _ \<Rightarrow> (case check_enable (es_enable_checkpoint E) of
           Inl e \<Rightarrow> (Inl e, [StartTrace, EnableDns, RegisterMarker, EnableCheckpoint] @ trace_drop INVALID_TRACE marker False)
         | Inr _ \<Rightarrow>
             if es_open E = INVALID_TRACE
             then (Inl (IoError OtherKind []),
                   [StartTrace, EnableDns, RegisterMarker, EnableCheckpoint, OpenTrace] @ trace_drop INVALID_TRACE marker False)
             else (case es_spawn E of
                 Inl e \<Rightarrow> (Inl e, [StartTrace, EnableDns, RegisterMarker, EnableCheckpoint, OpenTrace, SpawnConsumer]
                            @ trace_drop (es_open E) marker False)
               | Inr _ \<Rightarrow> (Inr (), [StartTrace, EnableDns, RegisterMarker, EnableCheckpoint, OpenTrace, SpawnConsumer])))))))"

section \<open>Decisions\<close>

definition record_type_code :: "record_type \<Rightarrow> u16" where
  "record_type_code t = (case t of TypeA \<Rightarrow> 1 | TypeCNAME \<Rightarrow> 5 | TypeAAAA \<Rightarrow> 28 | TypeOther w \<Rightarrow> w)"

definition dns_process_names :: "(u32 \<Rightarrow> string list) \<Rightarrow> u32 \<Rightarrow> string list" where
  "dns_process_names process_names pid = map normalize_process_name (process_names pid)"

text \<open>
  \<^verbatim>\<open>bypass\<close>: the trace with its health, if it is running, the outcome of \<^verbatim>\<open>synchronize\<close> within its second,
  the time after it, and whether the blocking lookup of the names of a process was completed.
\<close>

definition origins_bypass ::
  "'n hickory \<Rightarrow> process_bypass \<Rightarrow> bytes \<Rightarrow> unit io_result \<Rightarrow> nat \<Rightarrow> unit io_result \<Rightarrow> (u32 \<Rightarrow> string list)
     \<Rightarrow> (origin_state \<times> bool) option \<Rightarrow> bool result \<times> (origin_state \<times> bool) option" where
  "origins_bypass H processes request sync now joined process_names tr =
     (if \<not> is_configured processes then (Inr False, tr)
      else case tr of
        None \<Rightarrow> (Inr False, None)
      | Some (st, healthy) \<Rightarrow>
          (case rbind (parse_data_to_dns_message H request False) validate_dns_query of
             Inl e \<Rightarrow> (Inl (StringError e), tr)
           | Inr query \<Rightarrow> (case sync of
               Inl e \<Rightarrow> (Inr False, Some (st, False))
             | Inr _ \<Rightarrow>
                 (case origin_pid st (question_new (to_ascii H (q_name query)) (record_type_code (q_type query))) now of
                    None \<Rightarrow> (Inr False, Some (st, True))
                  | Some pid \<Rightarrow> (case joined of
                      Inl e \<Rightarrow> (Inl (Io e), Some (st, True))
                    | Inr _ \<Rightarrow> (Inr (matches_policy processes (dns_process_names process_names pid)), Some (st, True)))))))"

text \<open>\<^verbatim>\<open>from_start\<close>: a failed start is retried in the background until one succeeds.\<close>

fun retry_start :: "'t io_result list \<Rightarrow> 't option" where
  "retry_start [] = None"
| "retry_start (Inr trace # _) = Some trace"
| "retry_start (Inl e # results) = retry_start results"

definition origins_from_start :: "'t io_result \<Rightarrow> 't io_result list \<Rightarrow> 't option" where
  "origins_from_start result retries = (case result of Inr trace \<Rightarrow> Some trace | Inl e \<Rightarrow> retry_start retries)"

section \<open>Checkpoints\<close>

text \<open>
  \<^verbatim>\<open>synchronize\<close> as the interleaving of its callers with the blocking writes of the checkpoints, the
  event stream and its consumer.  A task carries the number of events written before it started and
  its phase with the sequence it observed; \<^verbatim>\<open>fe_blocking\<close> holds the sequences whose checkpoint is still to
  be written, also for callers that have been cancelled.  The 64-bit sequence is a natural number.
\<close>

datatype sync_phase =
  Entering nat | Checkpointing nat nat | Awaiting nat nat | Synced | SyncFailed

record fence =
  fe_state :: origin_state
  fe_sequence :: nat
  fe_slot :: "nat option"
  fe_tasks :: "(nat \<times> sync_phase) list"
  fe_blocking :: "nat list"
  fe_written :: "(nat \<times> unit io_result) list"
  fe_stream :: "event_record list"
  fe_consumed :: "(nat \<times> event_record) list"

definition fence_new :: "64 word \<Rightarrow> fence" where
  "fence_new marker_id = \<lparr>fe_state = \<lparr>os_marker_id = marker_id, os_queries = [], os_delivered = 0\<rparr>, fe_sequence = 0,
     fe_slot = None, fe_tasks = [], fe_blocking = [], fe_written = [], fe_stream = [], fe_consumed = []\<rparr>"

definition fence_log :: "fence \<Rightarrow> event_record list" where
  "fence_log s = map snd (fe_consumed s) @ fe_stream s"

definition marker_record :: "u32 \<Rightarrow> 64 word \<Rightarrow> nat \<Rightarrow> event_record" where
  "marker_record self marker_id sequence = \<lparr>er_null = False, er_provider = CHECKPOINT_PROVIDER, er_process = self,
     er_id = 1, er_version = 0, er_data = to_le_bytes marker_id @ to_le_bytes (of_nat sequence :: 64 word)\<rparr>"

text \<open>\<^verbatim>\<open>checkpoint\<close>: the outcome, and the records it adds to the stream.\<close>

definition checkpoint ::
  "u32 \<Rightarrow> 64 word \<Rightarrow> nat \<Rightarrow> u32 \<Rightarrow> u32 \<Rightarrow> bool \<Rightarrow> unit io_result \<times> event_record list" where
  "checkpoint self marker_id sequence write_status flush_status lost = (case check_status write_status of
     Inl e \<Rightarrow> (Inl e, [])
   | Inr _ \<Rightarrow> (rbind (check_status flush_status) (\<lambda>_.
        if lost then Inl (IoError OtherKind ''DNS event stream lost events'') else Inr ()),
      [marker_record self marker_id sequence]))"

definition sync_enter :: "fence \<Rightarrow> fence" where
  "sync_enter s = s\<lparr>fe_tasks := fe_tasks s @ [(length (fence_log s), Entering (fe_sequence s))]\<rparr>"

definition set_phase :: "nat \<Rightarrow> sync_phase \<Rightarrow> fence \<Rightarrow> fence" where
  "set_phase t p s = s\<lparr>fe_tasks := (fe_tasks s)[t := (fst (fe_tasks s ! t), p)]\<rparr>"

text \<open>With the slot: share a checkpoint that was issued since, or issue one.\<close>

definition sync_acquired :: "nat \<Rightarrow> nat \<Rightarrow> fence \<Rightarrow> fence" where
  "sync_acquired t observed s =
     (if os_delivered (fe_state s) > observed then set_phase t Synced s
      else let sequence = fe_sequence s + 1 in
        set_phase t (Checkpointing observed sequence)
          (s\<lparr>fe_sequence := sequence, fe_slot := Some t, fe_blocking := fe_blocking s @ [sequence]\<rparr>))"

definition checkpoint_written :: "u32 \<Rightarrow> nat \<Rightarrow> u32 \<Rightarrow> u32 \<Rightarrow> bool \<Rightarrow> fence \<Rightarrow> fence" where
  "checkpoint_written self sequence write_status flush_status lost s =
     (case checkpoint self (os_marker_id (fe_state s)) sequence write_status flush_status lost of (r, records) \<Rightarrow>
        s\<lparr>fe_blocking := remove1 sequence (fe_blocking s), fe_written := fe_written s @ [(sequence, r)],
          fe_stream := fe_stream s @ records\<rparr>)"

definition sync_checkpointed :: "nat \<Rightarrow> nat \<Rightarrow> nat \<Rightarrow> unit io_result \<Rightarrow> fence \<Rightarrow> fence" where
  "sync_checkpointed t observed sequence r s = (case r of
     Inl e \<Rightarrow> set_phase t SyncFailed (s\<lparr>fe_slot := None\<rparr>)
   | Inr _ \<Rightarrow> set_phase t (Awaiting observed sequence) s)"

definition sync_poll :: "nat \<Rightarrow> nat \<Rightarrow> fence \<Rightarrow> fence" where
  "sync_poll t sequence s =
     (if os_delivered (fe_state s) \<ge> sequence then set_phase t Synced (s\<lparr>fe_slot := None\<rparr>) else s)"

definition sync_cancel :: "nat \<Rightarrow> fence \<Rightarrow> fence" where
  "sync_cancel t s = set_phase t SyncFailed (if fe_slot s = Some t then s\<lparr>fe_slot := None\<rparr> else s)"

definition consume :: "u32 \<Rightarrow> nat \<Rightarrow> event_record \<Rightarrow> event_record list \<Rightarrow> fence \<Rightarrow> fence" where
  "consume self now r rest s =
     s\<lparr>fe_state := event self now r (fe_state s), fe_stream := rest, fe_consumed := fe_consumed s @ [(now, r)]\<rparr>"

text \<open>The number in a record that the callback takes for one of this trace's checkpoints.\<close>

definition marker_of :: "u32 \<Rightarrow> 64 word \<Rightarrow> event_record \<Rightarrow> nat option" where
  "marker_of self marker_id r =
     (if \<not> er_null r \<and> er_provider r = CHECKPOINT_PROVIDER \<and> er_process r = self \<and> er_id r = 1
         \<and> length (er_data r) = 16 \<and> le_word (take 8 (er_data r)) = marker_id
      then Some (unat (le_word (drop 8 (er_data r)) :: 64 word)) else None)"

inductive fence_step :: "u32 \<Rightarrow> fence \<Rightarrow> fence \<Rightarrow> bool" for self where
  emitted: "marker_of self (os_marker_id (fe_state s)) r = None \<Longrightarrow> fence_step self s (s\<lparr>fe_stream := fe_stream s @ [r]\<rparr>)"
| entered: "fence_step self s (sync_enter s)"
| acquired: "t < length (fe_tasks s) \<Longrightarrow> fe_tasks s ! t = (n, Entering observed) \<Longrightarrow> fe_slot s = None
    \<Longrightarrow> fence_step self s (sync_acquired t observed s)"
| wrote: "sequence \<in> set (fe_blocking s) \<Longrightarrow> fence_step self s (checkpoint_written self sequence ws fs lost s)"
| checkpointed: "t < length (fe_tasks s) \<Longrightarrow> fe_tasks s ! t = (n, Checkpointing observed sequence)
    \<Longrightarrow> (sequence, r) \<in> set (fe_written s) \<Longrightarrow> fence_step self s (sync_checkpointed t observed sequence r s)"
| polled: "t < length (fe_tasks s) \<Longrightarrow> fe_tasks s ! t = (n, Awaiting observed sequence)
    \<Longrightarrow> fence_step self s (sync_poll t sequence s)"
| cancelled: "t < length (fe_tasks s) \<Longrightarrow> snd (fe_tasks s ! t) \<notin> {Synced, SyncFailed} \<Longrightarrow> fence_step self s (sync_cancel t s)"
| consumed: "fe_stream s = r # rest \<Longrightarrow> fence_step self s (consume self now r rest s)"

inductive fence_reachable :: "u32 \<Rightarrow> 64 word \<Rightarrow> fence \<Rightarrow> bool" for self marker_id where
  initially: "fence_reachable self marker_id (fence_new marker_id)"
| stepped: "fence_reachable self marker_id s \<Longrightarrow> fence_step self s s' \<Longrightarrow> fence_reachable self marker_id s'"

inductive_cases fence_stepE: "fence_step self s s'"

section \<open>The table keeps the last callers\<close>

text \<open>The question and caller that the callback records for an event.\<close>

definition question_event :: "u32 \<Rightarrow> event_record \<Rightarrow> (question \<times> u32) option" where
  "question_event self r =
     (if er_null r \<or> er_provider r = CHECKPOINT_PROVIDER \<and> er_process r = self \<or> er_provider r \<noteq> DNS_PROVIDER then None
      else case event_origin (er_id r) (er_version r) (er_process r) (er_data r) of
        None \<Rightarrow> None | Some (q, pid) \<Rightarrow> if pid = 0 then None else Some (q, pid))"

lemma event_queries:
  "os_queries (event self now r st) = (case question_event self r of
     None \<Rightarrow> os_queries st
   | Some (q, pid) \<Rightarrow> AList.update q \<lparr>qo_pid = pid, qo_at = now\<rparr> (make_room now (os_queries st)))"
  by (auto simp: event_def question_event_def record_origin_def split: option.splits prod.splits)

lemma event_marker_id [simp]: "os_marker_id (event self now r st) = os_marker_id st"
  by (simp add: event_def record_origin_def split: option.splits prod.splits)

lemma event_delivered:
  "os_delivered (event self now r st) = (case marker_of self (os_marker_id st) r of
     None \<Rightarrow> os_delivered st | Some m \<Rightarrow> max (os_delivered st) m)"
  by (auto simp: event_def marker_of_def record_origin_def split: option.splits prod.splits)

lemma le_to_le [simp]: "le_word (to_le_bytes (w :: 64 word)) = w"
  by (simp add: le_word_def to_le_bytes_def from_to_be_bytes)

lemma length_to_le [simp]: "length (to_le_bytes (w :: 64 word)) = 8"
  by (simp add: to_le_bytes_def length_to_be_bytes)

lemma marker_of_record:
  "sequence < 2 ^ 64 \<Longrightarrow> marker_of self marker_id (marker_record self marker_id sequence) = Some sequence"
  by (simp add: marker_of_def marker_record_def unat_of_nat take_bit_nat_eq_self)

lemma make_room_keys:
  assumes "distinct (map fst es)"
  shows "distinct (map fst (make_room now es))"
  using assms by (auto simp: make_room_def Let_def distinct_map_filter split: option.splits)

lemma make_room_map_of:
  assumes "distinct (map fst es)" "map_of (make_room now es) k = Some v"
  shows "map_of es k = Some v"
proof -
  have "set (make_room now es) \<subseteq> set es" by (auto simp: make_room_def Let_def split: option.splits)
  with map_of_SomeD [OF assms(2)] show ?thesis using assms(1) by auto
qed

lemma make_room_length:
  assumes "length es \<le> MAX_ORIGINS"
  shows "length (make_room now es) < MAX_ORIGINS"
proof -
  have pos: "0 < MAX_ORIGINS" by (simp add: MAX_ORIGINS_def)
  let ?kept = "filter (\<lambda>(_, origin). now - qo_at origin < ORIGIN_TTL) es"
  have le: "length ?kept \<le> MAX_ORIGINS" using assms length_filter_le le_trans by blast
  have less: "length (filter (\<lambda>(k, _). k \<noteq> oldest) ?kept) < length ?kept" if "(oldest, v) \<in> set ?kept" for oldest v
    by (rule length_filter_less [OF that]) simp
  show ?thesis
  proof (cases "first_min (\<lambda>(_, v). qo_at v) ?kept")
    case None
    then show ?thesis using pos by (auto simp: make_room_def Let_def)
  next
    case (Some kv)
    obtain oldest v where kv: "kv = (oldest, v)" by (cases kv)
    with Some first_min_Some [OF Some] have "(oldest, v) \<in> set ?kept" by blast
    with less [OF this] le show ?thesis using Some kv by (auto simp: make_room_def Let_def)
  qed
qed

lemma length_update: "length (AList.update k v es) \<le> Suc (length es)"
  by (induction es) auto

text \<open>
  The table after a sequence of events: it is bounded, and an entry names the caller of the last
  event about its question.
\<close>

definition table_ok :: "u32 \<Rightarrow> (nat \<times> event_record) list \<Rightarrow> (question \<times> query_origin) list \<Rightarrow> bool" where
  "table_ok self cs es = (distinct (map fst es) \<and> length es \<le> MAX_ORIGINS
     \<and> (\<forall>q v. map_of es q = Some v \<longrightarrow> (\<exists>i < length cs. question_event self (snd (cs ! i)) = Some (q, qo_pid v)
          \<and> fst (cs ! i) = qo_at v
          \<and> (\<forall>j. i < j \<and> j < length cs \<longrightarrow> (\<forall>p. question_event self (snd (cs ! j)) \<noteq> Some (q, p))))))"

lemma table_ok_entry:
  assumes "table_ok self cs es" "map_of es q = Some v"
  obtains i where "i < length cs" "question_event self (snd (cs ! i)) = Some (q, qo_pid v)" "fst (cs ! i) = qo_at v"
    "\<And>j p. i < j \<Longrightarrow> j < length cs \<Longrightarrow> question_event self (snd (cs ! j)) \<noteq> Some (q, p)"
  using assms unfolding table_ok_def by blast

lemma table_ok_snoc:
  assumes "table_ok self cs es" "distinct (map fst es')" "length es' \<le> MAX_ORIGINS"
    and entries: "\<And>q v. map_of es' q = Some v \<Longrightarrow>
      map_of es q = Some v \<and> (\<forall>p. question_event self r \<noteq> Some (q, p))
      \<or> question_event self r = Some (q, qo_pid v) \<and> qo_at v = now"
  shows "table_ok self (cs @ [(now, r)]) es'"
  unfolding table_ok_def
proof (intro conjI allI impI)
  fix q v assume "map_of es' q = Some v"
  from entries [OF this] show "\<exists>i < length (cs @ [(now, r)]).
      question_event self (snd ((cs @ [(now, r)]) ! i)) = Some (q, qo_pid v) \<and> fst ((cs @ [(now, r)]) ! i) = qo_at v
      \<and> (\<forall>j. i < j \<and> j < length (cs @ [(now, r)]) \<longrightarrow> (\<forall>p. question_event self (snd ((cs @ [(now, r)]) ! j)) \<noteq> Some (q, p)))"
  proof (elim disjE conjE)
    assume old: "map_of es q = Some v" "\<forall>p. question_event self r \<noteq> Some (q, p)"
    from table_ok_entry [OF assms(1) old(1)] obtain i where i: "i < length cs"
      "question_event self (snd (cs ! i)) = Some (q, qo_pid v)" "fst (cs ! i) = qo_at v"
      "\<And>j p. i < j \<Longrightarrow> j < length cs \<Longrightarrow> question_event self (snd (cs ! j)) \<noteq> Some (q, p)" by blast
    then show ?thesis using old(2) by (intro exI [of _ i]) (auto simp: nth_append less_Suc_eq)
  next
    assume "question_event self r = Some (q, qo_pid v)" "qo_at v = now"
    then show ?thesis by (intro exI [of _ "length cs"]) auto
  qed
qed (use assms in simp_all)

lemma table_ok_event:
  assumes "table_ok self cs (os_queries st)"
  shows "table_ok self (cs @ [(now, r)]) (os_queries (event self now r st))"
proof (cases "question_event self r")
  case None
  with assms show ?thesis
    by (intro table_ok_snoc [OF assms]) (auto simp: event_queries table_ok_def)
next
  case (Some qp)
  obtain q pid where qp: "qp = (q, pid)" by (cases qp)
  let ?room = "make_room now (os_queries st)"
  from assms have st: "distinct (map fst (os_queries st))" "length (os_queries st) \<le> MAX_ORIGINS" by (auto simp: table_ok_def)
  have es: "os_queries (event self now r st) = AList.update q \<lparr>qo_pid = pid, qo_at = now\<rparr> ?room"
    by (simp add: event_queries Some qp)
  show ?thesis
    unfolding es
  proof (rule table_ok_snoc [OF assms])
    show "distinct (map fst (AList.update q \<lparr>qo_pid = pid, qo_at = now\<rparr> ?room))"
      using make_room_keys [OF st(1)] by (rule distinct_update)
    show "length (AList.update q \<lparr>qo_pid = pid, qo_at = now\<rparr> ?room) \<le> MAX_ORIGINS"
      using make_room_length [OF st(2), of now] length_update [of q "\<lparr>qo_pid = pid, qo_at = now\<rparr>" ?room] by linarith
    fix q' v assume "map_of (AList.update q \<lparr>qo_pid = pid, qo_at = now\<rparr> ?room) q' = Some v"
    then show "map_of (os_queries st) q' = Some v \<and> (\<forall>p. question_event self r \<noteq> Some (q', p))
        \<or> question_event self r = Some (q', qo_pid v) \<and> qo_at v = now"
      using Some qp make_room_map_of [OF st(1), of now q' v] by (auto simp: update_conv split: if_splits)
  qed
qed

section \<open>Sessions are released\<close>

lemma reclaim_only_orphans:
  assumes "reclaim probe stop names stopped = (r, stopped')" "name \<in> set stopped'"
  shows "name \<in> set stopped \<or> name \<in> set names \<and> (\<exists>pid. trace_owner name = Some pid \<and> owner_absent (probe pid))"
  using assms
proof (induction names arbitrary: stopped)
  case (Cons a names)
  from Cons.prems(1) consider "reclaim probe stop names stopped = (r, stopped')" | "stopped' = stopped"
    | pid where "trace_owner a = Some pid" "owner_absent (probe pid)" "reclaim probe stop names (stopped @ [a]) = (r, stopped')"
    by (auto split: option.splits if_splits sum.splits)
  then show ?case
  proof cases
    case 3
    with Cons.IH [OF 3(3) Cons.prems(2)] show ?thesis by auto
  qed (use Cons in auto)
qed simp

lemma trace_start_releases:
  assumes "trace_start E = (Inl e, calls)" "es_start E = 0"
  shows "StopTrace \<in> set calls \<and> (CloseTrace \<in> set calls \<longleftrightarrow> OpenTrace \<in> set calls \<and> es_open E \<noteq> INVALID_TRACE)
    \<and> (UnregisterMarker \<in> set calls \<longleftrightarrow> RegisterMarker \<in> set calls \<and> snd (es_register E) \<noteq> 0)"
  using assms by (auto simp: trace_start_def check_status_def trace_drop_def split: sum.splits prod.splits if_splits)

section \<open>Checkpoints fence the events before them\<close>

text \<open>
  The invariant: a checkpoint is never numbered above the sequence, a task's checkpoints with a higher
  number than the one it observed come after the events that precede the task, and a task that has
  been synchronised has all those events behind it.
\<close>

definition late_markers :: "u32 \<Rightarrow> 64 word \<Rightarrow> event_record list \<Rightarrow> nat \<Rightarrow> nat \<Rightarrow> bool" where
  "late_markers self marker_id log n observed =
     (\<forall>i < length log. \<forall>m. marker_of self marker_id (log ! i) = Some m \<longrightarrow> observed < m \<longrightarrow> n \<le> i)"

definition task_ok :: "u32 \<Rightarrow> 64 word \<Rightarrow> event_record list \<Rightarrow> nat \<Rightarrow> nat \<times> sync_phase \<Rightarrow> bool" where
  "task_ok self marker_id log delivered_events tk = (case tk of (n, phase) \<Rightarrow> n \<le> length log \<and> (case phase of
     Entering observed \<Rightarrow> late_markers self marker_id log n observed
   | Checkpointing observed sequence \<Rightarrow> observed < sequence \<and> late_markers self marker_id log n observed
   | Awaiting observed sequence \<Rightarrow> observed < sequence \<and> late_markers self marker_id log n observed
   | Synced \<Rightarrow> n \<le> delivered_events
   | SyncFailed \<Rightarrow> True))"

abbreviation task_fits :: "u32 \<Rightarrow> fence \<Rightarrow> nat \<times> sync_phase \<Rightarrow> bool" where
  "task_fits self s \<equiv> task_ok self (os_marker_id (fe_state s)) (fence_log s) (length (fe_consumed s))"

definition fence_ok :: "u32 \<Rightarrow> fence \<Rightarrow> bool" where
  "fence_ok self s = (table_ok self (fe_consumed s) (os_queries (fe_state s))
     \<and> (os_delivered (fe_state s) = 0 \<or> (\<exists>i < length (fe_consumed s).
           marker_of self (os_marker_id (fe_state s)) (snd (fe_consumed s ! i)) = Some (os_delivered (fe_state s))))
     \<and> (\<forall>r \<in> set (fence_log s). \<forall>m. marker_of self (os_marker_id (fe_state s)) r = Some m \<longrightarrow> m \<le> fe_sequence s)
     \<and> (\<forall>n \<in> set (fe_blocking s). n \<le> fe_sequence s)
     \<and> (\<forall>n observed. (n, Entering observed) \<in> set (fe_tasks s) \<longrightarrow> observed \<le> fe_sequence s)
     \<and> list_all (task_fits self s) (fe_tasks s))"

lemma late_markers_append:
  assumes "late_markers self marker_id log n observed" "n \<le> length log"
  shows "late_markers self marker_id (log @ rs) n observed"
  unfolding late_markers_def
proof (intro allI impI)
  fix i m assume "i < length (log @ rs)" "marker_of self marker_id ((log @ rs) ! i) = Some m" "observed < m"
  then show "n \<le> i" using assms by (cases "i < length log") (auto simp: late_markers_def nth_append)
qed

lemma task_ok_mono:
  assumes "task_ok self marker_id log d tk" "d \<le> d'"
  shows "task_ok self marker_id (log @ rs) d' tk"
  using assms by (auto simp: task_ok_def late_markers_append split: prod.splits sync_phase.splits)

lemma fence_log_simps [simp]:
  "fence_log (s\<lparr>fe_tasks := ts\<rparr>) = fence_log s" "fence_log (s\<lparr>fe_slot := sl\<rparr>) = fence_log s"
  "fence_log (s\<lparr>fe_sequence := n\<rparr>) = fence_log s" "fence_log (s\<lparr>fe_blocking := bl\<rparr>) = fence_log s"
  "fence_log (s\<lparr>fe_written := w\<rparr>) = fence_log s" "fence_log (s\<lparr>fe_stream := fe_stream s @ rs\<rparr>) = fence_log s @ rs"
  by (simp_all add: fence_log_def)

text \<open>What a delivered checkpoint above the observed sequence means for a task.\<close>

lemma delivered_fences:
  assumes "fence_ok self s" "late_markers self (os_marker_id (fe_state s)) (fence_log s) n observed"
    "observed < os_delivered (fe_state s)"
  shows "n \<le> length (fe_consumed s)"
proof -
  from assms(1,3) obtain i where i: "i < length (fe_consumed s)"
    "marker_of self (os_marker_id (fe_state s)) (snd (fe_consumed s ! i)) = Some (os_delivered (fe_state s))"
    by (auto simp: fence_ok_def)
  then have "i < length (fence_log s)" "fence_log s ! i = snd (fe_consumed s ! i)" by (simp_all add: fence_log_def nth_append)
  with assms(2,3) i show ?thesis unfolding late_markers_def by fastforce
qed

lemma fence_ok_set_phase:
  assumes "fence_ok self s" "t < length (fe_tasks s)" "task_fits self s (fst (fe_tasks s ! t), p)"
    "\<And>observed. p \<noteq> Entering observed"
  shows "fence_ok self (set_phase t p s)"
  using assms by (auto simp: fence_ok_def set_phase_def list_all_iff dest!: set_update_subset_insert [THEN subsetD])

lemma fence_ok_append:
  assumes ok: "fence_ok self s" and rs: "\<forall>r \<in> set rs. \<forall>m. marker_of self (os_marker_id (fe_state s)) r = Some m \<longrightarrow> m \<le> fe_sequence s"
  shows "fence_ok self (s\<lparr>fe_stream := fe_stream s @ rs\<rparr>)"
  using assms by (auto simp: fence_ok_def list_all_iff intro: task_ok_mono)

lemma fence_ok_consume:
  assumes ok: "fence_ok self s" and stream: "fe_stream s = r # rest"
  shows "fence_ok self (consume self now r rest s)"
proof -
  let ?s = "consume self now r rest s"
  have log: "fence_log ?s = fence_log s" using stream by (simp add: fence_log_def consume_def)
  have "table_ok self (fe_consumed ?s) (os_queries (fe_state ?s))"
    using ok table_ok_event by (simp add: consume_def fence_ok_def)
  moreover have "os_delivered (fe_state ?s) = 0 \<or> (\<exists>i < length (fe_consumed ?s).
      marker_of self (os_marker_id (fe_state ?s)) (snd (fe_consumed ?s ! i)) = Some (os_delivered (fe_state ?s)))"
  proof (cases "marker_of self (os_marker_id (fe_state s)) r = Some (os_delivered (fe_state ?s))")
    case True
    then show ?thesis by (intro disjI2 exI [of _ "length (fe_consumed s)"]) (simp add: consume_def)
  next
    case False
    then have "os_delivered (fe_state ?s) = os_delivered (fe_state s)"
      by (auto simp: consume_def event_delivered max_def split: option.splits if_splits)
    then show ?thesis using ok by (auto simp: fence_ok_def consume_def nth_append intro: exI)
  qed
  moreover have "list_all (task_fits self ?s) (fe_tasks ?s)"
    using ok task_ok_mono [of self _ "fence_log s" "length (fe_consumed s)" _ "length (fe_consumed ?s)" "[]"] log
    by (auto simp: fence_ok_def list_all_iff consume_def)
  ultimately show ?thesis using ok log by (simp add: fence_ok_def consume_def)
qed

lemma fence_ok_checkpoint:
  assumes ok: "fence_ok self s" and sequence: "sequence \<in> set (fe_blocking s)" and bound: "fe_sequence s < 2 ^ 64"
  shows "fence_ok self (checkpoint_written self sequence ws fs lost s)"
proof -
  obtain r records where c: "checkpoint self (os_marker_id (fe_state s)) sequence ws fs lost = (r, records)" by fastforce
  from ok sequence have le: "sequence \<le> fe_sequence s" by (simp add: fence_ok_def)
  with bound have "marker_of self (os_marker_id (fe_state s)) (marker_record self (os_marker_id (fe_state s)) sequence) = Some sequence"
    by (intro marker_of_record) simp
  with c le have "\<forall>r \<in> set records. \<forall>m. marker_of self (os_marker_id (fe_state s)) r = Some m \<longrightarrow> m \<le> fe_sequence s"
    by (auto simp: checkpoint_def split: sum.splits)
  from fence_ok_append [OF ok this] show ?thesis
    by (auto simp: checkpoint_written_def c fence_ok_def fence_log_def dest: notin_set_remove1 in_set_remove1 [THEN iffD1])
qed

lemma fence_step_sequence: "fence_step self s s' \<Longrightarrow> fe_sequence s \<le> fe_sequence s' \<and> os_marker_id (fe_state s') = os_marker_id (fe_state s)"
  by (erule fence_stepE)
    (auto simp: sync_enter_def sync_acquired_def set_phase_def checkpoint_written_def sync_checkpointed_def sync_poll_def
       sync_cancel_def consume_def Let_def split: prod.splits sum.splits)

lemma fence_ok_enter:
  assumes "fence_ok self s"
  shows "fence_ok self (sync_enter s)"
proof -
  have "late_markers self (os_marker_id (fe_state s)) (fence_log s) (length (fence_log s)) (fe_sequence s)"
    using assms by (fastforce simp: late_markers_def fence_ok_def)
  then show ?thesis using assms by (simp add: fence_ok_def sync_enter_def task_ok_def)
qed

lemma fence_ok_acquired:
  assumes ok: "fence_ok self s" and t: "t < length (fe_tasks s)" "fe_tasks s ! t = (n, Entering observed)"
  shows "fence_ok self (sync_acquired t observed s)"
proof -
  from ok t have task: "n \<le> length (fence_log s)" "late_markers self (os_marker_id (fe_state s)) (fence_log s) n observed"
    by (force simp: fence_ok_def list_all_length task_ok_def)+
  have le: "observed \<le> fe_sequence s" using ok t nth_mem [OF t(1)] by (auto simp: fence_ok_def)
  show ?thesis
  proof (cases "observed < os_delivered (fe_state s)")
    case True
    then have "task_fits self s (fst (fe_tasks s ! t), Synced)"
      using delivered_fences [OF ok task(2) True] task(1) t(2) by (simp add: task_ok_def)
    with fence_ok_set_phase [OF ok t(1) this] True show ?thesis by (simp add: sync_acquired_def)
  next
    case False
    let ?s = "s\<lparr>fe_sequence := fe_sequence s + 1, fe_slot := Some t, fe_blocking := fe_blocking s @ [fe_sequence s + 1]\<rparr>"
    have "fence_ok self ?s" using ok unfolding fence_ok_def by (fastforce simp: list_all_iff)
    from fence_ok_set_phase [OF this, of t "Checkpointing observed (fe_sequence s + 1)"] show ?thesis
      using False t task le by (simp add: sync_acquired_def task_ok_def)
  qed
qed

lemma fence_ok_slot: "fence_ok self (s\<lparr>fe_slot := sl\<rparr>) = fence_ok self s"
  by (simp add: fence_ok_def)

lemma fence_step_ok:
  assumes step: "fence_step self s s'" and ok: "fence_ok self s" and bound: "fe_sequence s' < 2 ^ 64"
  shows "fence_ok self s'"
  using step
proof (cases rule: fence_step.cases)
  case (emitted r)
  then show ?thesis using fence_ok_append [OF ok, of "[r]"] by simp
next
  case entered
  then show ?thesis using fence_ok_enter [OF ok] by simp
next
  case (acquired t n observed)
  then show ?thesis using fence_ok_acquired [OF ok] by simp
next
  case (wrote sequence ws fs lost)
  then show ?thesis using fence_ok_checkpoint [OF ok] fence_step_sequence [OF step] bound by simp
next
  case (checkpointed t n observed sequence r)
  from ok checkpointed have "task_fits self s (n, Checkpointing observed sequence)"
    by (metis fence_ok_def list_all_length)
  then have "task_fits self s (n, Awaiting observed sequence)" "task_fits self s (n, SyncFailed)" by (simp_all add: task_ok_def)
  then show ?thesis using checkpointed ok fence_ok_set_phase [of self _ t] fence_ok_slot
    by (auto simp: sync_checkpointed_def split: sum.splits)
next
  case (polled t n observed sequence)
  from ok polled have task: "task_fits self s (n, Awaiting observed sequence)" by (metis fence_ok_def list_all_length)
  show ?thesis
  proof (cases "sequence \<le> os_delivered (fe_state s)")
    case True
    then have "task_fits self s (n, Synced)" using task delivered_fences [OF ok, of n observed] by (simp add: task_ok_def)
    then show ?thesis using polled True ok fence_ok_set_phase [of self "s\<lparr>fe_slot := None\<rparr>" t Synced] fence_ok_slot
      by (simp add: sync_poll_def)
  next
    case False
    then show ?thesis using polled ok by (simp add: sync_poll_def)
  qed
next
  case (cancelled t)
  from ok cancelled have "task_fits self s (fe_tasks s ! t)" by (simp add: fence_ok_def list_all_length)
  then have "task_fits self s (fst (fe_tasks s ! t), SyncFailed)" by (simp add: task_ok_def split: prod.splits)
  then show ?thesis using cancelled ok fence_ok_set_phase [of self _ t SyncFailed] fence_ok_slot
    by (simp add: sync_cancel_def)
next
  case (consumed r rest now)
  then show ?thesis using fence_ok_consume [OF ok] by simp
qed

lemma fence_reachable_ok:
  "fence_reachable self marker_id s \<Longrightarrow> fe_sequence s < 2 ^ 64 \<Longrightarrow> fence_ok self s \<and> os_marker_id (fe_state s) = marker_id"
proof (induction rule: fence_reachable.induct)
  case initially
  then show ?case by (simp add: fence_ok_def fence_new_def table_ok_def fence_log_def)
next
  case (stepped s s')
  with fence_step_sequence [OF stepped(2)] fence_step_ok [OF stepped(2)] show ?case by simp
qed

text \<open>
  C8.  Attribution is not racing the event stream.  When \<^verbatim>\<open>synchronize\<close> has returned for a request, under
  every interleaving of concurrent requests, cancelled ones, checkpoint writes and the consumer, all
  events written before the request started have been handled.  A caller found in the table then
  asked this very question less than thirty seconds ago, and no event about the question that was
  handled since names another; the table never outgrows its limit.
\<close>

theorem dns_attribution_fenced:
  assumes "fence_reachable self marker_id s" "fe_sequence s < 2 ^ 64"
    and "t < length (fe_tasks s)" "fe_tasks s ! t = (n, Synced)"
  shows "take n (fence_log s) = map snd (take n (fe_consumed s)) \<and> length (os_queries (fe_state s)) \<le> MAX_ORIGINS
    \<and> (\<forall>q now pid. origin_pid (fe_state s) q now = Some pid \<longrightarrow>
         (\<exists>i < length (fe_consumed s). question_event self (snd (fe_consumed s ! i)) = Some (q, pid)
            \<and> now - fst (fe_consumed s ! i) < ORIGIN_TTL
            \<and> (\<forall>j. i < j \<and> j < length (fe_consumed s) \<longrightarrow> (\<forall>p. question_event self (snd (fe_consumed s ! j)) \<noteq> Some (q, p)))))"
proof (intro conjI allI impI)
  from fence_reachable_ok [OF assms(1,2)] have ok: "fence_ok self s" by simp
  then have "task_fits self s (n, Synced)" using assms(3,4) by (metis fence_ok_def list_all_length)
  then show "take n (fence_log s) = map snd (take n (fe_consumed s))" by (simp add: task_ok_def fence_log_def take_map)
  from ok have table: "table_ok self (fe_consumed s) (os_queries (fe_state s))" by (simp add: fence_ok_def)
  then show "length (os_queries (fe_state s)) \<le> MAX_ORIGINS" by (simp add: table_ok_def)
  fix q now pid assume "origin_pid (fe_state s) q now = Some pid"
  then obtain v where v: "map_of (os_queries (fe_state s)) q = Some v" "now - qo_at v < ORIGIN_TTL" "pid = qo_pid v"
    by (auto simp: origin_pid_def split: option.splits if_splits)
  from table_ok_entry [OF table v(1)] v(2,3)
  show "\<exists>i < length (fe_consumed s). question_event self (snd (fe_consumed s ! i)) = Some (q, pid)
      \<and> now - fst (fe_consumed s ! i) < ORIGIN_TTL
      \<and> (\<forall>j. i < j \<and> j < length (fe_consumed s) \<longrightarrow> (\<forall>p. question_event self (snd (fe_consumed s ! j)) \<noteq> Some (q, p)))"
    by (metis (no_types, lifting))
qed

text \<open>A question of process 9 that is written before a request, which then waits for its checkpoint.\<close>

definition demo_event :: event_record where
  "demo_event = \<lparr>er_null = False, er_provider = DNS_PROVIDER, er_process = 9, er_id = 3006, er_version = 0,
     er_data = [97, 0, 0, 0, 1, 0, 0, 0]\<rparr>"

definition demo_waiting :: fence where
  "demo_waiting = sync_checkpointed 0 0 1 (Inr ()) (checkpoint_written 1 1 0 0 False
     (sync_acquired 0 0 (sync_enter ((fence_new 4)\<lparr>fe_stream := [demo_event]\<rparr>))))"

definition demo_synced :: fence where
  "demo_synced = sync_poll 0 1 (consume 1 6 (marker_record 1 4 1) []
     (consume 1 5 demo_event [marker_record 1 4 1] demo_waiting))"

lemmas fence_defs = sync_checkpointed_def checkpoint_written_def checkpoint_def check_status_def sync_acquired_def
  sync_enter_def set_phase_def fence_new_def fence_log_def Let_def

lemma demo_waiting_value:
  "demo_waiting = (fence_new 4)\<lparr>fe_sequence := 1, fe_slot := Some 0, fe_tasks := [(1, Awaiting 0 1)],
     fe_written := [(1, Inr ())], fe_stream := [demo_event, marker_record 1 4 1]\<rparr>"
  by (simp add: demo_waiting_def fence_defs)

lemma demo_event_foreign: "marker_of 1 4 demo_event = None"
  by (simp add: marker_of_def demo_event_def DNS_PROVIDER_def CHECKPOINT_PROVIDER_def)

lemma demo_waiting_reachable: "fence_reachable 1 4 demo_waiting"
proof -
  let ?s1 = "(fence_new 4)\<lparr>fe_stream := [demo_event]\<rparr>"
  let ?s2 = "sync_enter ?s1"
  let ?s3 = "sync_acquired 0 0 ?s2"
  let ?s4 = "checkpoint_written 1 1 0 0 False ?s3"
  have 1: "fence_step 1 (fence_new 4) ?s1"
    using emitted [of 1 "fence_new 4" demo_event] demo_event_foreign by (simp add: fence_new_def)
  have 2: "fence_step 1 ?s1 ?s2" by (rule entered)
  have 3: "fence_step 1 ?s2 ?s3" by (rule acquired) (simp_all add: fence_defs)
  have 4: "fence_step 1 ?s3 ?s4" by (rule wrote) (simp add: fence_defs)
  have 5: "fence_step 1 ?s4 demo_waiting"
    unfolding demo_waiting_def by (rule checkpointed) (simp_all add: fence_defs)
  show ?thesis by (rule stepped [OF stepped [OF stepped [OF stepped [OF stepped [OF initially 1] 2] 3] 4] 5])
qed

lemma demo_synced_reachable: "fence_reachable 1 4 demo_synced"
proof -
  let ?s6 = "consume 1 5 demo_event [marker_record 1 4 1] demo_waiting"
  let ?s7 = "consume 1 6 (marker_record 1 4 1) [] ?s6"
  have 6: "fence_step 1 demo_waiting ?s6" by (rule consumed) (simp add: demo_waiting_value)
  have 7: "fence_step 1 ?s6 ?s7" by (rule consumed) (simp add: consume_def)
  have 8: "fence_step 1 ?s7 demo_synced"
    unfolding demo_synced_def by (rule polled [where n = 1 and observed = 0]) (simp_all add: consume_def demo_waiting_value)
  show ?thesis by (rule stepped [OF stepped [OF stepped [OF demo_waiting_reachable 6] 7] 8])
qed

theorem dns_attribution_fenced_witness:
  "fe_tasks demo_synced = [(1, Synced)] \<and> take 1 (fence_log demo_synced) = map snd (take 1 (fe_consumed demo_synced))"
proof -
  have "marker_of 1 4 (marker_record 1 4 1) = Some 1" by (rule marker_of_record) simp
  then have tasks: "fe_tasks demo_synced = [(1, Synced)]" "fe_sequence demo_synced = 1"
    by (simp_all add: demo_synced_def sync_poll_def consume_def event_delivered demo_event_foreign demo_waiting_value
        set_phase_def fence_new_def)
  from dns_attribution_fenced [OF demo_synced_reachable, of 0 1] tasks show ?thesis by simp
qed

end
