(* ===== verification/DnsRouting.thy ===== *)
theory DnsRouting
  imports ProcessPolicy Direct "HOL-Library.Sublist"
begin

text \<open>
  DNS questions answered through the physical interface (\<^verbatim>\<open>src/physical_dns.rs\<close>) and the routing of
  each question of a client to the physical resolver or to the proxy (\<^verbatim>\<open>src/dns_routing.rs\<close>).  Streams are
  the octets up to their end, which is the end of the stream or an error; writes are collected, and
  \<^verbatim>\<open>wr sent data\<close> is the error with which a stream refuses to write \<^verbatim>\<open>data\<close> after \<^verbatim>\<open>sent\<close>, if it does.
\<close>

section \<open>Frames of a stream\<close>

definition read_n :: "io_error option \<Rightarrow> nat \<Rightarrow> bytes \<Rightarrow> (bytes \<times> bytes) io_result" where
  "read_n fin n s =
     (if length s < n
      then Inl (case fin of None \<Rightarrow> IoError UnexpectedEof ''failed to fill whole buffer'' | Some e \<Rightarrow> e)
      else Inr (take n s, drop n s))"

type_synonym stream_writer = "bytes \<Rightarrow> bytes \<Rightarrow> io_error option"

definition write_octets :: "stream_writer \<Rightarrow> bytes \<Rightarrow> bytes \<Rightarrow> bytes io_result" where
  "write_octets wr sent data = (case wr sent data of Some e \<Rightarrow> Inl e | None \<Rightarrow> Inr (sent @ data))"

text \<open>
  The loop that both DNS-over-TCP servers run: one request frame, its answer, one reply frame.  The
  answer may change a state; \<^verbatim>\<open>conv\<close> embeds I/O errors and \<^verbatim>\<open>too_long\<close> is the error for a reply whose length
  has no 16-bit prefix.
\<close>

function serve_frames ::
  "(io_error \<Rightarrow> 'e) \<Rightarrow> 'e \<Rightarrow> ('s \<Rightarrow> bytes \<Rightarrow> ('e + bytes) \<times> 's) \<Rightarrow> stream_writer \<Rightarrow> io_error option \<Rightarrow> 's
     \<Rightarrow> bytes \<Rightarrow> bytes \<Rightarrow> ('e + unit) \<times> 's \<times> bytes" where
  "serve_frames conv too_long f wr fin st input sent =
     (if input = [] then (case fin of None \<Rightarrow> Inr () | Some e \<Rightarrow> Inl (conv e), st, sent)
      else case read_n fin 2 input of
        Inl e \<Rightarrow> (Inl (conv e), st, sent)
      | Inr (head2, rest) \<Rightarrow> (case read_n fin (nat_of_be head2) rest of
          Inl e \<Rightarrow> (Inl (conv e), st, sent)
        | Inr (request, input') \<Rightarrow> (case f st request of
            (Inl e, st') \<Rightarrow> (Inl e, st', sent)
          | (Inr response, st') \<Rightarrow>
              if length response \<ge> 2 ^ 16 then (Inl too_long, st', sent)
              else (case write_octets wr sent (to_be_bytes (of_nat (length response) :: u16)) of
                  Inl e \<Rightarrow> (Inl (conv e), st', sent)
                | Inr sent1 \<Rightarrow> (case write_octets wr sent1 response of
                    Inl e \<Rightarrow> (Inl (conv e), st', sent1)
                  | Inr sent2 \<Rightarrow> serve_frames conv too_long f wr fin st' input' sent2)))))"
  by pat_completeness auto

termination
  by (relation "measure (\<lambda>(conv, too_long, f, wr, fin, st, input, sent). length input)")
    (auto simp: read_n_def split: if_splits)

declare serve_frames.simps [simp del]

section \<open>Physical DNS\<close>

text \<open>The payload limit a client announces and the truncation of a message belong to the codec.\<close>

record 'n edns =
  ed_max_payload :: "'n message \<Rightarrow> nat"
  ed_truncate :: "'n message \<Rightarrow> 'n message"

definition to_vec_io :: "'n hickory \<Rightarrow> 'n message \<Rightarrow> bytes io_result" where
  "to_vec_io H m = (case to_vec H m of Inl e \<Rightarrow> Inl (IoError OtherKind []) | Inr bs \<Rightarrow> Inr bs)"

definition encode_response :: "'n hickory \<Rightarrow> 'n edns \<Rightarrow> 'n message \<Rightarrow> nat option \<Rightarrow> bytes io_result" where
  "encode_response H X response max_size =
     rbind (to_vec_io H response) (\<lambda>bs.
       if (case max_size of None \<Rightarrow> False | Some limit \<Rightarrow> length bs > limit)
       then to_vec_io H (ed_truncate X response) else Inr bs)"

definition servfail :: "'n message \<Rightarrow> 'n message" where
  "servfail m = m\<lparr>message_type := ResponseMessage, response_code := ServFail, answers := []\<rparr>"

text \<open>\<^verbatim>\<open>answer\<close>; \<^verbatim>\<open>slot\<close> tells that one of the permits for concurrent queries is free.\<close>

definition physical_answer ::
  "'n hickory \<Rightarrow> 'n edns \<Rightarrow> dns_net \<Rightarrow> bool \<Rightarrow> bytes \<Rightarrow> ip_addr \<Rightarrow> bind_interface \<Rightarrow> bool \<Rightarrow> bool \<Rightarrow> bytes io_result" where
  "physical_answer H X N slot request configured_dns iface ipv6 udp =
     rbind (io_as OtherKind (parse_data_to_dns_message H request False)) (\<lambda>query.
     rbind (io_as OtherKind (validate_dns_query query)) (\<lambda>_.
       let max_size = (if udp then Some (ed_max_payload X query) else None);
           result = (if slot then query_bound H N request configured_dns iface
                     else Inl (IoError WouldBlock ''physical DNS query capacity exhausted'')) in
       rbind (case result of
                Inr bs \<Rightarrow> io_as OtherKind (parse_data_to_dns_message H bs False)
              | Inl e \<Rightarrow> Inr (servfail query)) (\<lambda>response.
         encode_response H X (if ipv6 then response else remove_ipv6_entries response) max_size)))"

definition physical_tcp ::
  "'n hickory \<Rightarrow> 'n edns \<Rightarrow> (nat \<Rightarrow> dns_net) \<Rightarrow> (nat \<Rightarrow> bool) \<Rightarrow> ip_addr \<Rightarrow> bind_interface \<Rightarrow> bool \<Rightarrow> stream_writer
     \<Rightarrow> io_error option \<Rightarrow> bytes \<Rightarrow> unit io_result \<times> nat \<times> bytes" where
  "physical_tcp H X N slot configured_dns iface ipv6 wr fin input =
     serve_frames id (IoError OtherKind [])
       (\<lambda>k request. (physical_answer H X (N k) (slot k) request configured_dns iface ipv6 False, k + 1)) wr fin 0 input []"

text \<open>
  \<^verbatim>\<open>udp\<close>: at most sixteen questions are in flight.  An event is a received datagram (or the end or an
  error of the stream), or the completion of one of the queries with its answer or a failed task.
\<close>

datatype udp_dns_event = DnsDatagram "bytes option io_result" | DnsCompleted nat "bytes io_result io_result"

fun physical_udp ::
  "(bytes \<Rightarrow> unit io_result) \<Rightarrow> udp_dns_event list \<Rightarrow> (nat \<times> bytes) list \<Rightarrow> nat \<Rightarrow> bytes list \<Rightarrow> unit io_result poll \<times> bytes list" where
  "physical_udp send [] running k sent = (Pending, sent)"
| "physical_udp send (DnsDatagram r # es) running k sent =
     (if length running < 16 then (case r of
          Inl e \<Rightarrow> (Ready (Inl e), sent)
        | Inr None \<Rightarrow> (Ready (Inr ()), sent)
        | Inr (Some request) \<Rightarrow> physical_udp send es (running @ [(k, request)]) (k + 1) sent)
      else physical_udp send es running k sent)"
| "physical_udp send (DnsCompleted i r # es) running k sent =
     (if map_of running i = None then physical_udp send es running k sent
      else let running' = filter (\<lambda>q. fst q \<noteq> i) running in (case r of
          Inl e \<Rightarrow> (Ready (Inl e), sent)
        | Inr (Inl e) \<Rightarrow> physical_udp send es running' k sent
        | Inr (Inr response) \<Rightarrow> (case send response of
            Inl e \<Rightarrow> (Ready (Inl e), sent)
          | Inr _ \<Rightarrow> physical_udp send es running' k (sent @ [response]))))"

section \<open>The connection to the proxy\<close>

text \<open>
  The connection is opened with the first question: \<^verbatim>\<open>uv_connect\<close> is the outcome of connecting and of the
  proxy handshake, \<^verbatim>\<open>us_input\<close> what the resolver behind the proxy sends, and \<^verbatim>\<open>uv_stat\<close> the outcome of the
  traffic statistics.
\<close>

record upstream =
  us_connected :: bool
  us_input :: bytes
  us_sent :: bytes

record upstream_env =
  uv_connect :: "unit result"
  uv_write :: stream_writer
  uv_fin :: "io_error option"
  uv_stat :: "unit result"

definition write_request :: "upstream_env \<Rightarrow> bytes \<Rightarrow> upstream \<Rightarrow> unit result \<times> upstream" where
  "write_request U request us =
     (if length request \<ge> 2 ^ 16 then (Inl TryFromInt, us)
      else case write_octets (uv_write U) (us_sent us) (tcp_frame request) of
        Inl e \<Rightarrow> (Inl (Io e), us)
      | Inr sent \<Rightarrow> (uv_stat U, us\<lparr>us_sent := sent\<rparr>))"

definition upstream_send :: "upstream_env \<Rightarrow> bytes \<Rightarrow> upstream \<Rightarrow> unit result \<times> upstream" where
  "upstream_send U request us =
     (if \<not> us_connected us then (case uv_connect U of
          Inl e \<Rightarrow> (Inl e, us)
        | Inr _ \<Rightarrow> write_request U request (us\<lparr>us_connected := True\<rparr>))
      else write_request U request us)"

definition dns_error :: "string + 'a \<Rightarrow> 'a result" where
  "dns_error r = (case r of Inl e \<Rightarrow> Inl (StringError e) | Inr x \<Rightarrow> Inr x)"

definition read_reply :: "upstream_env \<Rightarrow> upstream \<Rightarrow> bytes result \<times> upstream" where
  "read_reply U us = (case read_n (uv_fin U) 2 (us_input us) of
     Inl e \<Rightarrow> (Inl (Io e), us)
   | Inr (head2, rest) \<Rightarrow> (case read_n (uv_fin U) (nat_of_be head2) rest of
       Inl e \<Rightarrow> (Inl (Io e), us\<lparr>us_input := rest\<rparr>)
     | Inr (response, rest') \<Rightarrow> (rbind (uv_stat U) (\<lambda>_. Inr response), us\<lparr>us_input := rest'\<rparr>)))"

definition upstream_exchange ::
  "'n hickory \<Rightarrow> upstream_env \<Rightarrow> bytes \<Rightarrow> upstream \<Rightarrow> bytes result \<times> upstream" where
  "upstream_exchange H U request us =
     (case rbind (dns_error (parse_data_to_dns_message H request False)) (\<lambda>query.
             rbind (dns_error (validate_dns_query query)) (\<lambda>question. Inr (query, question))) of
        Inl e \<Rightarrow> (Inl e, us)
      | Inr (query, question) \<Rightarrow> (case upstream_send U request us of
          (Inl e, us1) \<Rightarrow> (Inl e, us1)
        | (Inr _, us1) \<Rightarrow> (case read_reply U us1 of
            (Inl e, us2) \<Rightarrow> (Inl e, us2)
          | (Inr response, us2) \<Rightarrow>
              (rbind (dns_error (parse_data_to_dns_message H response False)) (\<lambda>message.
               rbind (dns_error (validate_dns_response H message (msg_id query) question)) (\<lambda>_. Inr response)), us2))))"

text \<open>
  \<^verbatim>\<open>forward\<close>: after the first request the two halves of the connection are polled independently.  An
  event is a request of the channel or its end, octets of the proxy or the end of its stream;
  \<^verbatim>\<open>takes\<close> is the number of replies that the receiving side of the channel takes before it closes.
\<close>

datatype forward_event =
  FwdRequest bytes | FwdRequestsClosed | FwdOctets bytes | FwdEnd "io_error option"

function take_frames :: "bytes \<Rightarrow> bytes list \<times> bytes" where
  "take_frames buf =
     (if length buf < 2 \<or> length buf < 2 + nat_of_be (take 2 buf) then ([], buf)
      else let n = nat_of_be (take 2 buf); (frames, rest) = take_frames (drop (2 + n) buf) in
        (take n (drop 2 buf) # frames, rest))"
  by pat_completeness auto

termination
  by (relation "measure length") auto

declare take_frames.simps [simp del]

fun deliver_replies :: "upstream_env \<Rightarrow> nat \<Rightarrow> bytes list \<Rightarrow> bytes list \<Rightarrow> unit result poll \<times> bytes list" where
  "deliver_replies U takes [] got = (Pending, got)"
| "deliver_replies U takes (response # frames) got = (case uv_stat U of
     Inl e \<Rightarrow> (Ready (Inl e), got)
   | Inr _ \<Rightarrow> if length got < takes then deliver_replies U takes frames (got @ [response])
             else (Ready (Inr ()), got))"

fun forward_loop ::
  "upstream_env \<Rightarrow> nat \<Rightarrow> forward_event list \<Rightarrow> upstream \<Rightarrow> bytes \<Rightarrow> bytes list \<Rightarrow> unit result poll \<times> upstream \<times> bytes list" where
  "forward_loop U takes [] us buf got = (Pending, us, got)"
| "forward_loop U takes (FwdRequest request # es) us buf got = (case write_request U request us of
     (Inl e, us') \<Rightarrow> (Ready (Inl e), us', got)
   | (Inr _, us') \<Rightarrow> forward_loop U takes es us' buf got)"
| "forward_loop U takes (FwdRequestsClosed # es) us buf got = (Ready (Inr ()), us, got)"
| "forward_loop U takes (FwdOctets data # es) us buf got = (case take_frames (buf @ data) of
     (frames, rest) \<Rightarrow> (case deliver_replies U takes frames got of
        (Ready r, got') \<Rightarrow> (Ready r, us, got')
      | (Pending, got') \<Rightarrow> forward_loop U takes es us rest got'))"
| "forward_loop U takes (FwdEnd fin # es) us buf got =
     (Ready (if buf = [] \<and> fin = None then Inr ()
             else Inl (Io (case fin of None \<Rightarrow> IoError UnexpectedEof ''failed to fill whole buffer'' | Some e \<Rightarrow> e))), us, got)"

definition upstream_forward ::
  "upstream_env \<Rightarrow> nat \<Rightarrow> bytes option \<Rightarrow> forward_event list \<Rightarrow> upstream \<Rightarrow> unit result poll \<times> upstream \<times> bytes list" where
  "upstream_forward U takes first events us = (case first of
     None \<Rightarrow> (Ready (Inr ()), us, [])
   | Some request \<Rightarrow> (case upstream_send U request us of
       (Inl e, us') \<Rightarrow> (Ready (Inl e), us', [])
     | (Inr _, us') \<Rightarrow> forward_loop U takes events us' [] []))"

section \<open>Routing of a question\<close>

text \<open>
  The trait \<^verbatim>\<open>DnsOverride\<close> over a state of the implementation, and its implementations.  \<^verbatim>\<open>pd_origins\<close>
  asks who caused a question, on Windows while the attribution is running; the domain is extracted for
  a log message, so only when that level is logged.
\<close>

record 'o dns_override =
  dv_active :: bool
  dv_matches :: "'o \<Rightarrow> bytes \<Rightarrow> bool result \<times> 'o"
  dv_answer :: "'o \<Rightarrow> bytes \<Rightarrow> bool \<Rightarrow> bytes result \<times> 'o"

definition no_dns_override :: "'o dns_override" where
  "no_dns_override = \<lparr>dv_active = False, dv_matches = (\<lambda>o' _. (Inr False, o')),
     dv_answer = (\<lambda>o' _ _. (Inl (StringError ''DNS override is unavailable''), o'))\<rparr>"

record 'o process_dns =
  pd_origins :: "('o \<Rightarrow> bytes \<Rightarrow> bool result \<times> 'o) option"
  pd_interface :: "bind_interface option"
  pd_configured_dns :: ip_addr
  pd_ipv6 :: bool
  pd_info_log :: bool

definition process_dns_answer ::
  "'n hickory \<Rightarrow> 'n edns \<Rightarrow> dns_net \<Rightarrow> bool \<Rightarrow> 'o process_dns \<Rightarrow> bytes \<Rightarrow> bool \<Rightarrow> bytes result" where
  "process_dns_answer H X N slot D request udp = (case pd_interface D of
     None \<Rightarrow> Inl (StringError ''physical DNS interface unavailable'')
   | Some iface \<Rightarrow>
       rbind (io_result_error (physical_answer H X N slot request (pd_configured_dns D) iface (pd_ipv6 D) udp)) (\<lambda>response.
       rbind (dns_error (parse_data_to_dns_message H response False)) (\<lambda>message.
       if pd_info_log D then rbind (dns_error (extract_domain_from_dns_message H message)) (\<lambda>_. Inr response)
       else Inr response)))"

definition process_dns_override ::
  "'n hickory \<Rightarrow> 'n edns \<Rightarrow> dns_net \<Rightarrow> bool \<Rightarrow> 'o process_dns \<Rightarrow> 'o dns_override" where
  "process_dns_override H X N slot D =
     \<lparr>dv_active = (pd_interface D \<noteq> None \<and> pd_origins D \<noteq> None),
      dv_matches = (\<lambda>o' request. case (pd_interface D, pd_origins D) of
         (Some _, Some origins) \<Rightarrow> origins o' request
       | _ \<Rightarrow> (Inr False, o')),
      dv_answer = (\<lambda>o' request udp. (process_dns_answer H X N slot D request udp, o'))\<rparr>"

definition route_question ::
  "'n hickory \<Rightarrow> upstream_env \<Rightarrow> 'o dns_override \<Rightarrow> bool \<Rightarrow> upstream \<times> 'o \<Rightarrow> bytes \<Rightarrow> bytes result \<times> (upstream \<times> 'o)" where
  "route_question H U R ipv6 st request = (case st of (us, o') \<Rightarrow>
     (case dv_matches R o' request of
        (Inl e, o1) \<Rightarrow> (Inl e, (us, o1))
      | (Inr matched, o1) \<Rightarrow>
          (case (if matched then (case dv_answer R o1 request False of (r, o2) \<Rightarrow> (r, (us, o2)))
                 else (case upstream_exchange H U request us of (r, us2) \<Rightarrow> (r, (us2, o1)))) of
             (r, st') \<Rightarrow>
               (rbind r (\<lambda>response.
                rbind (dns_error (parse_data_to_dns_message H response False)) (\<lambda>message.
                  to_vec H (if ipv6 then message else remove_ipv6_entries message))), st'))))"

definition routing_tcp ::
  "'n hickory \<Rightarrow> upstream_env \<Rightarrow> 'o dns_override \<Rightarrow> bool \<Rightarrow> stream_writer \<Rightarrow> io_error option \<Rightarrow> upstream \<times> 'o \<Rightarrow> bytes
     \<Rightarrow> unit result \<times> (upstream \<times> 'o) \<times> bytes" where
  "routing_tcp H U R ipv6 wr fin st input = serve_frames Io TryFromInt (route_question H U R ipv6) wr fin st input []"

section \<open>Laws of the codec\<close>

text \<open>
  What the code relies on of the codec: what it encodes it decodes again, a name equals itself, and a
  truncated message keeps the header and the question, carries the truncation flag and no record.
\<close>

definition codec_faithful :: "'n hickory \<Rightarrow> bool" where
  "codec_faithful H = ((\<forall>m bs. to_vec H m = Inr bs \<longrightarrow> from_vec H bs = Inr m) \<and> (\<forall>n. eq_ignore_root H n n))"

definition truncates :: "'n edns \<Rightarrow> bool" where
  "truncates X = (\<forall>m. ed_truncate X m = m\<lparr>truncation := True, answers := [], authorities := [], additionals := [],
     signature := signature (ed_truncate X m)\<rparr>)"

text \<open>The reply that a client may be given for a request.\<close>

definition ipv6_free :: "'n message \<Rightarrow> bool" where
  "ipv6_free m = list_all (\<lambda>r. \<not> is_AAAA r) (answers m @ authorities m @ additionals m)"

definition replies_to :: "'n hickory \<Rightarrow> bytes \<Rightarrow> bytes \<Rightarrow> bool" where
  "replies_to H request response = (\<exists>query question m. from_vec H request = Inr query
     \<and> validate_dns_query query = Inr question \<and> from_vec H response = Inr m
     \<and> validate_dns_response H m (msg_id query) question = Inr ())"

definition filtered_reply :: "'n hickory \<Rightarrow> bool \<Rightarrow> bytes \<Rightarrow> bytes \<Rightarrow> bool" where
  "filtered_reply H ipv6 request response =
     (replies_to H request response \<and> (ipv6 \<or> (\<exists>m. from_vec H response = Inr m \<and> ipv6_free m)))"

section \<open>Lemmas\<close>

lemma dns_error_Inr [simp]: "dns_error r = Inr x \<longleftrightarrow> r = Inr x"
  by (cases r) (simp_all add: dns_error_def)

lemma to_vec_io_Inr [simp]: "to_vec_io H m = Inr bs \<longleftrightarrow> to_vec H m = Inr bs"
  by (cases "to_vec H m") (simp_all add: to_vec_io_def)

lemma parse_plain [simp]: "parse_data_to_dns_message H data False = from_vec H data"
  by (simp add: parse_data_to_dns_message_def)

lemma validate_response_header:
  assumes "validate_dns_response H m i q = Inr ()" "message_type m' = message_type m" "op_code m' = op_code m"
    "msg_id m' = msg_id m" "queries m' = queries m"
  shows "validate_dns_response H m' i q = Inr ()"
  using assms by (simp only: validate_dns_response_def)

lemma validate_response_remove [simp]:
  "validate_dns_response H (remove_ipv6_entries m) i q = validate_dns_response H m i q"
  by (cases "queries m") (simp_all add: validate_dns_response_def remove_ipv6_entries_def)

lemma ipv6_free_remove [simp]: "ipv6_free (remove_ipv6_entries m)"
  by (auto simp: ipv6_free_def remove_ipv6_entries_def list_all_iff)

lemma servfail_valid:
  assumes "validate_dns_query query = Inr question" "codec_faithful H"
  shows "validate_dns_response H (servfail query) (msg_id query) question = Inr ()"
  using validate_dns_queryD [OF assms(1)] assms(2)
  by (simp add: validate_dns_response_def servfail_def codec_faithful_def names_equal_def)

text \<open>What the truncation and the encoding keep.\<close>

lemma encode_response_Inr:
  assumes enc: "encode_response H X response max_size = Inr bs"
    and codec: "codec_faithful H" and trunc: "truncates X"
  obtains m where "from_vec H bs = Inr m"
    "\<And>i q. validate_dns_response H response i q = Inr () \<Longrightarrow> validate_dns_response H m i q = Inr ()"
    "ipv6_free response \<Longrightarrow> ipv6_free m"
    "m = response \<or> truncation m \<and> answers m = []"
    "\<And>limit. max_size = Some limit \<Longrightarrow> length bs \<le> limit \<or> truncation m"
proof -
  let ?t = "ed_truncate X response"
  from trunc obtain sig where "?t = response\<lparr>truncation := True, answers := [], authorities := [], additionals := [],
      signature := sig\<rparr>"
    unfolding truncates_def by blast
  then have t: "message_type ?t = message_type response" "op_code ?t = op_code response" "msg_id ?t = msg_id response"
      "queries ?t = queries response" "truncation ?t" "answers ?t = []" "authorities ?t = []" "additionals ?t = []"
    by simp_all
  from enc consider (full) "to_vec H response = Inr bs" "\<And>limit. max_size = Some limit \<Longrightarrow> length bs \<le> limit"
    | (cut) "to_vec H ?t = Inr bs"
    unfolding encode_response_def by (auto simp: rbind_Inr_iff split: if_splits option.splits)
  then show ?thesis
  proof cases
    case full
    then show ?thesis using codec that [of response] unfolding codec_faithful_def by blast
  next
    case cut
    then have "from_vec H bs = Inr ?t" using codec unfolding codec_faithful_def by blast
    then show ?thesis
      by (rule that) (use t in \<open>auto simp: ipv6_free_def intro: validate_response_header\<close>)
  qed
qed

lemma query_bound_Inr:
  assumes "query_bound H N request configured_dns iface = Inr bs" "codec_faithful H"
    "from_vec H request = Inr query" "validate_dns_query query = Inr question"
  shows "\<exists>m server. from_vec H bs = Inr m \<and> validate_dns_response H m (msg_id query) question = Inr ()
    \<and> answered_code m \<and> replied H N request server m
    \<and> server \<in> set (map (\<lambda>ip. SocketAddr ip 53) (direct_dns_servers configured_dns iface))"
proof -
  from assms obtain m where m: "query_dns_bound H N request (msg_id query) question configured_dns iface = Inr m"
      "to_vec H m = Inr bs"
    by (auto simp: query_bound_def rbind_Inr_iff simp flip: to_vec_io_def)
  with assms(2) have "from_vec H bs = Inr m" unfolding codec_faithful_def by blast
  with query_dns_servers_sound [OF m(1) [unfolded query_dns_bound_def]] show ?thesis by blast
qed

lemma nat_of_be_frame [simp]: "length p < 65536 \<Longrightarrow> nat_of_be (take 2 (tcp_frame p)) = length p"
  using nat_of_be16 [of p] by (simp add: tcp_frame_def)

lemma tcp_frame_of_read:
  assumes "read_n fin 2 input = Inr (p, rest)" "read_n fin (nat_of_be p) rest = Inr (request, input')"
  shows "input = tcp_frame request @ input'"
proof -
  from assms have p: "p = take 2 input" "length p = 2" "rest = drop 2 input"
      "request = take (nat_of_be p) rest" "length request = nat_of_be p" "input' = drop (nat_of_be p) rest"
    by (auto simp: read_n_def split: if_splits)
  have "nat_of_be p < 65536" using nat_of_be_less [of p] p(2) by simp
  then have "unat (of_nat (length request) :: u16) = nat_of_be p"
    using p(5) by (simp add: unat_of_nat take_bit_eq_mod)
  then have "to_be_bytes (of_nat (length request) :: u16) = p"
    using be_of_nat_of_be [of p] p(2) by (simp add: to_be_bytes_def)
  moreover have "rest = request @ input'" unfolding p(4,6) by (rule append_take_drop_id [symmetric])
  moreover have "input = p @ rest" unfolding p(1,3) by (rule append_take_drop_id [symmetric])
  ultimately show ?thesis by (simp add: tcp_frame_def)
qed

lemma serve_frames_cases:
  assumes "serve_frames conv too_long f wr fin st input sent = (r, st', out)"
  obtains (stop) "out = sent" "r \<noteq> Inr ()"
    | (ended) "input = []" "fin = None" "out = sent" "r = Inr ()"
    | (torn) request input' response st1 where "input = tcp_frame request @ input'" "f st request = (Inr response, st1)"
        "prefix out (sent @ tcp_frame response)" "r \<noteq> Inr ()"
    | (served) request input' response st1 where "input = tcp_frame request @ input'" "f st request = (Inr response, st1)"
        "serve_frames conv too_long f wr fin st1 input' (sent @ tcp_frame response) = (r, st', out)"
proof (cases "input = []")
  case True
  with assms show ?thesis using that(1,2) by (auto simp: serve_frames.simps [of conv] split: option.splits)
next
  case False
  note run = assms [unfolded serve_frames.simps [of conv too_long f wr fin st input]]
  show ?thesis
  proof (cases "\<exists>p rest request input' response st1. read_n fin 2 input = Inr (p, rest)
      \<and> read_n fin (nat_of_be p) rest = Inr (request, input') \<and> f st request = (Inr response, st1)")
    case True
    then obtain p rest request input' response st1 where *: "read_n fin 2 input = Inr (p, rest)"
        "read_n fin (nat_of_be p) rest = Inr (request, input')" "f st request = (Inr response, st1)" by blast
    note input = tcp_frame_of_read [OF *(1,2)]
    show ?thesis
      using run False * that(1) that(3,4) [OF input *(3)]
      by (auto simp: write_octets_def tcp_frame_def split: if_splits option.splits)
  next
    case no: False
    show ?thesis
      using run False no by (intro that(1)) (auto split: sum.splits prod.splits)
  qed
qed

text \<open>
  Whatever the answering function promises for each request holds for the replies on the wire: they
  answer the requests in their order, and after an orderly end all of them have been written.
\<close>

lemma serve_frames_sound:
  assumes "serve_frames conv too_long f wr fin st input sent = (r, st', out)"
    and f: "\<And>st request response st'. f st request = (Inr response, st') \<Longrightarrow> P request response"
  shows "\<exists>requests responses rest. input = concat (map tcp_frame requests) @ rest \<and> list_all2 P requests responses
    \<and> prefix out (sent @ concat (map tcp_frame responses))
    \<and> (r = Inr () \<longrightarrow> rest = [] \<and> fin = None \<and> out = sent @ concat (map tcp_frame responses))"
  using assms(1)
proof (induction "length input" arbitrary: st input sent rule: less_induct)
  case less
  from less.prems show ?case
  proof (cases rule: serve_frames_cases)
    case stop
    then show ?thesis by (intro exI [of _ "[]"] exI [of _ input]) simp
  next
    case ended
    then show ?thesis by (intro exI [of _ "[]"]) simp
  next
    case (torn request input' response st1)
    then show ?thesis using f [OF torn(2)]
      by (intro exI [of _ "[request]"] exI [of _ "[response]"] exI [of _ input']) simp
  next
    case (served request input' response st1)
    then have "length input' < length input" by (simp add: tcp_frame_def)
    from less.hyps [OF this served(3)] obtain requests responses rest where
      "input' = concat (map tcp_frame requests) @ rest" "list_all2 P requests responses"
      "prefix out ((sent @ tcp_frame response) @ concat (map tcp_frame responses))"
      "r = Inr () \<longrightarrow> rest = [] \<and> fin = None \<and> out = (sent @ tcp_frame response) @ concat (map tcp_frame responses)"
      by blast
    then show ?thesis using f [OF served(2)] served(1)
      by (intro exI [of _ "request # requests"] exI [of _ "response # responses"] exI [of _ rest]) simp
  qed
qed

text \<open>The converse: with a client that keeps reading, requests that can be answered are all answered.\<close>

fun answer_all :: "('s \<Rightarrow> bytes \<Rightarrow> ('e + bytes) \<times> 's) \<Rightarrow> 's \<Rightarrow> bytes list \<Rightarrow> (bytes list \<times> 's) option" where
  "answer_all f st [] = Some ([], st)"
| "answer_all f st (request # requests) = (case f st request of
     (Inl e, st1) \<Rightarrow> None
   | (Inr response, st1) \<Rightarrow> if length response \<ge> 2 ^ 16 then None
       else map_option (\<lambda>(rs, st2). (response # rs, st2)) (answer_all f st1 requests))"

lemma serve_frames_complete:
  assumes "answer_all f st requests = Some (responses, st')" "list_all (\<lambda>p. length p < 65536) requests"
    and wr: "\<And>sent data. wr sent data = None"
  shows "serve_frames conv too_long f wr None st (concat (map tcp_frame requests)) sent
    = (Inr (), st', sent @ concat (map tcp_frame responses))"
  using assms(1,2)
proof (induction requests arbitrary: st sent responses)
  case Nil
  then show ?case by (simp add: serve_frames.simps [of conv])
next
  case (Cons request requests)
  from Cons.prems obtain response st1 rs where f: "f st request = (Inr response, st1)" "length response < 65536"
      "answer_all f st1 requests = Some (rs, st')" "responses = response # rs"
    by (auto split: prod.splits sum.splits if_splits)
  let ?rest = "concat (map tcp_frame requests)"
  have prefix: "read_n None 2 (tcp_frame request @ ?rest) = Inr (to_be_bytes (of_nat (length request) :: u16), request @ ?rest)"
    by (simp add: read_n_def tcp_frame_def)
  have body: "read_n None (nat_of_be (to_be_bytes (of_nat (length request) :: u16))) (request @ ?rest) = Inr (request, ?rest)"
    using Cons.prems(2) nat_of_be16 [of request] by (simp add: read_n_def)
  have "length (tcp_frame request) \<noteq> 0" by (simp add: tcp_frame_def)
  then have "tcp_frame request \<noteq> []" by simp
  then have "serve_frames conv too_long f wr None st (tcp_frame request @ ?rest) sent
      = serve_frames conv too_long f wr None st1 ?rest (sent @ tcp_frame response)"
    using prefix body f wr by (subst serve_frames.simps) (simp add: write_octets_def tcp_frame_def [of response])
  then show ?case using Cons.IH [OF f(3)] Cons.prems(2) f(4) by simp
qed

section \<open>Answers from the physical interface\<close>

lemma physical_answer_cases:
  assumes codec: "codec_faithful H"
    and run: "physical_answer H X N slot request configured_dns iface ipv6 udp = Inr bs"
  obtains query question response where "from_vec H request = Inr query" "validate_dns_query query = Inr question"
    "validate_dns_response H response (msg_id query) question = Inr ()"
    "answers response \<noteq> [] \<Longrightarrow> slot \<and> (\<exists>ip \<in> set (direct_dns_servers configured_dns iface).
         replied H N request (SocketAddr ip 53) response \<and> answered_code response)"
    "encode_response H X (if ipv6 then response else remove_ipv6_entries response)
        (if udp then Some (ed_max_payload X query) else None) = Inr bs"
proof -
  let ?result = "if slot then query_bound H N request configured_dns iface
      else Inl (IoError WouldBlock ''physical DNS query capacity exhausted'')"
  from run obtain query question response where q: "from_vec H request = Inr query" "validate_dns_query query = Inr question"
    and response: "(case ?result of Inr bs \<Rightarrow> io_as OtherKind (from_vec H bs) | Inl e \<Rightarrow> Inr (servfail query)) = Inr response"
    and enc: "encode_response H X (if ipv6 then response else remove_ipv6_entries response)
        (if udp then Some (ed_max_payload X query) else None) = Inr bs"
    unfolding physical_answer_def Let_def parse_plain by (auto simp: rbind_Inr_iff)
  have valid: "validate_dns_response H response (msg_id query) question = Inr ()
    \<and> (answers response \<noteq> [] \<longrightarrow> slot \<and> (\<exists>ip \<in> set (direct_dns_servers configured_dns iface).
         replied H N request (SocketAddr ip 53) response \<and> answered_code response))"
  proof (cases ?result)
    case (Inl e)
    with response have "response = servfail query" by simp
    then show ?thesis using servfail_valid [OF q(2) codec] by (simp add: servfail_def)
  next
    case (Inr reply)
    then have "slot" "query_bound H N request configured_dns iface = Inr reply" by (auto split: if_splits)
    from query_bound_Inr [OF this(2) codec q] this(1) response Inr show ?thesis by auto
  qed
  from that [OF q _ _ enc] valid show ?thesis by blast
qed


text \<open>A codec for three messages: a question, its answer and the failure of that question.\<close>

definition demo_round :: "string hickory" where
  "demo_round = demo_hickory\<lparr>
     from_vec := (\<lambda>bs. if bs = [0, 7] then Inr (demo_query 7 TypeA) else if bs = [2, 2] then Inr demo_answer
        else if bs = [3] then Inr (servfail (demo_query 7 TypeA)) else Inl ''short''),
     to_vec := (\<lambda>m. if m = demo_query 7 TypeA then Inr [0, 7] else if m = demo_answer then Inr [2, 2]
        else if m = servfail (demo_query 7 TypeA) then Inr [3] else Inl DnsProto)\<rparr>"

definition demo_edns :: "string edns" where
  "demo_edns = \<lparr>ed_max_payload = (\<lambda>_. 512), ed_truncate =
     (\<lambda>m. m\<lparr>truncation := True, answers := [], authorities := [], additionals := []\<rparr>)\<rparr>"

lemma demo_codec_laws: "codec_faithful demo_round" "truncates demo_edns"
  by (simp_all add: codec_faithful_def demo_round_def demo_hickory_def truncates_def demo_edns_def)



section \<open>Routed questions\<close>

lemma physical_replies_to:
  assumes "codec_faithful H" "truncates X" "physical_answer H X N slot request configured_dns iface ipv6 udp = Inr bs"
  shows "replies_to H request bs"
proof -
  from physical_answer_cases [OF assms(1,3)] obtain query question response where
    q: "from_vec H request = Inr query" "validate_dns_query query = Inr question"
    and valid: "validate_dns_response H response (msg_id query) question = Inr ()"
    and enc: "encode_response H X (if ipv6 then response else remove_ipv6_entries response)
        (if udp then Some (ed_max_payload X query) else None) = Inr bs"
    by blast
  show ?thesis
  proof (rule encode_response_Inr [OF enc assms(1,2)], goal_cases)
    case (1 m)
    from 1(2) valid have "validate_dns_response H m (msg_id query) question = Inr ()" by simp
    with q 1(1) show ?thesis unfolding replies_to_def by blast
  qed
qed

definition sound_override :: "'n hickory \<Rightarrow> 'o dns_override \<Rightarrow> bool" where
  "sound_override H R = (\<forall>o1 o2 request response. dv_answer R o1 request False = (Inr response, o2) \<longrightarrow> replies_to H request response)"

lemma no_dns_override_sound: "sound_override H no_dns_override"
  by (simp add: sound_override_def no_dns_override_def)

lemma process_dns_override_sound:
  assumes "codec_faithful H" "truncates X"
  shows "sound_override H (process_dns_override H X N slot D)"
  using physical_replies_to [OF assms]
  by (auto simp: sound_override_def process_dns_override_def process_dns_answer_def io_result_error_def rbind_Inr_iff
      split: option.splits if_splits sum.splits)

lemma upstream_exchange_replies:
  assumes "upstream_exchange H U request us = (Inr response, us')"
  shows "replies_to H request response"
  using assms unfolding upstream_exchange_def replies_to_def
  by (auto simp: rbind_Inr_iff split: sum.splits prod.splits)

lemma route_question_reply:
  assumes codec: "codec_faithful H" and R: "sound_override H R"
    and run: "route_question H U R ipv6 st request = (Inr bs, st')"
  shows "filtered_reply H ipv6 request bs"
proof -
  from run obtain response where r: "replies_to H request response"
    and out: "rbind (dns_error (parse_data_to_dns_message H response False)) (\<lambda>message.
        to_vec H (if ipv6 then message else remove_ipv6_entries message)) = Inr bs"
    using R upstream_exchange_replies [of H U request "fst st"]
    unfolding route_question_def sound_override_def
    by (fastforce simp: rbind_Inr_iff split: prod.splits sum.splits if_splits)
  from out obtain m where m: "from_vec H response = Inr m" "to_vec H (if ipv6 then m else remove_ipv6_entries m) = Inr bs"
    by (auto simp: rbind_Inr_iff)
  then have bs: "from_vec H bs = Inr (if ipv6 then m else remove_ipv6_entries m)"
    using codec unfolding codec_faithful_def by blast
  then show ?thesis using r m(1) unfolding filtered_reply_def replies_to_def by (auto split: if_splits)
qed

text \<open>
  C9.  A client that sends DNS questions over one TCP connection gets only replies to its questions,
  in their order, whichever of them went to the physical resolver and which to the proxy: what is
  written is (the beginning of) one frame per request, each holding a response with the identifier
  and question of that request and, when IPv6 is off, no IPv6 record.  An orderly end means that the
  client's input ended between two frames and every request in it was answered in full.
\<close>

theorem routing_tcp_answers:
  assumes "codec_faithful H" and "sound_override H R"
    and "routing_tcp H U R ipv6 wr fin st input = (r, st', out)"
  shows "\<exists>requests responses rest. input = concat (map tcp_frame requests) @ rest
    \<and> list_all2 (filtered_reply H ipv6) requests responses
    \<and> prefix out (concat (map tcp_frame responses))
    \<and> (r = Inr () \<longrightarrow> rest = [] \<and> fin = None \<and> out = concat (map tcp_frame responses))"
  using serve_frames_sound [OF assms(3) [unfolded routing_tcp_def] route_question_reply [OF assms(1,2)]] by simp

text \<open>One question over a fresh connection to the proxy, which returns one reply.\<close>

definition demo_upstream_env :: upstream_env where
  "demo_upstream_env = \<lparr>uv_connect = Inr (), uv_write = (\<lambda>_ _. None), uv_fin = None, uv_stat = Inr ()\<rparr>"

definition demo_upstream :: upstream where
  "demo_upstream = \<lparr>us_connected = False, us_input = [0, 2, 2, 2], us_sent = []\<rparr>"

lemma demo_exchange:
  "upstream_exchange demo_round demo_upstream_env [0, 7] demo_upstream
     = (Inr [2, 2], \<lparr>us_connected = True, us_input = [], us_sent = [0, 2, 0, 7]\<rparr>)"
proof -
  let ?q = "queries (demo_query 7 TypeA) ! 0"
  have *: "from_vec demo_round [0, 7] = Inr (demo_query 7 TypeA)" "validate_dns_query (demo_query 7 TypeA) = Inr ?q"
    "from_vec demo_round [2, 2] = Inr demo_answer" "msg_id (demo_query 7 TypeA) = 7"
    "validate_dns_response demo_round demo_answer 7 ?q = Inr ()" "tcp_frame [0, 7] = [0, 2, 0, 7]" "nat_of_be [0, 2] = 2"
    by code_simp+
  have "upstream_send demo_upstream_env [0, 7] demo_upstream
      = (Inr (), demo_upstream\<lparr>us_connected := True, us_sent := [0, 2, 0, 7]\<rparr>)"
    by (simp add: upstream_send_def write_request_def write_octets_def demo_upstream_env_def demo_upstream_def *)
  moreover have "read_reply demo_upstream_env (demo_upstream\<lparr>us_connected := True, us_sent := [0, 2, 0, 7]\<rparr>)
      = (Inr [2, 2], \<lparr>us_connected = True, us_input = [], us_sent = [0, 2, 0, 7]\<rparr>)"
    by (simp add: read_reply_def read_n_def demo_upstream_env_def demo_upstream_def *)
  ultimately show ?thesis by (simp add: upstream_exchange_def dns_error_def *)
qed

theorem routing_tcp_answers_witness:
  "fst (routing_tcp demo_round demo_upstream_env (no_dns_override :: unit dns_override) True (\<lambda>_ _. None) None
      (demo_upstream, ()) [0, 2, 0, 7]) = Inr ()
   \<and> (\<exists>requests responses. [0, 2, 0, 7] = concat (map tcp_frame requests)
      \<and> list_all2 (filtered_reply demo_round True) requests responses
      \<and> [0, 2, 2, 2] = concat (map tcp_frame responses))"
proof -
  have run: "routing_tcp demo_round demo_upstream_env (no_dns_override :: unit dns_override) True (\<lambda>_ _. None) None
      (demo_upstream, ()) [0, 2, 0, 7]
      = (Inr (), (\<lparr>us_connected = True, us_input = [], us_sent = [0, 2, 0, 7]\<rparr>, ()), [0, 2, 2, 2])"
  proof -
    have "to_vec demo_round demo_answer = Inr [2, 2]" "from_vec demo_round [2, 2] = Inr demo_answer" by code_simp+
    then have "route_question demo_round demo_upstream_env (no_dns_override :: unit dns_override) True (demo_upstream, ()) [0, 7]
        = (Inr [2, 2], (\<lparr>us_connected = True, us_input = [], us_sent = [0, 2, 0, 7]\<rparr>, ()))"
      by (simp add: route_question_def no_dns_override_def demo_exchange dns_error_def)
    then have all: "answer_all (route_question demo_round demo_upstream_env (no_dns_override :: unit dns_override) True)
        (demo_upstream, ()) [[0, 7]] = Some ([[2, 2]], (\<lparr>us_connected = True, us_input = [], us_sent = [0, 2, 0, 7]\<rparr>, ()))"
      by simp
    moreover have "tcp_frame [0, 7] = [0, 2, 0, 7]" "tcp_frame [2, 2] = [0, 2, 2, 2]" by code_simp+
    ultimately show ?thesis unfolding routing_tcp_def
      using serve_frames_complete [OF all, where wr = "\<lambda>_ _. None" and conv = Io and too_long = TryFromInt and sent = "[]"]
      by simp
  qed
  from routing_tcp_answers [OF demo_codec_laws(1) no_dns_override_sound run] show ?thesis unfolding run by auto
qed

end
