(* ===== verification/Routing.thy ===== *)
theory Routing
  imports VirtualDns ProcessPolicy DnsRouting
begin

text \<open>
  The routing of captured sessions, \<^verbatim>\<open>src/lib.rs\<close>: admission by the session counters, the choice of the
  upstream manager and of the sockets, the restoration of destinations behind fake addresses, and for
  each accepted TCP or UDP session the decision which handler serves it.  A decision is a value that
  names the handler with the destination, name and interface it is given.  \<^verbatim>\<open>is_private_ip\<close>, the
  destination policy of an embedding application and the resolvers are arguments.
\<close>

section \<open>Session counters\<close>

text \<open>
  \<^verbatim>\<open>try_acquire\<close> and the drop of a permit are two atomic operations each; a permit is in one of the
  phases between them.
\<close>

record session_counts =
  sc_total :: nat
  sc_tcp :: nat
  sc_udp :: nat

definition session_counts_default :: session_counts where
  "session_counts_default = \<lparr>sc_total = 0, sc_tcp = 0, sc_udp = 0\<rparr>"

definition take_total :: "nat \<Rightarrow> session_counts \<Rightarrow> session_counts option" where
  "take_total max_sessions c = (if sc_total c < max_sessions then Some (c\<lparr>sc_total := sc_total c + 1\<rparr>) else None)"

definition protocol_add :: "bool \<Rightarrow> session_counts \<Rightarrow> session_counts" where
  "protocol_add is_tcp c = (if is_tcp then c\<lparr>sc_tcp := sc_tcp c + 1\<rparr> else c\<lparr>sc_udp := sc_udp c + 1\<rparr>)"

definition protocol_sub :: "bool \<Rightarrow> session_counts \<Rightarrow> session_counts" where
  "protocol_sub is_tcp c = (if is_tcp then c\<lparr>sc_tcp := sc_tcp c - 1\<rparr> else c\<lparr>sc_udp := sc_udp c - 1\<rparr>)"

definition give_total :: "session_counts \<Rightarrow> session_counts" where
  "give_total c = c\<lparr>sc_total := sc_total c - 1\<rparr>"

datatype permit_phase = Reserved | Held | Returning | Returned

record admission =
  ad_counts :: session_counts
  ad_permits :: "(bool \<times> permit_phase) list"

definition admission_new :: admission where
  "admission_new = \<lparr>ad_counts = session_counts_default, ad_permits = []\<rparr>"

definition set_permit :: "nat \<Rightarrow> permit_phase \<Rightarrow> admission \<Rightarrow> admission" where
  "set_permit i p a = a\<lparr>ad_permits := (ad_permits a)[i := (fst (ad_permits a ! i), p)]\<rparr>"

inductive admission_step :: "nat \<Rightarrow> admission \<Rightarrow> admission \<Rightarrow> bool" for max_sessions where
  reserve: "take_total max_sessions (ad_counts a) = Some c \<Longrightarrow>
     admission_step max_sessions a (a\<lparr>ad_counts := c, ad_permits := ad_permits a @ [(is_tcp, Reserved)]\<rparr>)"
| refuse: "take_total max_sessions (ad_counts a) = None \<Longrightarrow> admission_step max_sessions a a"
| hold: "i < length (ad_permits a) \<Longrightarrow> ad_permits a ! i = (is_tcp, Reserved) \<Longrightarrow>
     admission_step max_sessions a (set_permit i Held (a\<lparr>ad_counts := protocol_add is_tcp (ad_counts a)\<rparr>))"
| release: "i < length (ad_permits a) \<Longrightarrow> ad_permits a ! i = (is_tcp, Held) \<Longrightarrow>
     admission_step max_sessions a (set_permit i Returning (a\<lparr>ad_counts := protocol_sub is_tcp (ad_counts a)\<rparr>))"
| return: "i < length (ad_permits a) \<Longrightarrow> ad_permits a ! i = (is_tcp, Returning) \<Longrightarrow>
     admission_step max_sessions a (set_permit i Returned (a\<lparr>ad_counts := give_total (ad_counts a)\<rparr>))"

definition phase_count :: "((bool \<times> permit_phase) \<Rightarrow> bool) \<Rightarrow> admission \<Rightarrow> nat" where
  "phase_count P a = length (filter P (ad_permits a))"

section \<open>Configuration\<close>

datatype arg_dns = DnsVirtual | DnsOverTcp | DnsDirect | DnsPhysical

datatype arg_udp_strategy = UdpProxy | UdpDirect | UdpBlock

datatype proxy_type = ProxyNone | ProxyHttp | ProxySocks4 | ProxySocks5 | ProxyMixed

definition DNS_PORT :: u16 where "DNS_PORT = 53"
definition DNS_OVER_TLS_PORT :: u16 where "DNS_OVER_TLS_PORT = 853"

datatype manager = NoProxyManager | SocksManager socket_addr bool | HttpProxyManager socket_addr

definition select_manager :: "proxy_type \<Rightarrow> socket_addr option \<Rightarrow> manager result" where
  "select_manager ptype server_addr = (case (ptype, server_addr) of
     (ProxyNone, _) \<Rightarrow> Inr NoProxyManager
   | (ProxySocks5, Some addr) \<Rightarrow> Inr (SocksManager addr True)
   | (ProxySocks4, Some addr) \<Rightarrow> Inr (SocksManager addr False)
   | (ProxyHttp, Some addr) \<Rightarrow> Inr (HttpProxyManager addr)
   | (ProxyMixed, _) \<Rightarrow> Inl (StringError ''a mixed proxy type describes a listener, not an upstream proxy'')
   | (_, None) \<Rightarrow> Inl (StringError ''the proxy address resolved to nothing''))"

text \<open>The guard of \<^verbatim>\<open>run_with_system_managed_network\<close>.\<close>

definition system_managed_allowed :: "bool \<Rightarrow> string list \<Rightarrow> string option \<Rightarrow> arg_dns \<Rightarrow> unit result" where
  "system_managed_allowed setup bypass_process bind_interface dns =
     (if setup \<or> bypass_process \<noteq> [] \<or> bind_interface \<noteq> None \<or> dns = DnsPhysical
      then Inl (StringError ''system-managed packet tunnels cannot configure routes, bind an interface or match processes'')
      else Inr ())"

section \<open>Sockets\<close>

text \<open>
  Where the socket of a relay comes from: bound to a physical interface, opened normally (with the local
  address of a UDP socket), or taken from the queue of transferred sockets, which may lack an IPv6 part.
\<close>

datatype socket_source = BoundTo bind_interface | Opened "socket_addr option" | FromQueue bool

definition queue_socket :: "bool \<Rightarrow> socket_addr \<Rightarrow> socket_source io_result" where
  "queue_socket has_v6 peer =
     (if is_ipv4 (sa_ip peer) then Inr (FromQueue True)
      else if has_v6 then Inr (FromQueue False) else Inl (IoError Unsupported []))"

definition create_tcp_stream :: "bool option \<Rightarrow> socket_addr \<Rightarrow> bind_interface option \<Rightarrow> socket_source io_result" where
  "create_tcp_stream queue peer bind = (case (bind, queue) of
     (Some iface, None) \<Rightarrow> Inr (BoundTo iface)
   | (_, None) \<Rightarrow> Inr (Opened None)
   | (_, Some has_v6) \<Rightarrow> queue_socket has_v6 peer)"

definition udp_bind_addr :: "ip_addr \<Rightarrow> socket_addr" where
  "udp_bind_addr ip = (case ip of
     V4 a \<Rightarrow> SocketAddr (V4 (if is_loopback ip then 0x7F000001 else 0)) 0
   | V6 a \<Rightarrow> SocketAddr (V6 (if is_loopback ip then 1 else 0)) 0)"

definition create_udp_stream :: "bool option \<Rightarrow> socket_addr \<Rightarrow> bind_interface option \<Rightarrow> socket_source io_result" where
  "create_udp_stream queue peer bind = (case (bind, queue) of
     (Some iface, None) \<Rightarrow> Inr (BoundTo iface)
   | (_, None) \<Rightarrow> Inr (Opened (Some (udp_bind_addr (sa_ip peer))))
   | (_, Some has_v6) \<Rightarrow> queue_socket has_v6 peer)"

section \<open>Destinations behind fake addresses\<close>

text \<open>
  \<^verbatim>\<open>resolve\<close> stands for \<^verbatim>\<open>resolve_domain_bound\<close> with the configured resolver, and \<^verbatim>\<open>proxied\<close> below for
  \<^verbatim>\<open>resolve_domain_over_proxy\<close>.
\<close>

type_synonym bound_resolver = "string \<Rightarrow> u16 \<Rightarrow> bool \<Rightarrow> bind_interface \<Rightarrow> socket_addr io_result"

definition restore_bypass_destination ::
  "'c vd_env \<Rightarrow> bound_resolver \<Rightarrow> session_info \<Rightarrow> 'c virtual_dns option \<Rightarrow> bind_interface option
     \<Rightarrow> session_info io_result \<times> 'c virtual_dns option" where
  "restore_bypass_destination E resolve info vdo bind =
     (case resolve_virtual_domain E (sa_ip (dst info)) vdo of
        (Inl e, vdo') \<Rightarrow> (Inl e, vdo')
      | (Inr None, vdo') \<Rightarrow> (Inr info, vdo')
      | (Inr (Some domain), vdo') \<Rightarrow> (case bind of
          None \<Rightarrow> (Inl (IoError OtherKind ''process-bypass physical interface is unavailable''), vdo')
        | Some iface \<Rightarrow>
            (rbind (resolve domain (sa_port (dst info)) (\<not> is_ipv4 (sa_ip (dst info))) iface) (\<lambda>destination.
               Inr (info\<lparr>dst := destination\<rparr>)), vdo')))"

type_synonym proxied_resolver = "string \<Rightarrow> u16 \<Rightarrow> bool \<Rightarrow> bind_interface option \<Rightarrow> socket_addr io_result"

definition restore_direct_udp_destination ::
  "proxied_resolver \<Rightarrow> session_info \<Rightarrow> string option \<Rightarrow> bind_interface option \<Rightarrow> session_info io_result" where
  "restore_direct_udp_destination proxied info domain bind = (case domain of
     None \<Rightarrow> Inr info
   | Some d \<Rightarrow> rbind (proxied d (sa_port (dst info)) (\<not> is_ipv4 (sa_ip (dst info))) bind) (\<lambda>destination.
       Inr (info\<lparr>dst := destination\<rparr>)))"

text \<open>
  \<^verbatim>\<open>resolve_domain_over_proxy\<close>: a query is one connection through the proxy; \<^verbatim>\<open>px_setup\<close> is the outcome of
  creating the handler, connecting and the handshake, \<^verbatim>\<open>px_input\<close> what the resolver sends on it, and
  \<^verbatim>\<open>px_late\<close> tells that the five seconds passed first.
\<close>

record proxied_query =
  px_setup :: "unit io_result"
  px_write :: stream_writer
  px_input :: bytes
  px_fin :: "io_error option"
  px_late :: bool

definition query_over_proxy :: "proxied_query \<Rightarrow> bytes \<Rightarrow> bytes io_result" where
  "query_over_proxy Q request =
     (if px_late Q then Inl (IoError TimedOut ''proxied DNS query timed out'')
      else rbind (px_setup Q) (\<lambda>_.
        if length request \<ge> 2 ^ 16 then Inl (IoError OtherKind [])
        else rbind (write_octets (px_write Q) [] (to_be_bytes (of_nat (length request) :: u16))) (\<lambda>sent.
             rbind (write_octets (px_write Q) sent request) (\<lambda>_.
             rbind (read_n (px_fin Q) 2 (px_input Q)) (\<lambda>(head2, rest).
             rbind (read_n (px_fin Q) (nat_of_be head2) rest) (\<lambda>(response, _). Inr response))))))"

definition proxied_step ::
  "'n hickory \<Rightarrow> (string \<Rightarrow> string + 'n) \<Rightarrow> (u16 \<Rightarrow> 'n message) \<Rightarrow> proxied_query \<Rightarrow> u16 \<Rightarrow> bool \<Rightarrow> string \<Rightarrow> address_lookup io_result" where
  "proxied_step H name_from_str new_message Q request_id want_ipv6 current =
     rbind (io_as InvalidInput (name_from_str current)) (\<lambda>name.
       let q = address_query want_ipv6 name; m = new_message request_id in
       rbind (to_vec_io H (m\<lparr>recursion_desired := True, queries := queries m @ [q]\<rparr>)) (\<lambda>request.
       rbind (query_over_proxy Q request) (\<lambda>bs.
       rbind (parse_dns_response H bs request_id q) (\<lambda>response.
         if response_code response \<noteq> NoError then Inl (IoError OtherKind ''proxied DNS query failed with'')
         else io_as NotFound (extract_address_or_cname H response q)))))"

fun proxied_loop ::
  "'n hickory \<Rightarrow> (string \<Rightarrow> string + 'n) \<Rightarrow> (u16 \<Rightarrow> 'n message) \<Rightarrow> (nat \<Rightarrow> proxied_query) \<Rightarrow> (nat \<Rightarrow> u16) \<Rightarrow> u16 \<Rightarrow> bool
     \<Rightarrow> nat \<Rightarrow> string \<Rightarrow> socket_addr io_result" where
  "proxied_loop H name_from_str new_message Q ids port want_ipv6 0 current =
     Inl (IoError InvalidData ''proxied DNS resolution exceeded the CNAME limit'')"
| "proxied_loop H name_from_str new_message Q ids port want_ipv6 (Suc n) current =
     (case proxied_step H name_from_str new_message (Q n) (ids n) want_ipv6 current of
        Inl e \<Rightarrow> Inl e
      | Inr (Address ip) \<Rightarrow> Inr (SocketAddr ip port)
      | Inr (Cname name) \<Rightarrow> proxied_loop H name_from_str new_message Q ids port want_ipv6 n name)"

definition resolve_domain_over_proxy ::
  "'n hickory \<Rightarrow> (string \<Rightarrow> string + 'n) \<Rightarrow> (u16 \<Rightarrow> 'n message) \<Rightarrow> (nat \<Rightarrow> proxied_query) \<Rightarrow> (nat \<Rightarrow> u16)
     \<Rightarrow> string \<Rightarrow> u16 \<Rightarrow> bool \<Rightarrow> socket_addr io_result" where
  "resolve_domain_over_proxy H name_from_str new_message Q ids domain port want_ipv6 =
     proxied_loop H name_from_str new_message Q ids port want_ipv6 MAX_CNAME_DEPTH domain"

section \<open>Decisions\<close>

text \<open>
  The parts of the arguments that decide a route.  \<^verbatim>\<open>rt_desktop\<close> holds where process bypass is compiled
  in, \<^verbatim>\<open>rt_windows\<close> where the shared UDP pool and the attribution of questions are.
\<close>

record routing =
  rt_desktop :: bool
  rt_windows :: bool
  rt_dns :: arg_dns
  rt_dns_addr :: ip_addr
  rt_ipv6 :: bool
  rt_portals :: "ip_addr list"
  rt_udp_strategy :: arg_udp_strategy
  rt_proxy_type :: proxy_type
  rt_udpgw :: bool
  rt_origins :: bool
  rt_private :: "ip_addr \<Rightarrow> bool"

text \<open>Which manager creates the handler of a relay.\<close>

datatype relay_manager = ViaNoProxy | ViaUpstream

datatype tcp_route =
  TcpPhysicalDns bind_interface
| TcpVirtualDns
| TcpRoutedDns session_info
| TcpProbeClosed
| TcpRelay relay_manager session_info "string option" "bind_interface option" bool
| TcpFailed error

definition is_virtual_dns_tls_probe :: "arg_dns \<Rightarrow> ip_addr list \<Rightarrow> socket_addr \<Rightarrow> bool" where
  "is_virtual_dns_tls_probe dns portals destination =
     (dns \<noteq> DnsDirect \<and> sa_port destination = DNS_OVER_TLS_PORT \<and> sa_ip destination \<in> set portals)"

definition policy_bypass :: "session_policy option \<Rightarrow> bool" where
  "policy_bypass p = (case p of None \<Rightarrow> False | Some policy \<Rightarrow> sp_bypass policy)"

text \<open>\<^verbatim>\<open>dns_override.active()\<close> after the origins have been filtered by the policy of the session.\<close>

definition override_active :: "routing \<Rightarrow> session_policy option \<Rightarrow> bind_interface option \<Rightarrow> bool" where
  "override_active R policy direct_bind =
     (rt_windows R \<and> direct_bind \<noteq> None \<and> rt_origins R
      \<and> (case policy of None \<Rightarrow> True | Some p \<Rightarrow> may_delegate_dns p))"

definition portal_to_resolver :: "routing \<Rightarrow> session_info \<Rightarrow> session_info" where
  "portal_to_resolver R info =
     (if rt_private R (sa_ip (dst info)) then info\<lparr>dst := SocketAddr (rt_dns_addr R) (sa_port (dst info))\<rparr> else info)"

definition tcp_relay ::
  "'c vd_env \<Rightarrow> bound_resolver \<Rightarrow> routing \<Rightarrow> bool \<Rightarrow> session_info \<Rightarrow> bind_interface option \<Rightarrow> 'c virtual_dns option
     \<Rightarrow> tcp_route \<times> 'c virtual_dns option" where
  "tcp_relay E resolve R bypass info direct_bind vdo =
     (case (if bypass then restore_bypass_destination E resolve info vdo direct_bind else (Inr info, vdo)) of
        (restored, vdo1) \<Rightarrow>
          (let info' = (case restored of Inl e \<Rightarrow> info | Inr i \<Rightarrow> i);
               filter_dns_ipv6 = (\<not> bypass \<and> rt_dns R = DnsOverTcp \<and> sa_port (dst info) = DNS_PORT \<and> \<not> rt_ipv6 R) in
           case resolve_virtual_domain E (sa_ip (dst info')) vdo1 of
             (domain, vdo2) \<Rightarrow> (case (restored, domain) of
                 (Inl e, _) \<Rightarrow> (TcpFailed (Io e), vdo2)
               | (_, Inl e) \<Rightarrow> (TcpFailed (Io e), vdo2)
               | (Inr i, Inr name) \<Rightarrow>
                   (if bypass then TcpRelay ViaNoProxy i name direct_bind filter_dns_ipv6
                    else TcpRelay ViaUpstream i name None filter_dns_ipv6, vdo2))))"

definition route_tcp ::
  "'c vd_env \<Rightarrow> bound_resolver \<Rightarrow> routing \<Rightarrow> session_policy option \<Rightarrow> session_info \<Rightarrow> bind_interface option
     \<Rightarrow> 'c virtual_dns option \<Rightarrow> tcp_route \<times> 'c virtual_dns option" where
  "route_tcp E resolve R policy info0 direct_bind vdo =
     (let bypass = (rt_desktop R \<and> policy_bypass policy) in
      if rt_desktop R \<and> sa_port (dst info0) = DNS_PORT \<and> (rt_dns R = DnsPhysical \<or> bypass) then
        (case direct_bind of
           Some iface \<Rightarrow> (TcpPhysicalDns iface, vdo)
         | None \<Rightarrow> (TcpFailed (Io (IoError OtherKind ''physical DNS interface unavailable'')), vdo))
      else
        let info = (if \<not> bypass \<and> rt_dns R = DnsOverTcp \<and> sa_port (dst info0) = DNS_PORT
                    then portal_to_resolver R info0 else info0) in
        if \<not> bypass \<and> rt_dns R = DnsVirtual \<and> sa_port (dst info) = DNS_PORT then
          (case vdo of
             None \<Rightarrow> (TcpFailed (StringError ''virtual DNS manager is unavailable''), vdo)
           | Some _ \<Rightarrow> (TcpVirtualDns, vdo))
        else if \<not> bypass \<and> rt_dns R = DnsOverTcp \<and> sa_port (dst info) = DNS_PORT \<and> override_active R policy direct_bind
          then (TcpRoutedDns info, vdo)
        else if \<not> bypass \<and> is_virtual_dns_tls_probe (rt_dns R) (rt_portals R) (dst info) then (TcpProbeClosed, vdo)
        else tcp_relay E resolve R bypass info direct_bind vdo)"

datatype udp_policy_route = RouteDirect socket_addr | RouteProxy | RouteReject

datatype udp_route =
  UdpPhysicalDns bind_interface
| UdpSharedBypass session_info
| UdpDnsOverTcp session_info
| UdpVirtualDns
| UdpReject
| UdpAssociate relay_manager session_info "string option" "bind_interface option"
| UdpGateway session_info address
| UdpFailed error

text \<open>
  A bypassed UDP session: on Windows the shared pool is tried first when the owner of the socket is known;
  \<^verbatim>\<open>pool\<close> is the outcome of opening a flow in it and \<^verbatim>\<open>pool_iface\<close> its current interface.
\<close>

definition route_udp_bypass ::
  "'c vd_env \<Rightarrow> bound_resolver \<Rightarrow> routing \<Rightarrow> bool \<Rightarrow> session_policy option \<Rightarrow> session_info \<Rightarrow> bind_interface option
     \<Rightarrow> bool io_result \<Rightarrow> bind_interface option \<Rightarrow> 'c virtual_dns option \<Rightarrow> udp_route \<times> 'c virtual_dns option" where
  "route_udp_bypass E resolve R local_multicast policy info direct_bind pool pool_iface vdo =
     (case restore_bypass_destination E resolve info vdo direct_bind of
        (Inl e, vdo1) \<Rightarrow> (UdpFailed (Io e), vdo1)
      | (Inr i, vdo1) \<Rightarrow>
          (let shared = (rt_windows R \<and> \<not> local_multicast
                 \<and> (case policy of None \<Rightarrow> False | Some p \<Rightarrow> sp_udp_owner p \<noteq> None));
               bind = (if rt_windows R \<and> pool_iface \<noteq> None then pool_iface else direct_bind) in
           (if shared then (case pool of
                Inl e \<Rightarrow> UdpFailed (Io e)
              | Inr True \<Rightarrow> UdpSharedBypass i
              | Inr False \<Rightarrow> UdpAssociate ViaNoProxy i None bind)
            else UdpAssociate ViaNoProxy i None bind, vdo1)))"

text \<open>Ordinary UDP; \<^verbatim>\<open>router\<close> is the destination policy of an embedding application, if there is one.\<close>

definition route_udp_plain ::
  "'c vd_env \<Rightarrow> proxied_resolver \<Rightarrow> routing \<Rightarrow> (socket_addr \<Rightarrow> string option \<Rightarrow> bool \<Rightarrow> udp_policy_route) option
     \<Rightarrow> session_info \<Rightarrow> bind_interface option \<Rightarrow> 'c virtual_dns option \<Rightarrow> udp_route \<times> 'c virtual_dns option" where
  "route_udp_plain E proxied R router info direct_bind vdo =
     (if router = None \<and> rt_udp_strategy R = UdpBlock then (UdpReject, vdo)
      else case resolve_virtual_domain E (sa_ip (dst info)) vdo of
        (Inl e, vdo1) \<Rightarrow> (UdpReject, vdo1)
      | (Inr domain, vdo1) \<Rightarrow>
          (case map_option (\<lambda>r. r (dst info) domain (rt_udp_strategy R = UdpProxy)) router of
             Some RouteReject \<Rightarrow> (UdpReject, vdo1)
           | Some (RouteDirect destination) \<Rightarrow> (UdpAssociate ViaNoProxy (info\<lparr>dst := destination\<rparr>) None direct_bind, vdo1)
           | _ \<Rightarrow>
               if rt_udp_strategy R = UdpDirect then
                 (case restore_direct_udp_destination proxied info domain
                         (if rt_proxy_type R = ProxyNone then direct_bind else None) of
                    Inl e \<Rightarrow> (UdpFailed (Io e), vdo1)
                  | Inr i \<Rightarrow> (UdpAssociate ViaNoProxy i None direct_bind, vdo1))
               else if rt_udpgw R then
                 (UdpGateway info (case domain of
                    Some d \<Rightarrow> DomainAddress d (sa_port (dst info)) | None \<Rightarrow> SocketAddress (dst info)), vdo1)
               else (UdpAssociate ViaUpstream info domain None, vdo1)))"

definition route_udp ::
  "'c vd_env \<Rightarrow> bound_resolver \<Rightarrow> proxied_resolver \<Rightarrow> routing \<Rightarrow> (socket_addr \<Rightarrow> string option \<Rightarrow> bool \<Rightarrow> udp_policy_route) option
     \<Rightarrow> session_policy option \<Rightarrow> session_info \<Rightarrow> bind_interface option \<Rightarrow> bool io_result \<Rightarrow> bind_interface option
     \<Rightarrow> 'c virtual_dns option \<Rightarrow> (udp_route \<times> 'c virtual_dns option) option" where
  "route_udp E resolve proxied R router policy info0 direct_bind pool pool_iface vdo =
     (let local_multicast = (rt_desktop R \<and> is_multicast (sa_ip (dst info0)));
          bypass = (local_multicast \<or> rt_desktop R \<and> policy_bypass policy) in
      if rt_desktop R \<and> sa_port (dst info0) = DNS_PORT \<and> (rt_dns R = DnsPhysical \<or> bypass) then
        Some (case direct_bind of
           None \<Rightarrow> (UdpFailed (Io (IoError OtherKind ''physical DNS interface unavailable'')), vdo)
         | Some iface \<Rightarrow> (UdpPhysicalDns iface, vdo))
      else if bypass then
        Some (route_udp_bypass E resolve R local_multicast policy info0 direct_bind pool pool_iface vdo)
      else
        let info = (if sa_port (dst info0) = DNS_PORT then portal_to_resolver R info0 else info0) in
        if sa_port (dst info0) = DNS_PORT \<and> rt_dns R = DnsOverTcp then Some (UdpDnsOverTcp (info\<lparr>protocol := Tcp\<rparr>), vdo)
        else if sa_port (dst info0) = DNS_PORT \<and> rt_dns R = DnsVirtual then
          Some (case vdo of
             None \<Rightarrow> (UdpFailed (StringError ''virtual DNS manager is unavailable''), vdo)
           | Some _ \<Rightarrow> (UdpVirtualDns, vdo))
        else if sa_port (dst info0) = DNS_PORT \<and> rt_dns R \<noteq> DnsDirect then None
        else Some (route_udp_plain E proxied R router info direct_bind vdo))"

section \<open>Admission respects the limit\<close>

lemma filter_update_count:
  "i < length xs \<Longrightarrow> length (filter P (xs[i := y])) + (if P (xs ! i) then 1 else 0)
     = length (filter P xs) + (if P y then 1 else 0)"
proof (induction xs arbitrary: i)
  case (Cons x xs)
  then show ?case by (cases i) auto
qed simp

definition active_permit :: "bool \<times> permit_phase \<Rightarrow> bool" where
  "active_permit p = (snd p \<noteq> Returned)"

definition admission_ok :: "nat \<Rightarrow> admission \<Rightarrow> bool" where
  "admission_ok max_sessions a = (sc_total (ad_counts a) = phase_count active_permit a
     \<and> sc_total (ad_counts a) \<le> max_sessions
     \<and> sc_tcp (ad_counts a) = phase_count (\<lambda>p. p = (True, Held)) a
     \<and> sc_udp (ad_counts a) = phase_count (\<lambda>p. p = (False, Held)) a)"

lemma permit_moves:
  assumes "i < length (ad_permits a)" "ad_permits a ! i = (t, p)"
  shows "phase_count P (set_permit i p' (a\<lparr>ad_counts := c\<rparr>)) + (if P (t, p) then 1 else 0)
    = phase_count P a + (if P (t, p') then 1 else 0)"
  using filter_update_count [OF assms(1), of P "(t, p')"] assms(2) by (simp add: phase_count_def set_permit_def)

lemma set_permit_counts [simp]: "ad_counts (set_permit i p a) = ad_counts a"
  by (simp add: set_permit_def)

lemma admission_step_ok:
  assumes "admission_step max_sessions a a'" "admission_ok max_sessions a"
  shows "admission_ok max_sessions a'"
  using assms(1)
proof (cases rule: admission_step.cases)
  case (reserve c is_tcp)
  then show ?thesis using assms(2)
    by (auto simp: admission_ok_def take_total_def phase_count_def active_permit_def split: if_splits)
next
  case refuse
  then show ?thesis using assms(2) by simp
next
  case (hold i is_tcp)
  note n = permit_moves [OF hold(2,3), of _ Held "protocol_add is_tcp (ad_counts a)"]
  from n [of active_permit] n [of "\<lambda>p. p = (True, Held)"] n [of "\<lambda>p. p = (False, Held)"] show ?thesis
    using hold(1) assms(2) unfolding admission_ok_def
    by (cases is_tcp) (simp_all add: protocol_add_def active_permit_def)
next
  case (release i is_tcp)
  note n = permit_moves [OF release(2,3), of _ Returning "protocol_sub is_tcp (ad_counts a)"]
  from n [of active_permit] n [of "\<lambda>p. p = (True, Held)"] n [of "\<lambda>p. p = (False, Held)"] show ?thesis
    using release(1) assms(2) unfolding admission_ok_def
    by (cases is_tcp) (simp_all add: protocol_sub_def active_permit_def)
next
  case (return i is_tcp)
  note n = permit_moves [OF return(2,3), of _ Returned "give_total (ad_counts a)"]
  from n [of active_permit] n [of "\<lambda>p. p = (True, Held)"] n [of "\<lambda>p. p = (False, Held)"] show ?thesis
    using return(1) assms(2) unfolding admission_ok_def
    by (simp add: give_total_def active_permit_def) linarith
qed

lemma phase_count_pos: "p \<in> set (ad_permits a) \<Longrightarrow> P p \<Longrightarrow> 0 < phase_count P a"
  by (auto simp: phase_count_def filter_empty_conv)

text \<open>
  C26.  Whatever the interleaving of arriving and ending sessions, never more sessions hold or await a
  permit than the configured limit.  The TCP counter is the number of TCP sessions that hold a permit and
  the UDP counter that of the UDP sessions; a permit that is given back always finds its counters above
  zero, so they never wrap; and once no operation is in progress the total is the sum of the two.
\<close>

theorem session_limit_respected:
  assumes "(admission_step max_sessions)\<^sup>*\<^sup>* admission_new a"
  shows "phase_count active_permit a = sc_total (ad_counts a) \<and> sc_total (ad_counts a) \<le> max_sessions
    \<and> sc_tcp (ad_counts a) = phase_count (\<lambda>p. p = (True, Held)) a
    \<and> sc_udp (ad_counts a) = phase_count (\<lambda>p. p = (False, Held)) a
    \<and> (\<forall>(is_tcp, p) \<in> set (ad_permits a).
         (p = Held \<longrightarrow> 0 < (if is_tcp then sc_tcp (ad_counts a) else sc_udp (ad_counts a)))
         \<and> (p = Returning \<longrightarrow> 0 < sc_total (ad_counts a)))
    \<and> sc_tcp (ad_counts a) + sc_udp (ad_counts a) \<le> sc_total (ad_counts a)
    \<and> (list_all (\<lambda>p. snd p \<in> {Held, Returned}) (ad_permits a) \<longrightarrow>
         sc_tcp (ad_counts a) + sc_udp (ad_counts a) = sc_total (ad_counts a))"
proof -
  from assms have ok: "admission_ok max_sessions a"
  proof (induction rule: rtranclp_induct)
    case base
    then show ?case by (simp add: admission_ok_def admission_new_def session_counts_default_def phase_count_def)
  next
    case (step a a')
    then show ?case using admission_step_ok by blast
  qed
  have held: "length (filter (\<lambda>p. p = (True, Held)) ps) + length (filter (\<lambda>p. p = (False, Held)) ps)
      = length (filter (\<lambda>p. snd p = Held) ps)" for ps :: "(bool \<times> permit_phase) list"
    by (induction ps) auto
  have le: "length (filter (\<lambda>p. snd p = Held) ps) \<le> length (filter active_permit ps)" for ps :: "(bool \<times> permit_phase) list"
    by (induction ps) (auto simp: active_permit_def)
  have eq: "length (filter (\<lambda>p. snd p = Held) ps) = length (filter active_permit ps)"
    if "list_all (\<lambda>p. snd p \<in> {Held, Returned}) ps" for ps :: "(bool \<times> permit_phase) list"
    using that by (induction ps) (auto simp: active_permit_def)
  have positive: "(p = Held \<longrightarrow> 0 < (if is_tcp then sc_tcp (ad_counts a) else sc_udp (ad_counts a)))
      \<and> (p = Returning \<longrightarrow> 0 < sc_total (ad_counts a))" if "(is_tcp, p) \<in> set (ad_permits a)" for is_tcp p
    using that ok phase_count_pos [of "(is_tcp, p)" a]
    by (cases is_tcp) (auto simp: admission_ok_def active_permit_def)
  from ok held [of "ad_permits a"] le [of "ad_permits a"] eq [of "ad_permits a"] positive
  show ?thesis by (auto simp: admission_ok_def phase_count_def)
qed

text \<open>Two sessions at a limit of one: the second is refused until the first has ended.\<close>

theorem session_limit_respected_witness:
  "(let a = \<lparr>ad_counts = \<lparr>sc_total = 1, sc_tcp = 1, sc_udp = 0\<rparr>, ad_permits = [(True, Held)]\<rparr> in
     admission_step 1 a a \<and> sc_tcp (ad_counts a) = phase_count (\<lambda>p. p = (True, Held)) a
     \<and> sc_tcp (ad_counts a) + sc_udp (ad_counts a) = sc_total (ad_counts a))"
proof -
  let ?r = "\<lparr>ad_counts = \<lparr>sc_total = 1, sc_tcp = 0, sc_udp = 0\<rparr>, ad_permits = [(True, Reserved)]\<rparr>"
  let ?a = "\<lparr>ad_counts = \<lparr>sc_total = 1, sc_tcp = 1, sc_udp = 0\<rparr>, ad_permits = [(True, Held)]\<rparr>"
  have "admission_step 1 admission_new ?r"
    using reserve [of 1 admission_new "\<lparr>sc_total = 1, sc_tcp = 0, sc_udp = 0\<rparr>" True]
    by (simp add: admission_new_def take_total_def session_counts_default_def)
  moreover have "admission_step 1 ?r ?a"
    using hold [of 0 ?r True 1] by (simp add: set_permit_def protocol_add_def)
  ultimately have "(admission_step 1)\<^sup>*\<^sup>* admission_new ?a" by (meson converse_rtranclp_into_rtranclp r_into_rtranclp)
  from session_limit_respected [OF this] have "sc_tcp (ad_counts ?a) = phase_count (\<lambda>p. p = (True, Held)) ?a
      \<and> sc_tcp (ad_counts ?a) + sc_udp (ad_counts ?a) = sc_total (ad_counts ?a)" by simp
  moreover have "admission_step 1 ?a ?a" by (rule refuse) (simp add: take_total_def)
  ultimately show ?thesis by simp
qed

section \<open>Routes respect the policy\<close>

text \<open>
  What a destination stands for, in terms of the mappings of the virtual resolver: the name of a fake
  address, an error when the address is of the pool but has no name (any more), and nothing otherwise.
\<close>

definition fake_lookup :: "'c vd_env \<Rightarrow> 'c virtual_dns option \<Rightarrow> ip_addr \<Rightarrow> string option io_result" where
  "fake_lookup E vdo ip = (case vdo of
     None \<Rightarrow> Inr None
   | Some vd \<Rightarrow> (case map_of (vd_entries E vd) ip of
       Some name \<Rightarrow> Inr (Some name)
     | None \<Rightarrow> if vd_address_in_pool vd ip
         then Inl (IoError NotFound ''stale virtual DNS address; reconnect after refreshing DNS'') else Inr None))"

definition resolver_ok :: "'c vd_env \<Rightarrow> 'c virtual_dns option \<Rightarrow> bool" where
  "resolver_ok E vdo = (lru_laws (ve_lru E) \<and> (case vdo of None \<Rightarrow> True | Some vd \<Rightarrow> vd_inv E vd))"

lemma map_of_moved: "map_of es ip = Some n \<Longrightarrow> map_of (alist_drop ip es @ [(ip, n)]) = map_of es"
proof
  fix x
  assume n: "map_of es ip = Some n"
  have "map_of (alist_drop ip es) x = (if x = ip then None else map_of es x)"
    by (induction es) (auto simp: alist_drop_def)
  with n show "map_of (alist_drop ip es @ [(ip, n)]) x = map_of es x" by (auto simp: map_add_def split: option.splits)
qed

lemma resolve_lookup:
  assumes "resolver_ok E vdo"
  obtains vdo' where "resolve_virtual_domain E ip vdo = (fake_lookup E vdo ip, vdo')" "resolver_ok E vdo'"
    "fake_lookup E vdo' = fake_lookup E vdo"
proof (cases vdo)
  case None
  show ?thesis
    by (rule that [of None]) (use assms None in \<open>simp_all add: resolve_virtual_domain_def fake_lookup_def\<close>)
next
  case (Some vd)
  with assms have laws: "lru_laws (ve_lru E)" and inv: "vd_inv E vd" by (simp_all add: resolver_ok_def)
  from resolve_virtual_domain_Some [OF laws inv, of ip] obtain vd' where
    run: "resolve_virtual_domain E ip (Some vd) = (fake_lookup E (Some vd) ip, Some vd')" and inv': "vd_inv E vd'"
    and es: "vd_entries E vd' = (case map_of (vd_entries E vd) ip of
          None \<Rightarrow> vd_entries E vd | Some n \<Rightarrow> alist_drop ip (vd_entries E vd) @ [(ip, n)])"
    and pool: "network_addr vd' = network_addr vd" "broadcast_addr vd' = broadcast_addr vd"
    unfolding fake_lookup_def by (cases "map_of (vd_entries E vd) ip") auto
  have "map_of (vd_entries E vd') = map_of (vd_entries E vd)"
    using es map_of_moved [of "vd_entries E vd" ip] by (cases "map_of (vd_entries E vd) ip") (simp_all del: map_of_append)
  moreover have "vd_address_in_pool vd' = vd_address_in_pool vd"
    using pool by (simp add: vd_address_in_pool_def fun_eq_iff)
  ultimately have "fake_lookup E (Some vd') = fake_lookup E (Some vd)" by (simp add: fake_lookup_def fun_eq_iff)
  then show ?thesis
    by (intro that [of "Some vd'"]) (use run inv' laws Some in \<open>simp_all add: resolver_ok_def\<close>)
qed

text \<open>
  The destination of a bypassed session: the one that was captured, or, behind a fake address, what its
  name resolves to through the physical interface.
\<close>

definition bypass_destination ::
  "'c vd_env \<Rightarrow> bound_resolver \<Rightarrow> 'c virtual_dns option \<Rightarrow> bind_interface option \<Rightarrow> socket_addr \<Rightarrow> socket_addr io_result" where
  "bypass_destination E resolve vdo bind d = rbind (fake_lookup E vdo (sa_ip d)) (\<lambda>domain. case domain of
     None \<Rightarrow> Inr d
   | Some name \<Rightarrow> (case bind of
       None \<Rightarrow> Inl (IoError OtherKind ''process-bypass physical interface is unavailable'')
     | Some iface \<Rightarrow> resolve name (sa_port d) (\<not> is_ipv4 (sa_ip d)) iface))"

lemma restore_destination:
  assumes "resolver_ok E vdo"
  obtains vdo' where "restore_bypass_destination E resolve info vdo bind
      = (rbind (bypass_destination E resolve vdo bind (dst info)) (\<lambda>d. Inr (info\<lparr>dst := d\<rparr>)), vdo')"
    "resolver_ok E vdo'" "fake_lookup E vdo' = fake_lookup E vdo"
proof -
  from resolve_lookup [OF assms, of "sa_ip (dst info)"] obtain vdo' where
    "resolve_virtual_domain E (sa_ip (dst info)) vdo = (fake_lookup E vdo (sa_ip (dst info)), vdo')"
    "resolver_ok E vdo'" "fake_lookup E vdo' = fake_lookup E vdo" by blast
  then show ?thesis
    by (intro that [of vdo'])
      (simp_all add: restore_bypass_destination_def bypass_destination_def rbind_def split: sum.splits option.splits)
qed

text \<open>Questions for a private address, such as that of the TUN, go to the configured resolver.\<close>

definition resolver_destination :: "routing \<Rightarrow> socket_addr \<Rightarrow> socket_addr" where
  "resolver_destination R d = (if rt_private R (sa_ip d) then SocketAddr (rt_dns_addr R) (sa_port d) else d)"

lemma portal_destination: "portal_to_resolver R info = info\<lparr>dst := resolver_destination R (dst info)\<rparr>"
  by (simp add: portal_to_resolver_def resolver_destination_def)

definition tcp_bypassed :: "routing \<Rightarrow> session_policy option \<Rightarrow> bool" where
  "tcp_bypassed R policy = (rt_desktop R \<and> policy_bypass policy)"

definition tcp_destination :: "routing \<Rightarrow> session_policy option \<Rightarrow> socket_addr \<Rightarrow> socket_addr" where
  "tcp_destination R policy d = (if \<not> tcp_bypassed R policy \<and> rt_dns R = DnsOverTcp \<and> sa_port d = DNS_PORT
     then resolver_destination R d else d)"

lemma resolver_destination_port [simp]: "sa_port (resolver_destination R d) = sa_port d"
  "sa_port (tcp_destination R policy d) = sa_port d"
  by (simp_all add: resolver_destination_def tcp_destination_def)

lemma tcp_relay_bypassed:
  assumes "resolver_ok E vdo" "tcp_relay E resolve R True info direct_bind vdo = (route, vdo')"
  shows "(\<exists>d name. bypass_destination E resolve vdo direct_bind (dst info) = Inr d \<and> fake_lookup E vdo (sa_ip d) = Inr name
        \<and> route = TcpRelay ViaNoProxy (info\<lparr>dst := d\<rparr>) name direct_bind False)
    \<or> (\<exists>e. bypass_destination E resolve vdo direct_bind (dst info) = Inl e \<and> route = TcpFailed (Io e))
    \<or> (\<exists>d e. bypass_destination E resolve vdo direct_bind (dst info) = Inr d \<and> fake_lookup E vdo (sa_ip d) = Inl e
        \<and> route = TcpFailed (Io e))"
proof -
  from restore_destination [OF assms(1), of resolve info direct_bind] obtain vdo1 where
    r: "restore_bypass_destination E resolve info vdo direct_bind
      = (rbind (bypass_destination E resolve vdo direct_bind (dst info)) (\<lambda>d. Inr (info\<lparr>dst := d\<rparr>)), vdo1)"
    "resolver_ok E vdo1" "fake_lookup E vdo1 = fake_lookup E vdo" by blast
  show ?thesis
  proof (cases "bypass_destination E resolve vdo direct_bind (dst info)")
    case (Inl e)
    then show ?thesis using assms(2) r by (simp add: tcp_relay_def Let_def split: prod.splits)
  next
    case (Inr d)
    from resolve_lookup [OF r(2), of "sa_ip d"] obtain vdo2 where
      "resolve_virtual_domain E (sa_ip d) vdo1 = (fake_lookup E vdo (sa_ip d), vdo2)" by (auto simp: r(3))
    then show ?thesis using assms(2) r Inr
      by (cases "fake_lookup E vdo (sa_ip d)") (auto simp: tcp_relay_def Let_def)
  qed
qed

lemma tcp_relay_proxied:
  assumes "resolver_ok E vdo" "tcp_relay E resolve R False info direct_bind vdo = (route, vdo')"
  shows "route = (case fake_lookup E vdo (sa_ip (dst info)) of
      Inl e \<Rightarrow> TcpFailed (Io e)
    | Inr name \<Rightarrow> TcpRelay ViaUpstream info name None (rt_dns R = DnsOverTcp \<and> sa_port (dst info) = DNS_PORT \<and> \<not> rt_ipv6 R))"
proof -
  from resolve_lookup [OF assms(1), of "sa_ip (dst info)"] obtain vdo1 where
    "resolve_virtual_domain E (sa_ip (dst info)) vdo = (fake_lookup E vdo (sa_ip (dst info)), vdo1)" by blast
  then show ?thesis using assms(2) by (auto simp: tcp_relay_def Let_def split: sum.splits)
qed

lemma route_tcp_cases:
  assumes ok: "resolver_ok E vdo" and run: "route_tcp E resolve R policy info direct_bind vdo = (route, vdo')"
  obtains (physical) "rt_desktop R" "sa_port (dst info) = DNS_PORT" "rt_dns R = DnsPhysical \<or> policy_bypass policy"
        "route = (case direct_bind of Some iface \<Rightarrow> TcpPhysicalDns iface
           | None \<Rightarrow> TcpFailed (Io (IoError OtherKind ''physical DNS interface unavailable'')))"
    | (bypassed) "tcp_bypassed R policy" "sa_port (dst info) \<noteq> DNS_PORT"
        "tcp_relay E resolve R True info direct_bind vdo = (route, vdo')"
    | (virtual) "\<not> tcp_bypassed R policy" "sa_port (dst info) = DNS_PORT" "rt_dns R = DnsVirtual"
        "route = (if vdo = None then TcpFailed (StringError ''virtual DNS manager is unavailable'') else TcpVirtualDns)"
    | (routed) "\<not> tcp_bypassed R policy" "sa_port (dst info) = DNS_PORT" "rt_dns R = DnsOverTcp"
        "override_active R policy direct_bind" "route = TcpRoutedDns (info\<lparr>dst := resolver_destination R (dst info)\<rparr>)"
    | (probe) "\<not> tcp_bypassed R policy" "is_virtual_dns_tls_probe (rt_dns R) (rt_portals R) (dst info)" "route = TcpProbeClosed"
    | (proxied) "\<not> tcp_bypassed R policy" "\<not> is_virtual_dns_tls_probe (rt_dns R) (rt_portals R) (dst info)"
        "sa_port (dst info) = DNS_PORT \<Longrightarrow> rt_dns R = DnsDirect \<or> rt_dns R = DnsOverTcp \<and> \<not> override_active R policy direct_bind
           \<or> rt_dns R = DnsPhysical \<and> \<not> rt_desktop R"
        "route = (case fake_lookup E vdo (sa_ip (tcp_destination R policy (dst info))) of
            Inl e \<Rightarrow> TcpFailed (Io e)
          | Inr name \<Rightarrow> TcpRelay ViaUpstream (info\<lparr>dst := tcp_destination R policy (dst info)\<rparr>) name None
              (rt_dns R = DnsOverTcp \<and> sa_port (dst info) = DNS_PORT \<and> \<not> rt_ipv6 R))"
proof (cases "tcp_bypassed R policy")
  case True
  show ?thesis
  proof (cases "sa_port (dst info) = DNS_PORT")
    case dns: True
    show ?thesis by (rule physical) (use True dns run in \<open>auto simp: tcp_bypassed_def route_tcp_def split: option.splits\<close>)
  next
    case False
    show ?thesis by (rule bypassed) (use True False run in \<open>auto simp: tcp_bypassed_def route_tcp_def\<close>)
  qed
next
  case False
  show ?thesis
  proof (cases "rt_desktop R \<and> sa_port (dst info) = DNS_PORT \<and> rt_dns R = DnsPhysical")
    case True
    show ?thesis by (rule physical) (use True run in \<open>auto simp: route_tcp_def split: option.splits\<close>)
  next
    case other: False
    let ?info = "info\<lparr>dst := tcp_destination R policy (dst info)\<rparr>"
    have b: "\<not> (rt_desktop R \<and> policy_bypass policy)" using False by (simp add: tcp_bypassed_def)
    have info: "(if \<not> (rt_desktop R \<and> policy_bypass policy) \<and> rt_dns R = DnsOverTcp \<and> sa_port (dst info) = DNS_PORT
        then portal_to_resolver R info else info) = ?info"
      using b by (simp add: tcp_destination_def portal_destination tcp_bypassed_def)
    have same: "is_virtual_dns_tls_probe (rt_dns R) (rt_portals R) (dst ?info)
        = is_virtual_dns_tls_probe (rt_dns R) (rt_portals R) (dst info)"
      by (simp add: is_virtual_dns_tls_probe_def tcp_destination_def DNS_PORT_def DNS_OVER_TLS_PORT_def)
    note run' = run [unfolded route_tcp_def Let_def info]
    consider (v) "rt_dns R = DnsVirtual" "sa_port (dst info) = DNS_PORT"
      | (r) "rt_dns R = DnsOverTcp" "sa_port (dst info) = DNS_PORT" "override_active R policy direct_bind"
      | (p) "is_virtual_dns_tls_probe (rt_dns R) (rt_portals R) (dst info)"
      | (x) "\<not> is_virtual_dns_tls_probe (rt_dns R) (rt_portals R) (dst info)" "sa_port (dst info) = DNS_PORT \<Longrightarrow> rt_dns R \<noteq> DnsVirtual
          \<and> \<not> (rt_dns R = DnsOverTcp \<and> override_active R policy direct_bind)" by blast
    then show ?thesis
    proof cases
      case v
      show ?thesis by (rule virtual) (use v False b run' in \<open>auto split: option.splits\<close>)
    next
      case r
      show ?thesis by (rule routed) (use r False b run' in \<open>auto simp: tcp_destination_def\<close>)
    next
      case p
      then have "sa_port (dst info) \<noteq> DNS_PORT" by (auto simp: is_virtual_dns_tls_probe_def DNS_PORT_def DNS_OVER_TLS_PORT_def)
      with p b run' same have "route = TcpProbeClosed" by auto
      then show ?thesis by (rule probe [OF False p])
    next
      case x
      then have relay: "tcp_relay E resolve R False ?info direct_bind vdo = (route, vdo')"
        using run' b other same by (auto split: if_splits)
      show ?thesis
        by (rule proxied [OF False x(1)])
          (use x(2) other tcp_relay_proxied [OF ok relay] in \<open>cases "rt_dns R"; auto split: sum.splits\<close>)+
    qed
  qed
qed


text \<open>Routes on which traffic leaves through the machine's own connection, and those that the proxy serves.\<close>

definition tcp_leaves :: "tcp_route \<Rightarrow> bool" where
  "tcp_leaves route = (case route of TcpPhysicalDns _ \<Rightarrow> True | TcpRelay m _ _ _ _ \<Rightarrow> m = ViaNoProxy | _ \<Rightarrow> False)"

definition tcp_captured :: "tcp_route \<Rightarrow> bool" where
  "tcp_captured route = (case route of TcpVirtualDns \<Rightarrow> True | TcpRoutedDns _ \<Rightarrow> True | TcpProbeClosed \<Rightarrow> True
     | TcpRelay m _ _ _ _ \<Rightarrow> m = ViaUpstream | _ \<Rightarrow> False)"

text \<open>
  C7.  A captured TCP connection leaves through the machine's own connection only when its process is
  bypassed or it is a question in physical DNS mode, and a bypassed connection is never given to the
  proxy, a resolver of the TUN or the probe filter.  A bypassed relay is pinned to the physical interface
  and goes to the captured destination or, behind a fake address, to what its name resolves to there.  A
  proxied relay is not pinned, keeps the captured destination (a question over TCP for a private address
  goes to the configured resolver instead), carries exactly the name that a fake address stands for, and
  is filtered exactly for questions over TCP without IPv6.  Each DNS mode has its own resolver: the
  physical interface, the virtual resolver, the router of questions or the proxy.  Encrypted DNS to the
  TUN is closed outside direct mode and nothing else is, and other connections fail only when a fake
  address is stale or cannot be resolved.
\<close>

theorem tcp_routes_respect_policy:
  assumes "resolver_ok E vdo" "route_tcp E resolve R policy info direct_bind vdo = (route, vdo')"
  shows "(tcp_leaves route \<longrightarrow> tcp_bypassed R policy
        \<or> rt_desktop R \<and> rt_dns R = DnsPhysical \<and> sa_port (dst info) = DNS_PORT)
    \<and> (tcp_captured route \<longrightarrow> \<not> tcp_bypassed R policy)
    \<and> (sa_port (dst info) \<noteq> DNS_PORT \<longrightarrow> route \<noteq> TcpVirtualDns \<and> (\<forall>i. route \<noteq> TcpRoutedDns i) \<and> (\<forall>iface. route \<noteq> TcpPhysicalDns iface))
    \<and> (route = TcpVirtualDns \<longrightarrow> rt_dns R = DnsVirtual) \<and> (\<forall>i. route = TcpRoutedDns i \<longrightarrow> rt_dns R = DnsOverTcp)
    \<and> (\<forall>i name bind f. route = TcpRelay ViaNoProxy i name bind f \<longrightarrow> bind = direct_bind \<and> \<not> f
        \<and> sa_port (dst info) \<noteq> DNS_PORT
        \<and> (\<exists>d. bypass_destination E resolve vdo direct_bind (dst info) = Inr d \<and> i = info\<lparr>dst := d\<rparr>))
    \<and> (\<forall>i name bind f. route = TcpRelay ViaUpstream i name bind f \<longrightarrow> bind = None
        \<and> i = info\<lparr>dst := tcp_destination R policy (dst info)\<rparr> \<and> fake_lookup E vdo (sa_ip (dst i)) = Inr name
        \<and> f = (rt_dns R = DnsOverTcp \<and> sa_port (dst info) = DNS_PORT \<and> \<not> rt_ipv6 R))
    \<and> (sa_port (dst info) = DNS_PORT \<and> rt_desktop R \<and> (rt_dns R = DnsPhysical \<or> policy_bypass policy) \<longrightarrow>
        (case direct_bind of Some iface \<Rightarrow> route = TcpPhysicalDns iface | None \<Rightarrow> \<exists>e. route = TcpFailed e))
    \<and> (sa_port (dst info) = DNS_PORT \<and> \<not> tcp_bypassed R policy \<and> rt_dns R = DnsVirtual \<longrightarrow>
        (if vdo = None then \<exists>e. route = TcpFailed e else route = TcpVirtualDns))
    \<and> (sa_port (dst info) = DNS_PORT \<and> \<not> tcp_bypassed R policy \<and> rt_dns R = DnsOverTcp \<longrightarrow>
        (if override_active R policy direct_bind then route = TcpRoutedDns (info\<lparr>dst := resolver_destination R (dst info)\<rparr>)
         else (\<exists>name f. route = TcpRelay ViaUpstream (info\<lparr>dst := resolver_destination R (dst info)\<rparr>) name None f)
           \<or> (\<exists>e. fake_lookup E vdo (sa_ip (resolver_destination R (dst info))) = Inl e \<and> route = TcpFailed (Io e))))
    \<and> (sa_port (dst info) = DNS_PORT \<and> \<not> tcp_bypassed R policy \<and> rt_dns R = DnsDirect \<longrightarrow>
        (\<exists>name f. route = TcpRelay ViaUpstream info name None f)
        \<or> (\<exists>e. fake_lookup E vdo (sa_ip (dst info)) = Inl e \<and> route = TcpFailed (Io e)))
    \<and> (route = TcpProbeClosed \<longleftrightarrow> \<not> tcp_bypassed R policy
        \<and> is_virtual_dns_tls_probe (rt_dns R) (rt_portals R) (dst info))
    \<and> (\<forall>e. route = TcpFailed e \<and> sa_port (dst info) \<noteq> DNS_PORT \<longrightarrow>
        (\<exists>err. e = Io err \<and> (if tcp_bypassed R policy
           then bypass_destination E resolve vdo direct_bind (dst info) = Inl err
             \<or> (\<exists>d. bypass_destination E resolve vdo direct_bind (dst info) = Inr d \<and> fake_lookup E vdo (sa_ip d) = Inl err)
           else fake_lookup E vdo (sa_ip (dst info)) = Inl err)))"
  using assms
proof (cases rule: route_tcp_cases)
  case physical
  then show ?thesis
    by (auto simp: tcp_leaves_def tcp_captured_def tcp_bypassed_def is_virtual_dns_tls_probe_def DNS_PORT_def DNS_OVER_TLS_PORT_def
        split: option.splits)
next
  case bypassed
  from tcp_relay_bypassed [OF assms(1) bypassed(3)] bypassed(1,2) show ?thesis
    by (auto simp: tcp_leaves_def tcp_captured_def tcp_bypassed_def split: option.splits)
next
  case virtual
  then show ?thesis
    by (auto simp: tcp_leaves_def tcp_captured_def tcp_bypassed_def is_virtual_dns_tls_probe_def DNS_PORT_def DNS_OVER_TLS_PORT_def)
next
  case routed
  then show ?thesis
    by (auto simp: tcp_leaves_def tcp_captured_def tcp_bypassed_def is_virtual_dns_tls_probe_def DNS_PORT_def DNS_OVER_TLS_PORT_def)
next
  case probe
  then show ?thesis
    by (auto simp: tcp_leaves_def tcp_captured_def tcp_bypassed_def is_virtual_dns_tls_probe_def DNS_PORT_def DNS_OVER_TLS_PORT_def)
next
  case proxied
  then show ?thesis
    by (auto simp: tcp_leaves_def tcp_captured_def tcp_bypassed_def tcp_destination_def split: sum.splits)
qed

text \<open>
  A desktop configuration, a resolver that has handed out one fake address, and a session of a process
  that is not bypassed.
\<close>

definition demo_routing :: routing where
  "demo_routing = \<lparr>rt_desktop = True, rt_windows = False, rt_dns = DnsVirtual, rt_dns_addr = V4 9, rt_ipv6 = False,
     rt_portals = [], rt_udp_strategy = UdpProxy, rt_proxy_type = ProxySocks5, rt_udpgw = False, rt_origins = False,
     rt_private = (\<lambda>_. False)\<rparr>"

definition demo_info :: "u16 \<Rightarrow> session_info" where
  "demo_info port = \<lparr>src = SocketAddr (V4 1) 1000, dst = SocketAddr (V4 24) port, protocol = Udp, session_id = 1\<rparr>"

definition demo_fake :: "(ip_addr \<times> string) list virtual_dns" where
  "demo_fake = demo_vd\<lparr>lru_cache := [(V4 24, ''a.example'')], name_to_ip := [''a.example'' \<mapsto> V4 24]\<rparr>"

lemma demo_fake_ok: "resolver_ok demo_env (Some demo_fake)"
  using demo_vd_inv(1)
  by (auto simp: resolver_ok_def demo_fake_def vd_inv_def demo_vd_def virtual_dns_new_def demo_env_def list_lru_def
      vd_entries_def pool_ok_def vd_address_in_pool_def canonical_name_def ends_with_def
      to_ascii_lowercase_def ascii_lower_def split: if_splits)

lemma demo_fake_lookup: "fake_lookup demo_env (Some demo_fake) (V4 24) = Inr (Some ''a.example'')"
  by (simp add: fake_lookup_def demo_fake_def vd_entries_def demo_env_def list_lru_def)

lemma demo_not_bypassed: "\<not> tcp_bypassed demo_routing None"
  by (simp add: tcp_bypassed_def policy_bypass_def)

theorem tcp_routes_respect_policy_witness:
  "case route_tcp demo_env (\<lambda>_ _ _ _. Inl (IoError NotFound [])) demo_routing None (demo_info 443) (Some demo_interface) (Some demo_fake) of
     (route, _) \<Rightarrow> route = TcpRelay ViaUpstream (demo_info 443) (Some ''a.example'') None False"
proof -
  let ?resolve = "\<lambda>_ _ _ _. Inl (IoError NotFound [])" and ?info = "demo_info 443"
  obtain route vdo' where run: "route_tcp demo_env ?resolve demo_routing None ?info (Some demo_interface) (Some demo_fake)
      = (route, vdo')" by fastforce
  have port: "sa_port (dst ?info) \<noteq> DNS_PORT" "sa_port (dst ?info) \<noteq> DNS_OVER_TLS_PORT" "sa_ip (dst ?info) = V4 24"
    by (simp_all add: demo_info_def DNS_PORT_def DNS_OVER_TLS_PORT_def)
  have same: "?info\<lparr>dst := tcp_destination demo_routing None (dst ?info)\<rparr> = ?info"
    using port by (simp add: tcp_destination_def)
  note policy = tcp_routes_respect_policy [OF demo_fake_ok run]
  have "\<not> is_virtual_dns_tls_probe (rt_dns demo_routing) (rt_portals demo_routing) (dst ?info)"
    using port(2) by (simp add: is_virtual_dns_tls_probe_def)
  with policy have "route \<noteq> TcpProbeClosed" by blast
  moreover have "\<not> tcp_leaves route" using policy demo_not_bypassed port(1) by blast
  moreover have "route \<noteq> TcpFailed e" for e
  proof
    assume "route = TcpFailed e"
    with policy port(1) obtain err where "if tcp_bypassed demo_routing None
        then bypass_destination demo_env ?resolve (Some demo_fake) (Some demo_interface) (dst ?info) = Inl err
          \<or> (\<exists>d. bypass_destination demo_env ?resolve (Some demo_fake) (Some demo_interface) (dst ?info) = Inr d
              \<and> fake_lookup demo_env (Some demo_fake) (sa_ip d) = Inl err)
        else fake_lookup demo_env (Some demo_fake) (sa_ip (dst ?info)) = Inl err" by blast
    then show False using demo_not_bypassed demo_fake_lookup port(3) by simp
  qed
  moreover have "route \<noteq> TcpVirtualDns" "route \<noteq> TcpRoutedDns i" for i using policy port(1) by blast+
  ultimately obtain i name bind f where route: "route = TcpRelay ViaUpstream i name bind f"
    by (cases route; cases "case route of TcpRelay m _ _ _ _ \<Rightarrow> m | _ \<Rightarrow> ViaNoProxy") (auto simp: tcp_leaves_def)
  have "bind = None \<and> i = ?info\<lparr>dst := tcp_destination demo_routing None (dst ?info)\<rparr>
      \<and> fake_lookup demo_env (Some demo_fake) (sa_ip (dst i)) = Inr name
      \<and> f = (rt_dns demo_routing = DnsOverTcp \<and> sa_port (dst ?info) = DNS_PORT \<and> \<not> rt_ipv6 demo_routing)"
    using policy route by blast
  then show ?thesis using run route same port demo_fake_lookup by auto
qed

text \<open>
  What is to be done with ordinary UDP: the destination policy of an embedding application decides
  where there is one, and else the blocking strategy.  \<^verbatim>\<open>RouteProxy\<close> leaves the choice to the strategy.
\<close>

type_synonym udp_router = "(socket_addr \<Rightarrow> string option \<Rightarrow> bool \<Rightarrow> udp_policy_route) option"

definition router_says :: "routing \<Rightarrow> udp_router \<Rightarrow> socket_addr \<Rightarrow> string option \<Rightarrow> udp_policy_route" where
  "router_says R router d domain = (case router of
     None \<Rightarrow> if rt_udp_strategy R = UdpBlock then RouteReject else RouteProxy
   | Some r \<Rightarrow> r d domain (rt_udp_strategy R = UdpProxy))"

definition udp_destination :: "routing \<Rightarrow> socket_addr \<Rightarrow> socket_addr" where
  "udp_destination R d = (if sa_port d = DNS_PORT then resolver_destination R d else d)"

text \<open>The destination of UDP that goes directly: a name is resolved through the proxy.\<close>

definition direct_destination ::
  "proxied_resolver \<Rightarrow> routing \<Rightarrow> bind_interface option \<Rightarrow> socket_addr \<Rightarrow> string option \<Rightarrow> socket_addr io_result" where
  "direct_destination proxied R direct_bind d domain = (case domain of
     None \<Rightarrow> Inr d
   | Some name \<Rightarrow> proxied name (sa_port d) (\<not> is_ipv4 (sa_ip d)) (if rt_proxy_type R = ProxyNone then direct_bind else None))"

lemma restore_direct_destination:
  "restore_direct_udp_destination proxied info domain (if rt_proxy_type R = ProxyNone then direct_bind else None)
     = rbind (direct_destination proxied R direct_bind (dst info) domain) (\<lambda>d. Inr (info\<lparr>dst := d\<rparr>))"
  by (simp add: restore_direct_udp_destination_def direct_destination_def split: option.splits)

lemma route_udp_plain_cases:
  assumes ok: "resolver_ok E vdo" and run: "route_udp_plain E proxied R router info direct_bind vdo = (route, vdo')"
  obtains (stale) e where "fake_lookup E vdo (sa_ip (dst info)) = Inl e" "route = UdpReject"
    | (rejected) domain where "fake_lookup E vdo (sa_ip (dst info)) = Inr domain"
        "router_says R router (dst info) domain = RouteReject" "route = UdpReject"
    | (policy) domain d where "fake_lookup E vdo (sa_ip (dst info)) = Inr domain"
        "router_says R router (dst info) domain = RouteDirect d"
        "route = UdpAssociate ViaNoProxy (info\<lparr>dst := d\<rparr>) None direct_bind"
    | (direct) domain where "fake_lookup E vdo (sa_ip (dst info)) = Inr domain"
        "router_says R router (dst info) domain = RouteProxy" "rt_udp_strategy R = UdpDirect"
        "route = (case direct_destination proxied R direct_bind (dst info) domain of
           Inl e \<Rightarrow> UdpFailed (Io e) | Inr d \<Rightarrow> UdpAssociate ViaNoProxy (info\<lparr>dst := d\<rparr>) None direct_bind)"
    | (carried) domain where "fake_lookup E vdo (sa_ip (dst info)) = Inr domain"
        "router_says R router (dst info) domain = RouteProxy" "rt_udp_strategy R \<noteq> UdpDirect"
        "route = (if rt_udpgw R then UdpGateway info (case domain of
             Some name \<Rightarrow> DomainAddress name (sa_port (dst info)) | None \<Rightarrow> SocketAddress (dst info))
           else UdpAssociate ViaUpstream info domain None)"
proof -
  from resolve_lookup [OF ok, of "sa_ip (dst info)"] obtain vdo1 where
    look: "resolve_virtual_domain E (sa_ip (dst info)) vdo = (fake_lookup E vdo (sa_ip (dst info)), vdo1)" by blast
  show ?thesis
  proof (cases "fake_lookup E vdo (sa_ip (dst info))")
    case (Inl e)
    then have "route = UdpReject" using run look by (simp add: route_udp_plain_def split: if_splits)
    with Inl show ?thesis by (rule stale)
  next
    case (Inr domain)
    show ?thesis
    proof (cases "router_says R router (dst info) domain")
      case RouteReject
      then have "route = UdpReject" using run look Inr
        by (cases router) (auto simp: route_udp_plain_def router_says_def split: if_splits)
      with Inr RouteReject show ?thesis by (rule rejected)
    next
      case (RouteDirect d)
      then have "route = UdpAssociate ViaNoProxy (info\<lparr>dst := d\<rparr>) None direct_bind" using run look Inr
        by (cases router) (auto simp: route_udp_plain_def router_says_def split: if_splits)
      with Inr RouteDirect show ?thesis by (rule policy)
    next
      case RouteProxy
      have "(if rt_udp_strategy R = UdpDirect then
               (case restore_direct_udp_destination proxied info domain
                       (if rt_proxy_type R = ProxyNone then direct_bind else None) of
                  Inl e \<Rightarrow> (UdpFailed (Io e), vdo1)
                | Inr i \<Rightarrow> (UdpAssociate ViaNoProxy i None direct_bind, vdo1))
             else if rt_udpgw R then
               (UdpGateway info (case domain of
                  Some d \<Rightarrow> DomainAddress d (sa_port (dst info)) | None \<Rightarrow> SocketAddress (dst info)), vdo1)
             else (UdpAssociate ViaUpstream info domain None, vdo1)) = (route, vdo')"
        using run look Inr RouteProxy
        by (cases router) (auto simp: route_udp_plain_def router_says_def split: if_splits)
      note run' = this [unfolded restore_direct_destination]
      show ?thesis
      proof (cases "rt_udp_strategy R = UdpDirect")
        case True
        show ?thesis
          by (rule direct [OF Inr RouteProxy True])
            (use run' True in \<open>auto split: sum.splits\<close>)
      next
        case False
        show ?thesis by (rule carried [OF Inr RouteProxy False]) (use run' False in \<open>auto split: if_splits\<close>)
      qed
    qed
  qed
qed

definition udp_bypassed :: "routing \<Rightarrow> session_policy option \<Rightarrow> session_info \<Rightarrow> bool" where
  "udp_bypassed R policy info = (rt_desktop R \<and> (is_multicast (sa_ip (dst info)) \<or> policy_bypass policy))"

text \<open>The shared pool serves the sessions of a process whose socket is known, except multicast.\<close>

definition pool_serves :: "routing \<Rightarrow> session_policy option \<Rightarrow> session_info \<Rightarrow> bool" where
  "pool_serves R policy info = (rt_windows R \<and> \<not> is_multicast (sa_ip (dst info))
     \<and> (\<exists>p. policy = Some p \<and> sp_udp_owner p \<noteq> None))"

lemma route_udp_bypass_cases:
  assumes ok: "resolver_ok E vdo" and desktop: "rt_desktop R"
    and run: "route_udp_bypass E resolve R (rt_desktop R \<and> is_multicast (sa_ip (dst info))) policy info direct_bind pool pool_iface vdo
      = (route, vdo')"
  obtains (failed) e where "bypass_destination E resolve vdo direct_bind (dst info) = Inl e" "route = UdpFailed (Io e)"
    | (refused) e d where "bypass_destination E resolve vdo direct_bind (dst info) = Inr d" "pool_serves R policy info"
        "pool = Inl e" "route = UdpFailed (Io e)"
    | (shared) d where "bypass_destination E resolve vdo direct_bind (dst info) = Inr d" "pool_serves R policy info"
        "pool = Inr True" "route = UdpSharedBypass (info\<lparr>dst := d\<rparr>)"
    | (own) d where "bypass_destination E resolve vdo direct_bind (dst info) = Inr d" "\<not> (pool_serves R policy info \<and> pool \<noteq> Inr False)"
        "route = UdpAssociate ViaNoProxy (info\<lparr>dst := d\<rparr>) None
           (if rt_windows R \<and> pool_iface \<noteq> None then pool_iface else direct_bind)"
proof -
  from restore_destination [OF ok, of resolve info direct_bind] obtain vdo1 where
    r: "restore_bypass_destination E resolve info vdo direct_bind
      = (rbind (bypass_destination E resolve vdo direct_bind (dst info)) (\<lambda>d. Inr (info\<lparr>dst := d\<rparr>)), vdo1)" by blast
  have serves: "(rt_windows R \<and> \<not> (rt_desktop R \<and> is_multicast (sa_ip (dst info)))
      \<and> (case policy of None \<Rightarrow> False | Some p \<Rightarrow> sp_udp_owner p \<noteq> None)) = pool_serves R policy info"
    using desktop by (auto simp: pool_serves_def split: option.splits)
  note run' = run [unfolded route_udp_bypass_def r serves Let_def]
  show ?thesis
  proof (cases "bypass_destination E resolve vdo direct_bind (dst info)")
    case (Inl e)
    show ?thesis by (rule failed [OF Inl]) (use run' Inl in simp)
  next
    case (Inr d)
    consider "pool_serves R policy info" "\<exists>e. pool = Inl e" | "pool_serves R policy info" "pool = Inr True"
      | "\<not> (pool_serves R policy info \<and> pool \<noteq> Inr False)" by (cases pool) auto
    then show ?thesis
    proof cases
      case 1
      then obtain e where e: "pool = Inl e" by blast
      show ?thesis by (rule refused [OF Inr 1(1) e]) (use run' Inr 1 e in simp)
    next
      case 2
      show ?thesis by (rule shared [OF Inr 2]) (use run' Inr 2 in simp)
    next
      case 3
      show ?thesis by (rule own [OF Inr 3]) (use run' Inr 3 in \<open>auto split: if_splits\<close>)
    qed
  qed
qed

lemma route_udp_cases:
  assumes accepted: "rt_dns R = DnsPhysical \<longrightarrow> rt_desktop R"
  obtains (physical) route vdo' where "route_udp E resolve proxied R router policy info direct_bind pool pool_iface vdo = Some (route, vdo')"
        "rt_desktop R" "sa_port (dst info) = DNS_PORT" "rt_dns R = DnsPhysical \<or> udp_bypassed R policy info"
        "route = (case direct_bind of Some iface \<Rightarrow> UdpPhysicalDns iface
           | None \<Rightarrow> UdpFailed (Io (IoError OtherKind ''physical DNS interface unavailable'')))"
    | (bypassed) route vdo' where "route_udp E resolve proxied R router policy info direct_bind pool pool_iface vdo = Some (route, vdo')"
        "udp_bypassed R policy info" "sa_port (dst info) \<noteq> DNS_PORT"
        "route_udp_bypass E resolve R (rt_desktop R \<and> is_multicast (sa_ip (dst info))) policy info direct_bind pool pool_iface vdo
           = (route, vdo')"
    | (over_tcp) route vdo' where "route_udp E resolve proxied R router policy info direct_bind pool pool_iface vdo = Some (route, vdo')"
        "\<not> udp_bypassed R policy info" "sa_port (dst info) = DNS_PORT" "rt_dns R = DnsOverTcp"
        "route = UdpDnsOverTcp (info\<lparr>dst := resolver_destination R (dst info), protocol := Tcp\<rparr>)"
    | (virtual) route vdo' where "route_udp E resolve proxied R router policy info direct_bind pool pool_iface vdo = Some (route, vdo')"
        "\<not> udp_bypassed R policy info" "sa_port (dst info) = DNS_PORT" "rt_dns R = DnsVirtual"
        "route = (if vdo = None then UdpFailed (StringError ''virtual DNS manager is unavailable'') else UdpVirtualDns)"
    | (plain) route vdo' where "route_udp E resolve proxied R router policy info direct_bind pool pool_iface vdo = Some (route, vdo')"
        "\<not> udp_bypassed R policy info" "sa_port (dst info) = DNS_PORT \<Longrightarrow> rt_dns R = DnsDirect"
        "route_udp_plain E proxied R router (info\<lparr>dst := udp_destination R (dst info)\<rparr>) direct_bind vdo = (route, vdo')"
proof -
  let ?run = "route_udp E resolve proxied R router policy info direct_bind pool pool_iface vdo"
  have b: "(rt_desktop R \<and> is_multicast (sa_ip (dst info)) \<or> rt_desktop R \<and> policy_bypass policy) = udp_bypassed R policy info"
    by (auto simp: udp_bypassed_def)
  have info: "(if sa_port (dst info) = DNS_PORT then portal_to_resolver R info else info)
      = info\<lparr>dst := udp_destination R (dst info)\<rparr>"
    by (simp add: udp_destination_def portal_destination)
  note def = route_udp_def [of E resolve proxied R router policy info direct_bind pool pool_iface vdo, unfolded Let_def b info]
  consider (p) "rt_desktop R" "sa_port (dst info) = DNS_PORT" "rt_dns R = DnsPhysical \<or> udp_bypassed R policy info"
    | (u) "udp_bypassed R policy info" "sa_port (dst info) \<noteq> DNS_PORT"
    | (o) "\<not> udp_bypassed R policy info" "sa_port (dst info) = DNS_PORT" "rt_dns R = DnsOverTcp"
    | (v) "\<not> udp_bypassed R policy info" "sa_port (dst info) = DNS_PORT" "rt_dns R = DnsVirtual"
    | (x) "\<not> udp_bypassed R policy info" "sa_port (dst info) = DNS_PORT \<Longrightarrow> rt_dns R = DnsDirect"
    using accepted by (cases "rt_dns R") (auto simp: udp_bypassed_def)
  then show ?thesis
  proof cases
    case p
    show ?thesis by (rule physical [of _ vdo, OF _ p refl]) (use p in \<open>simp add: def split: option.splits\<close>)
  next
    case u
    obtain route vdo' where r: "route_udp_bypass E resolve R (rt_desktop R \<and> is_multicast (sa_ip (dst info))) policy info
        direct_bind pool pool_iface vdo = (route, vdo')" by fastforce
    show ?thesis by (rule bypassed [OF _ u r]) (use u r in \<open>simp add: def\<close>)
  next
    case o
    show ?thesis by (rule over_tcp [of _ vdo, OF _ o refl]) (use o in \<open>simp add: def udp_destination_def\<close>)
  next
    case v
    show ?thesis by (rule virtual [of _ vdo, OF _ v refl]) (use v in \<open>simp add: def split: option.splits\<close>)
  next
    case x
    obtain route vdo' where r: "route_udp_plain E proxied R router (info\<lparr>dst := udp_destination R (dst info)\<rparr>) direct_bind vdo
        = (route, vdo')" by fastforce
    show ?thesis by (rule plain [OF _ x r]) (use x r in \<open>auto simp: def\<close>)
  qed
qed


definition udp_leaves :: "udp_route \<Rightarrow> bool" where
  "udp_leaves route = (case route of UdpPhysicalDns _ \<Rightarrow> True | UdpSharedBypass _ \<Rightarrow> True
     | UdpAssociate m _ _ _ \<Rightarrow> m = ViaNoProxy | _ \<Rightarrow> False)"

definition udp_captured :: "udp_route \<Rightarrow> bool" where
  "udp_captured route = (case route of UdpDnsOverTcp _ \<Rightarrow> True | UdpVirtualDns \<Rightarrow> True | UdpReject \<Rightarrow> True
     | UdpGateway _ _ \<Rightarrow> True | UdpAssociate m _ _ _ \<Rightarrow> m = ViaUpstream | _ \<Rightarrow> False)"

text \<open>
  What a session that is not bypassed, and not a question that another resolver answers, may become:
  the verdict on its destination and name decides.
\<close>

definition plain_udp_ok ::
  "'c vd_env \<Rightarrow> proxied_resolver \<Rightarrow> routing \<Rightarrow> udp_router \<Rightarrow> session_info \<Rightarrow> bind_interface option \<Rightarrow> 'c virtual_dns option
     \<Rightarrow> udp_route \<Rightarrow> bool" where
  "plain_udp_ok E proxied R router info direct_bind vdo route =
     (let d = udp_destination R (dst info); verdict = map_sum id (router_says R router d) (fake_lookup E vdo (sa_ip d)) in
      (udp_leaves route \<longrightarrow> (\<exists>x. verdict = Inr (RouteDirect x)) \<or> verdict = Inr RouteProxy \<and> rt_udp_strategy R = UdpDirect)
      \<and> (route = UdpReject \<longleftrightarrow> (\<exists>e. verdict = Inl e) \<or> verdict = Inr RouteReject)
      \<and> (\<forall>x. verdict = Inr (RouteDirect x) \<longrightarrow> route = UdpAssociate ViaNoProxy (info\<lparr>dst := x\<rparr>) None direct_bind)
      \<and> (\<forall>domain. verdict = Inr RouteProxy \<and> fake_lookup E vdo (sa_ip d) = Inr domain \<longrightarrow>
           (if rt_udp_strategy R = UdpDirect
            then (case direct_destination proxied R direct_bind d domain of
                Inl e \<Rightarrow> route = UdpFailed (Io e)
              | Inr x \<Rightarrow> route = UdpAssociate ViaNoProxy (info\<lparr>dst := x\<rparr>) None direct_bind)
            else if rt_udpgw R
            then route = UdpGateway (info\<lparr>dst := d\<rparr>) (case domain of
                Some name \<Rightarrow> DomainAddress name (sa_port d) | None \<Rightarrow> SocketAddress d)
            else route = UdpAssociate ViaUpstream (info\<lparr>dst := d\<rparr>) domain None)))"

lemma route_udp_plain_ok:
  assumes "resolver_ok E vdo"
    and "route_udp_plain E proxied R router (info\<lparr>dst := udp_destination R (dst info)\<rparr>) direct_bind vdo = (route, vdo')"
  shows "plain_udp_ok E proxied R router info direct_bind vdo route"
  using assms
proof (cases rule: route_udp_plain_cases)
  case (stale e)
  then show ?thesis by (simp add: plain_udp_ok_def udp_leaves_def)
next
  case (rejected domain)
  then show ?thesis by (simp add: plain_udp_ok_def udp_leaves_def)
next
  case (policy domain d)
  then show ?thesis by (simp add: plain_udp_ok_def udp_leaves_def)
next
  case (direct domain)
  then show ?thesis
    by (cases "direct_destination proxied R direct_bind (udp_destination R (dst info)) domain")
      (simp_all add: plain_udp_ok_def udp_leaves_def)
next
  case (carried domain)
  then show ?thesis by (cases "rt_udpgw R"; cases domain) (simp_all add: plain_udp_ok_def udp_leaves_def)
qed

text \<open>Such a session is never answered as a question nor served by the pool, and it leaves only by the verdict.\<close>

lemma route_udp_plain_kind:
  assumes "resolver_ok E vdo"
    and "route_udp_plain E proxied R router (info\<lparr>dst := udp_destination R (dst info)\<rparr>) direct_bind vdo = (route, vdo')"
  shows "((\<exists>e. route = UdpFailed e) \<or> route = UdpReject \<or> (\<exists>m i name bind. route = UdpAssociate m i name bind) \<or> (\<exists>i a. route = UdpGateway i a))
    \<and> (udp_leaves route \<longrightarrow> (\<exists>domain. fake_lookup E vdo (sa_ip (udp_destination R (dst info))) = Inr domain
      \<and> (case router_says R router (udp_destination R (dst info)) domain of
           RouteDirect _ \<Rightarrow> True | RouteProxy \<Rightarrow> rt_udp_strategy R = UdpDirect | RouteReject \<Rightarrow> False)))"
  using assms
proof (cases rule: route_udp_plain_cases)
  case (stale e)
  then show ?thesis by (simp add: udp_leaves_def)
next
  case (rejected domain)
  then show ?thesis by (simp add: udp_leaves_def)
next
  case (policy domain d)
  then show ?thesis by simp
next
  case (direct domain)
  then show ?thesis
    by (cases "direct_destination proxied R direct_bind (udp_destination R (dst info)) domain") simp_all
next
  case (carried domain)
  then show ?thesis by (cases "rt_udpgw R") (simp_all add: udp_leaves_def)
qed

text \<open>
  C6.  No UDP traffic leaks past the proxy.  In every configuration that the start of the program accepts
  the decision is made without a panic, and a captured session leaves through the machine's own
  connection (as ordinary UDP, over the shared pool or as a physical question) only for a bypassed
  process or local multicast, in physical DNS mode, because the destination policy said so for this
  destination and name, or because all UDP goes directly and the policy did not object.  A bypassed
  session is never given to the proxy; it uses the shared pool exactly when that serves it and goes to the
  captured destination or to what the name of a fake address resolves to.  Questions go to the resolver
  of the DNS mode and to no other, and never as ordinary UDP unless DNS is direct.  For every other
  session the verdict is carried out exactly: a rejected or stale one is rejected, and what the proxy or
  the gateway gets is the destination with the name its fake address stands for, not pinned to an
  interface.
\<close>

theorem udp_routes_respect_policy:
  assumes "rt_dns R = DnsPhysical \<longrightarrow> rt_desktop R" "resolver_ok E vdo"
  shows "\<exists>route vdo'. route_udp E resolve proxied R router policy info direct_bind pool pool_iface vdo = Some (route, vdo')
    \<and> (udp_leaves route \<longrightarrow> udp_bypassed R policy info
        \<or> rt_desktop R \<and> rt_dns R = DnsPhysical \<and> sa_port (dst info) = DNS_PORT
        \<or> (sa_port (dst info) = DNS_PORT \<longrightarrow> rt_dns R = DnsDirect)
          \<and> (\<exists>domain. fake_lookup E vdo (sa_ip (udp_destination R (dst info))) = Inr domain
              \<and> (case router_says R router (udp_destination R (dst info)) domain of
                   RouteDirect _ \<Rightarrow> True | RouteProxy \<Rightarrow> rt_udp_strategy R = UdpDirect | RouteReject \<Rightarrow> False)))
    \<and> (udp_captured route \<longrightarrow> \<not> udp_bypassed R policy info)
    \<and> (\<forall>iface. route = UdpPhysicalDns iface \<longleftrightarrow> direct_bind = Some iface \<and> rt_desktop R \<and> sa_port (dst info) = DNS_PORT
        \<and> (rt_dns R = DnsPhysical \<or> udp_bypassed R policy info))
    \<and> (\<forall>i. route = UdpSharedBypass i \<longleftrightarrow> udp_bypassed R policy info \<and> sa_port (dst info) \<noteq> DNS_PORT
        \<and> pool_serves R policy info \<and> pool = Inr True
        \<and> (\<exists>d. bypass_destination E resolve vdo direct_bind (dst info) = Inr d \<and> i = info\<lparr>dst := d\<rparr>))
    \<and> (udp_bypassed R policy info \<longrightarrow> (\<forall>i name bind. route = UdpAssociate ViaNoProxy i name bind \<longrightarrow>
        name = None \<and> sa_port (dst info) \<noteq> DNS_PORT
        \<and> (\<exists>d. bypass_destination E resolve vdo direct_bind (dst info) = Inr d \<and> i = info\<lparr>dst := d\<rparr>)
        \<and> bind = (if rt_windows R \<and> pool_iface \<noteq> None then pool_iface else direct_bind)))
    \<and> (\<forall>i. route = UdpDnsOverTcp i \<longleftrightarrow> \<not> udp_bypassed R policy info \<and> sa_port (dst info) = DNS_PORT \<and> rt_dns R = DnsOverTcp
        \<and> i = info\<lparr>dst := resolver_destination R (dst info), protocol := Tcp\<rparr>)
    \<and> (route = UdpVirtualDns \<longleftrightarrow> \<not> udp_bypassed R policy info \<and> sa_port (dst info) = DNS_PORT \<and> rt_dns R = DnsVirtual \<and> vdo \<noteq> None)
    \<and> (\<not> udp_bypassed R policy info \<and> (sa_port (dst info) = DNS_PORT \<longrightarrow> rt_dns R = DnsDirect) \<longrightarrow>
        plain_udp_ok E proxied R router info direct_bind vdo route)
    \<and> (sa_port (dst info) = DNS_PORT \<and> rt_dns R \<noteq> DnsDirect \<longrightarrow>
        (\<forall>i name m bind addr. route \<noteq> UdpAssociate m i name bind \<and> route \<noteq> UdpGateway i addr))
    \<and> (\<forall>e. route = UdpFailed e \<and> udp_bypassed R policy info \<and> sa_port (dst info) \<noteq> DNS_PORT \<longrightarrow>
        (\<exists>err. e = Io err \<and> (bypass_destination E resolve vdo direct_bind (dst info) = Inl err
           \<or> pool_serves R policy info \<and> pool = Inl err)))"
  using assms(1)
proof (cases rule: route_udp_cases [of R E resolve proxied router policy info direct_bind pool pool_iface vdo])
  case (physical route vdo')
  then show ?thesis
    by (intro exI [of _ route] exI [of _ vdo']) (auto simp: udp_leaves_def udp_captured_def split: option.splits)
next
  case (bypassed route vdo')
  then have "rt_desktop R" by (simp add: udp_bypassed_def)
  from assms(2) this bypassed(4) show ?thesis
    by (cases rule: route_udp_bypass_cases)
      (intro exI [of _ route] exI [of _ vdo'], use bypassed(1-3) in \<open>auto simp: udp_leaves_def udp_captured_def\<close>)+
next
  case (over_tcp route vdo')
  then show ?thesis
    by (intro exI [of _ route] exI [of _ vdo']) (auto simp: udp_leaves_def udp_captured_def)
next
  case (virtual route vdo')
  then show ?thesis
    by (intro exI [of _ route] exI [of _ vdo']) (auto simp: udp_leaves_def udp_captured_def)
next
  case (plain route vdo')
  note ok = route_udp_plain_ok [OF assms(2) plain(4)]
  note kind = route_udp_plain_kind [OF assms(2) plain(4)]
  have dns: "\<not> (rt_dns R = DnsPhysical \<and> sa_port (dst info) = DNS_PORT)" "\<not> (rt_dns R = DnsOverTcp \<and> sa_port (dst info) = DNS_PORT)"
    "\<not> (rt_dns R = DnsVirtual \<and> sa_port (dst info) = DNS_PORT)" "\<not> (rt_dns R \<noteq> DnsDirect \<and> sa_port (dst info) = DNS_PORT)"
    using plain(3) by auto
  have shape: "route \<noteq> UdpPhysicalDns iface" "route \<noteq> UdpSharedBypass i" "route \<noteq> UdpDnsOverTcp i" "route \<noteq> UdpVirtualDns" for iface i
    using conjunct1 [OF kind] by (elim disjE exE; simp)+
  show ?thesis
    by (intro exI [of _ route] exI [of _ vdo'] conjI) (use plain(1-3) ok conjunct2 [OF kind] shape dns in blast)+
qed

theorem udp_routes_respect_policy_witness:
  "\<exists>vdo'. route_udp demo_env (\<lambda>_ _ _ _. Inl (IoError NotFound [])) (\<lambda>_ _ _ _. Inl (IoError NotFound [])) demo_routing None None
     (demo_info 443) (Some demo_interface) (Inr False) None (Some demo_fake)
     = Some (UdpAssociate ViaUpstream (demo_info 443) (Some ''a.example'') None, vdo')"
proof -
  let ?resolve = "\<lambda>_ _ _ _. Inl (IoError NotFound [])" and ?info = "demo_info 443"
  have accepted: "rt_dns demo_routing = DnsPhysical \<longrightarrow> rt_desktop demo_routing" by (simp add: demo_routing_def)
  have plain: "\<not> udp_bypassed demo_routing None ?info" "sa_port (dst ?info) \<noteq> DNS_PORT"
    by (simp_all add: demo_info_def udp_bypassed_def policy_bypass_def is_multicast_def DNS_PORT_def)
  have d: "udp_destination demo_routing (dst ?info) = dst ?info" "sa_ip (dst ?info) = V4 24"
    using plain(2) by (simp_all add: udp_destination_def demo_info_def)
  have says: "router_says demo_routing None (dst ?info) (Some ''a.example'') = RouteProxy"
    "rt_udp_strategy demo_routing \<noteq> UdpDirect" "\<not> rt_udpgw demo_routing"
    by (simp_all add: router_says_def demo_routing_def)
  from udp_routes_respect_policy [OF accepted demo_fake_ok, of ?resolve ?resolve None None ?info "Some demo_interface" "Inr False" None]
  obtain route vdo' where run: "route_udp demo_env ?resolve ?resolve demo_routing None None ?info (Some demo_interface) (Inr False) None
      (Some demo_fake) = Some (route, vdo')"
    and ok: "plain_udp_ok demo_env ?resolve demo_routing None ?info (Some demo_interface) (Some demo_fake) route"
    using plain by blast
  have "route = UdpAssociate ViaUpstream (?info\<lparr>dst := dst ?info\<rparr>) (Some ''a.example'') None"
    using ok says unfolding plain_udp_ok_def Let_def d demo_fake_lookup by simp
  then show ?thesis using run by simp
qed

section \<open>Names resolved through the proxy\<close>

lemma proxied_step_sound:
  assumes "proxied_step H name_from_str new_message Q request_id want_ipv6 current = Inr (Address ip)"
  shows "\<exists>name m. name_from_str current = Inr name
    \<and> validate_dns_response H m request_id (address_query want_ipv6 name) = Inr () \<and> response_code m = NoError
    \<and> extract_address_or_cname H m (address_query want_ipv6 name) = Inr (Address ip)"
  using assms by (auto simp: proxied_step_def rbind_Inr_iff Let_def split: if_splits)

lemma resolve_domain_over_proxy_sound:
  assumes "resolve_domain_over_proxy H name_from_str new_message Q ids domain port want_ipv6 = Inr sa"
  shows "sa_port sa = port \<and> (\<exists>q m i. validate_dns_response H m i q = Inr () \<and> response_code m = NoError
    \<and> extract_address_or_cname H m q = Inr (Address (sa_ip sa)))"
proof -
  have "proxied_loop H name_from_str new_message Q ids port want_ipv6 n current = Inr sa \<Longrightarrow> ?thesis" for n current
  proof (induction n arbitrary: current)
    case (Suc n)
    then show ?case using proxied_step_sound [of H name_from_str new_message "Q n" "ids n" want_ipv6 current]
      by (auto split: sum.splits address_lookup.splits) blast+
  qed simp
  then show ?thesis using assms unfolding resolve_domain_over_proxy_def by blast
qed

end
