(* ===== verification/Sessions.thy ===== *)
theory Sessions
  imports DnsTransactions VirtualDns Routing ProxyHandler
begin

text \<open>
  The handlers of captured sessions, \<^verbatim>\<open>src/lib.rs\<close>, and the traffic counters of
  \<^verbatim>\<open>src/traffic_status.rs\<close>: the TCP relay with its optional filter of DNS replies, virtual DNS over UDP
  and TCP, the relay of datagrams through a SOCKS association, and DNS datagrams over one TCP connection.
  A stream is read as a list of results of which an empty chunk is the end; a handler that waits for
  another event is Pending.
\<close>

section \<open>Traffic counters\<close>

record traffic =
  ts_tx :: "64 word"
  ts_rx :: "64 word"
  ts_callback :: bool
  ts_interval :: nat
  ts_stamp :: nat

definition set_traffic_status_callback :: "nat \<Rightarrow> traffic \<Rightarrow> traffic" where
  "set_traffic_status_callback interval t =
     t\<lparr>ts_callback := True, ts_interval := (if interval > 0 then interval else ts_interval t)\<rparr>"

text \<open>The new counters and the report made to the callback; times are seconds.\<close>

definition traffic_status_update :: "nat \<Rightarrow> nat \<Rightarrow> nat \<Rightarrow> traffic \<Rightarrow> (64 word \<times> 64 word) option \<times> traffic" where
  "traffic_status_update delta_tx delta_rx now t =
     (if \<not> ts_callback t then (None, t)
      else let t' = t\<lparr>ts_tx := ts_tx t + of_nat delta_tx, ts_rx := ts_rx t + of_nat delta_rx\<rparr> in
        if now - ts_stamp t' \<ge> ts_interval t' then (Some (ts_tx t', ts_rx t'), t'\<lparr>ts_stamp := now\<rparr>) else (None, t'))"

section \<open>TCP relays\<close>

fun copy_and_record_traffic ::
  "stream_writer \<Rightarrow> bytes io_result list \<Rightarrow> nat \<Rightarrow> bytes \<Rightarrow> nat io_result poll \<times> bytes" where
  "copy_and_record_traffic wr [] copied out = (Pending, out)"
| "copy_and_record_traffic wr (Inl e # rs) copied out = (Ready (Inl e), out)"
| "copy_and_record_traffic wr (Inr chunk # rs) copied out =
     (if chunk = [] then (Ready (Inr copied), out)
      else case write_octets wr out chunk of
        Inl e \<Rightarrow> (Ready (Inl e), out)
      | Inr out' \<Rightarrow> copy_and_record_traffic wr rs (copied + length chunk) out')"

fun write_filtered :: "'n hickory \<Rightarrow> stream_writer \<Rightarrow> 'n message list \<Rightarrow> bytes \<Rightarrow> unit io_result \<times> bytes" where
  "write_filtered H wr [] out = (Inr (), out)"
| "write_filtered H wr (m # ms) out = (case to_vec_io H (remove_ipv6_entries m) of
     Inl e \<Rightarrow> (Inl e, out)
   | Inr packet \<Rightarrow>
       if length packet \<ge> 2 ^ 16 then (Inl (IoError OtherKind []), out)
       else (case write_octets wr out (to_be_bytes (of_nat (length packet) :: u16)) of
           Inl e \<Rightarrow> (Inl e, out)
         | Inr out1 \<Rightarrow> (case write_octets wr out1 packet of
             Inl e \<Rightarrow> (Inl e, out1)
           | Inr out2 \<Rightarrow> write_filtered H wr ms out2)))"

definition filter_pending ::
  "'n hickory \<Rightarrow> stream_writer \<Rightarrow> bytes \<Rightarrow> bytes \<Rightarrow> (bytes io_result) \<times> bytes" where
  "filter_pending H wr buffered out = (case drain_tcp_messages H buffered of
     (Inl e, rest) \<Rightarrow> (Inl (IoError OtherKind e), out)
   | (Inr ms, rest) \<Rightarrow> (case write_filtered H wr ms out of
       (Inl e, out') \<Rightarrow> (Inl e, out')
     | (Inr _, out') \<Rightarrow> (Inr rest, out')))"

fun copy_ipv4_loop ::
  "'n hickory \<Rightarrow> stream_writer \<Rightarrow> bytes io_result list \<Rightarrow> bytes \<Rightarrow> nat \<Rightarrow> bytes \<Rightarrow> nat io_result poll \<times> bytes" where
  "copy_ipv4_loop H wr [] rest copied out = (Pending, out)"
| "copy_ipv4_loop H wr (Inl e # rs) rest copied out = (Ready (Inl e), out)"
| "copy_ipv4_loop H wr (Inr chunk # rs) rest copied out =
     (if chunk = [] then
        (Ready (if rest = [] then Inr copied else Inl (IoError UnexpectedEof ''incomplete DNS-over-TCP response'')), out)
      else case filter_pending H wr (rest @ chunk) out of
        (Inl e, out') \<Rightarrow> (Ready (Inl e), out')
      | (Inr rest', out') \<Rightarrow> copy_ipv4_loop H wr rs rest' (copied + length chunk) out')"

definition copy_ipv4_dns_responses ::
  "'n hickory \<Rightarrow> stream_writer \<Rightarrow> bytes io_result list \<Rightarrow> bytes \<Rightarrow> nat io_result poll \<times> bytes" where
  "copy_ipv4_dns_responses H wr reads prefetched = (case filter_pending H wr prefetched [] of
     (Inl e, out) \<Rightarrow> (Ready (Inl e), out)
   | (Inr rest, out) \<Rightarrow> copy_ipv4_loop H wr reads rest 0 out)"

text \<open>
  \<^verbatim>\<open>handle_tcp_session\<close>: connect, run the handshake, keep what the last read already brought for the
  client, and pump both directions.  After the setup the relay is described for every number of reads
  that each pump has made: an error of one pump ends the session whatever the other has done.
\<close>

definition server_pump ::
  "'n hickory \<Rightarrow> bool \<Rightarrow> stream_writer \<Rightarrow> bytes \<Rightarrow> bytes io_result list \<Rightarrow> nat io_result poll \<times> bytes" where
  "server_pump H filter_dns_ipv6 wr prefetched reads =
     (if filter_dns_ipv6 then copy_ipv4_dns_responses H wr reads prefetched
      else case write_octets wr [] prefetched of
        Inl e \<Rightarrow> (Ready (Inl e), [])
      | Inr out \<Rightarrow> copy_and_record_traffic wr reads 0 out)"

definition join_pumps :: "nat io_result poll \<Rightarrow> nat io_result poll \<Rightarrow> unit result poll" where
  "join_pumps a b = (case (a, b) of
     (Ready (Inl e), _) \<Rightarrow> Ready (Inl (Io e))
   | (_, Ready (Inl e)) \<Rightarrow> Ready (Inl (Io e))
   | (Ready (Inr _), Ready (Inr _)) \<Rightarrow> Ready (Inr ())
   | _ \<Rightarrow> Pending)"

record tcp_outcome =
  to_result :: "unit result poll"
  to_server :: bytes
  to_client :: bytes

definition handle_tcp_session ::
  "'n hickory \<Rightarrow> 'h handler_ops \<Rightarrow> unit io_result \<Rightarrow> bool \<Rightarrow> bool \<Rightarrow> stream_writer \<Rightarrow> stream_writer \<Rightarrow> bytes io_result list
     \<Rightarrow> bytes io_result list \<Rightarrow> nat \<Rightarrow> nat \<Rightarrow> 'h \<Rightarrow> tcp_outcome option" where
  "handle_tcp_session H ops connected late filter_dns_ipv6 wr_server wr_client server_reads client_reads k l h =
     (if late then Some \<lparr>to_result = Ready (Inl (Io (IoError TimedOut ''TUN TCP setup exceeded configured TCP timeout''))),
                        to_server = [], to_client = []\<rparr>
      else case connected of
        Inl e \<Rightarrow> Some \<lparr>to_result = Ready (Inl (Io e)), to_server = [], to_client = []\<rparr>
      | Inr _ \<Rightarrow> (case handle_proxy_session ops wr_server server_reads h of
          None \<Rightarrow> None
        | Some (Pending, h', sent, rest) \<Rightarrow> Some \<lparr>to_result = Pending, to_server = sent, to_client = []\<rparr>
        | Some (Ready (Inl e), h', sent, rest) \<Rightarrow> Some \<lparr>to_result = Ready (Inl e), to_server = sent, to_client = []\<rparr>
        | Some (Ready (Inr _), h', sent, rest) \<Rightarrow> (case take_prefetched ops h' of
            None \<Rightarrow> None
          | Some (prefetched, h'') \<Rightarrow>
              (case copy_and_record_traffic wr_server (take k client_reads) 0 sent of (a, to_srv) \<Rightarrow>
               (case server_pump H filter_dns_ipv6 wr_client prefetched (take l rest) of (b, to_cl) \<Rightarrow>
                  Some \<lparr>to_result = join_pumps a b, to_server = to_srv, to_client = to_cl\<rparr>)))))"

section \<open>Virtual DNS sessions\<close>

text \<open>
  The resolver with its journal, and the state of the override.  An answer comes with the error for the
  case that it is too long for a frame.
\<close>

type_synonym ('c, 'o) vdns_state = "'c virtual_dns \<times> disk \<times> 'o"

definition vdns_answer ::
  "'c vd_env \<Rightarrow> 'n hickory \<Rightarrow> 'o dns_override \<Rightarrow> bool \<Rightarrow> bytes \<Rightarrow> ('c, 'o) vdns_state
     \<Rightarrow> ((bytes \<times> error) result \<times> ('c, 'o) vdns_state) option" where
  "vdns_answer E H R udp request st = (case st of (vd, d, o1) \<Rightarrow>
     (case dv_matches R o1 request of
        (Inl e, o2) \<Rightarrow> Some (Inl e, (vd, d, o2))
      | (Inr True, o2) \<Rightarrow> (case dv_answer R o2 request udp of (r, o3) \<Rightarrow> Some (map_sum id (\<lambda>a. (a, TryFromInt)) r, (vd, d, o3)))
      | (Inr False, o2) \<Rightarrow> (case generate_query E H request vd d of
          None \<Rightarrow> None
        | Some (r, vd', d') \<Rightarrow> Some (map_sum id (\<lambda>a. (fst a, StringError ''virtual DNS response exceeds TCP framing limit'')) r, (vd', d', o2)))))"

fun handle_virtual_dns_session ::
  "'c vd_env \<Rightarrow> 'n hickory \<Rightarrow> 'o dns_override \<Rightarrow> (bytes \<Rightarrow> unit io_result) \<Rightarrow> bytes io_result list \<Rightarrow> ('c, 'o) vdns_state
     \<Rightarrow> bytes list \<Rightarrow> (unit result poll \<times> ('c, 'o) vdns_state \<times> bytes list) option" where
  "handle_virtual_dns_session E H R send [] st sent = Some (Pending, st, sent)"
| "handle_virtual_dns_session E H R send (Inl e # rs) st sent = Some (Ready (Inr ()), st, sent)"
| "handle_virtual_dns_session E H R send (Inr request # rs) st sent =
     (if request = [] then Some (Ready (Inr ()), st, sent)
      else case vdns_answer E H R True request st of
        None \<Rightarrow> None
      | Some (Inl e, st') \<Rightarrow> Some (Ready (Inl e), st', sent)
      | Some (Inr (response, _), st') \<Rightarrow> (case send response of
          Inl e \<Rightarrow> Some (Ready (Inl (Io e)), st', sent)
        | Inr _ \<Rightarrow> handle_virtual_dns_session E H R send rs st' (sent @ [response])))"

text \<open>Over TCP the end of the stream is accepted between frames, also after a single octet of a prefix.\<close>

function virtual_dns_tcp ::
  "'c vd_env \<Rightarrow> 'n hickory \<Rightarrow> 'o dns_override \<Rightarrow> stream_writer \<Rightarrow> io_error option \<Rightarrow> bytes \<Rightarrow> ('c, 'o) vdns_state \<Rightarrow> bytes
     \<Rightarrow> (unit result \<times> ('c, 'o) vdns_state \<times> bytes) option" where
  "virtual_dns_tcp E H R wr fin input st out = (case read_n fin 2 input of
     Inl e \<Rightarrow> Some (if io_kind e = UnexpectedEof then Inr () else Inl (Io e), st, out)
   | Inr (head2, rest) \<Rightarrow>
       if nat_of_be head2 = 0 then Some (Inl (StringError ''empty DNS-over-TCP query''), st, out)
       else (case read_n fin (nat_of_be head2) rest of
           Inl e \<Rightarrow> Some (Inl (Io e), st, out)
         | Inr (request, input') \<Rightarrow> (case vdns_answer E H R False request st of
             None \<Rightarrow> None
           | Some (Inl e, st') \<Rightarrow> Some (Inl e, st', out)
           | Some (Inr (response, too_long), st') \<Rightarrow>
               if length response \<ge> 2 ^ 16 then Some (Inl too_long, st', out)
               else (case write_octets wr out (to_be_bytes (of_nat (length response) :: u16)) of
                   Inl e \<Rightarrow> Some (Inl (Io e), st', out)
                 | Inr out1 \<Rightarrow> (case write_octets wr out1 response of
                     Inl e \<Rightarrow> Some (Inl (Io e), st', out1)
                   | Inr out2 \<Rightarrow> virtual_dns_tcp E H R wr fin input' st' out2)))))"
  by pat_completeness auto

termination
  by (relation "measure (\<lambda>(E, H, R, wr, fin, input, st, out). length input)")
    (auto simp: read_n_def split: if_splits)

declare virtual_dns_tcp.simps [simp del]

section \<open>Datagrams through an association\<close>









text \<open>
  The setup of an association: the address to send to is known, or a handshake over TCP yields it;
  \<^verbatim>\<open>setup_late\<close> tells that the time for it has passed.
\<close>

definition associate_setup ::
  "socket_addr option \<Rightarrow> unit io_result \<Rightarrow> socket_addr option result \<Rightarrow> bool option \<Rightarrow> bind_interface option \<Rightarrow> bool
     \<Rightarrow> (socket_addr \<times> socket_source) result" where
  "associate_setup known connected handshake queue bind setup_late =
     (if setup_late then Inl (StringError ''UDP association setup timed out'')
      else rbind (case known of
          Some a \<Rightarrow> Inr a
        | None \<Rightarrow> rbind (io_result_error connected) (\<lambda>_. rbind handshake (\<lambda>a. case a of
            None \<Rightarrow> Inl (StringError ''udp associate failed'') | Some addr \<Rightarrow> Inr addr))) (\<lambda>udp_addr.
        rbind (io_result_error (create_udp_stream queue udp_addr bind)) (\<lambda>source. Inr (udp_addr, source))))"

section \<open>DNS datagrams over one TCP connection\<close>

record ('n, 'o) dns_session =
  ds_tx :: "'n transactions"
  ds_override :: 'o
  ds_direct :: "(nat \<times> bytes) list"
  ds_count :: nat
  ds_requests :: "bytes list"
  ds_written :: "bytes list"

definition dns_session_new :: "'o \<Rightarrow> ('n, 'o) dns_session" where
  "dns_session_new o1 = \<lparr>ds_tx = transactions_default, ds_override = o1, ds_direct = [], ds_count = 0, ds_requests = [], ds_written = []\<rparr>"

text \<open>
  The events of the loop: a datagram of the client with the outcome of queueing it for the proxy, the
  completion of a direct query, a reply of the proxy, and the end of the proxy connection with the
  replies that were still queued and the direct queries that finish after it.
\<close>

datatype dns_event =
  DsDatagram "bytes io_result" "unit io_result"
| DsDirectDone nat "bytes result io_result"
| DsUpstream "bytes option"
| DsUpstreamEnd "unit result" "bytes list" "bytes result io_result list"

definition dns_reply ::
  "'n hickory \<Rightarrow> (bytes \<Rightarrow> unit io_result) \<Rightarrow> bool \<Rightarrow> bool \<Rightarrow> bytes \<Rightarrow> ('n, 'o) dns_session \<Rightarrow> unit result \<times> ('n, 'o) dns_session" where
  "dns_reply H write named ipv6 response s =
     (case dns_error (parse_data_to_dns_message H response False) of
        Inl e \<Rightarrow> (Inl e, s)
      | Inr message \<Rightarrow> (case complete H message (ds_tx s) of
          (Inl e, _, tx) \<Rightarrow> (Inl (StringError e), s\<lparr>ds_tx := tx\<rparr>)
        | (Inr _, message', tx) \<Rightarrow>
            (case rbind (if named then dns_error (extract_domain_from_dns_message H message') else Inr []) (\<lambda>_.
                    to_vec H (if ipv6 then message' else remove_ipv6_entries message')) of
               Inl e \<Rightarrow> (Inl e, s\<lparr>ds_tx := tx\<rparr>)
             | Inr packet \<Rightarrow> (case write packet of
                 Inl e \<Rightarrow> (Inl (Io e), s\<lparr>ds_tx := tx\<rparr>)
               | Inr _ \<Rightarrow> (Inr (), s\<lparr>ds_tx := tx, ds_written := ds_written s @ [packet]\<rparr>)))))"

fun flush_replies ::
  "'n hickory \<Rightarrow> (bytes \<Rightarrow> unit io_result) \<Rightarrow> bool \<Rightarrow> bytes list \<Rightarrow> ('n, 'o) dns_session \<Rightarrow> unit result \<times> ('n, 'o) dns_session" where
  "flush_replies H write ipv6 [] s = (Inr (), s)"
| "flush_replies H write ipv6 (r # rs) s = (case dns_reply H write False ipv6 r s of
     (Inl e, s') \<Rightarrow> (Inl e, s')
   | (Inr _, s') \<Rightarrow> flush_replies H write ipv6 rs s')"

definition joined_answer :: "bytes result io_result \<Rightarrow> bytes result" where
  "joined_answer r = (case r of Inl e \<Rightarrow> Inl (Io e) | Inr a \<Rightarrow> a)"

fun flush_direct ::
  "'n hickory \<Rightarrow> (bytes \<Rightarrow> unit io_result) \<Rightarrow> bytes result io_result list \<Rightarrow> ('n, 'o) dns_session \<Rightarrow> unit result \<times> ('n, 'o) dns_session" where
  "flush_direct H write [] s = (Inr (), s)"
| "flush_direct H write (r # rs) s = (case joined_answer r of
     Inl e \<Rightarrow> (Inl e, s)
   | Inr response \<Rightarrow> (case dns_reply H write False True response s of
       (Inl e, s') \<Rightarrow> (Inl e, s')
     | (Inr _, s') \<Rightarrow> flush_direct H write rs s'))"

definition dns_datagram ::
  "'n hickory \<Rightarrow> 'o dns_override \<Rightarrow> bytes \<Rightarrow> unit io_result \<Rightarrow> ('n, 'o) dns_session \<Rightarrow> (unit result \<times> ('n, 'o) dns_session) option" where
  "dns_datagram H R data queued s = (case prepare H data (ds_tx s) of
     None \<Rightarrow> None
   | Some (Inl e, tx) \<Rightarrow> Some (Inl (StringError e), s\<lparr>ds_tx := tx\<rparr>)
   | Some (Inr None, tx) \<Rightarrow> Some (Inr (), s\<lparr>ds_tx := tx\<rparr>)
   | Some (Inr (Some request), tx) \<Rightarrow> Some (case dv_matches R (ds_override s) request of
       (Inl e, o2) \<Rightarrow> (Inl e, s\<lparr>ds_tx := tx, ds_override := o2\<rparr>)
     | (Inr True, o2) \<Rightarrow> (Inr (), s\<lparr>ds_tx := tx, ds_override := o2, ds_direct := ds_direct s @ [(ds_count s, request)],
                                  ds_count := ds_count s + 1\<rparr>)
     | (Inr False, o2) \<Rightarrow> (case queued of
         Inl e \<Rightarrow> (Inl (Io e), s\<lparr>ds_tx := tx, ds_override := o2\<rparr>)
       | Inr _ \<Rightarrow> (Inr (), s\<lparr>ds_tx := tx, ds_override := o2, ds_requests := ds_requests s @ [request]\<rparr>))))"

text \<open>One turn of the loop; the first component is the result when the session ends with it.\<close>

definition dns_turn ::
  "'n hickory \<Rightarrow> 'o dns_override \<Rightarrow> (bytes \<Rightarrow> unit io_result) \<Rightarrow> bool \<Rightarrow> dns_event \<Rightarrow> ('n, 'o) dns_session
     \<Rightarrow> (unit result option \<times> ('n, 'o) dns_session) option" where
  "dns_turn H R write ipv6 ev s =
     (let go = (\<lambda>(r, s'). (case r of Inl e \<Rightarrow> Some (Inl e) | Inr _ \<Rightarrow> None, s')) in
      case ev of
        DsDatagram (Inl e) queued \<Rightarrow> Some (Some (Inl (Io e)), s)
      | DsDatagram (Inr data) queued \<Rightarrow>
          if data = [] then Some (Some (Inr ()), s) else map_option go (dns_datagram H R data queued s)
      | DsDirectDone i r \<Rightarrow> Some (case joined_answer r of
            Inl e \<Rightarrow> (Some (Inl e), s)
          | Inr response \<Rightarrow> go (dns_reply H write False True response (s\<lparr>ds_direct := filter (\<lambda>q. fst q \<noteq> i) (ds_direct s)\<rparr>)))
      | DsUpstream None \<Rightarrow> Some (None, s)
      | DsUpstream (Some response) \<Rightarrow> Some (go (dns_reply H write True ipv6 response s))
      | DsUpstreamEnd result queued direct \<Rightarrow> Some (case flush_replies H write ipv6 queued s of
            (Inl e, s1) \<Rightarrow> (Some (Inl e), s1)
          | (Inr _, s1) \<Rightarrow> (case flush_direct H write direct s1 of
              (Inl e, s2) \<Rightarrow> (Some (Inl e), s2)
            | (Inr _, s2) \<Rightarrow> (Some result, s2))))"

fun handle_dns_over_tcp_session ::
  "'n hickory \<Rightarrow> 'o dns_override \<Rightarrow> (bytes \<Rightarrow> unit io_result) \<Rightarrow> bool \<Rightarrow> dns_event list \<Rightarrow> ('n, 'o) dns_session
     \<Rightarrow> (unit result poll \<times> ('n, 'o) dns_session) option" where
  "handle_dns_over_tcp_session H R write ipv6 [] s = Some (Pending, s)"
| "handle_dns_over_tcp_session H R write ipv6 (ev # es) s = (case dns_turn H R write ipv6 ev s of
     None \<Rightarrow> None
   | Some (Some r, s') \<Rightarrow> Some (Ready r, s')
   | Some (None, s') \<Rightarrow> handle_dns_over_tcp_session H R write ipv6 es s')"

section \<open>Filtered replies\<close>

lemma take_frame_append: "2 + n \<le> length r \<Longrightarrow> take n (drop 2 (r @ x)) = take n (drop 2 r)"
  by simp

lemma drain_loop_step:
  assumes "drop k b = r" "nat_of_be [r ! 0, r ! 1] = n" "2 \<le> length r" "n \<noteq> 0" "2 + n \<le> length r"
  shows "drain_loop H b k ms = (case parse_data_to_dns_message H (take n (drop 2 r)) False of
    Inl e \<Rightarrow> Inl e | Inr m \<Rightarrow> drain_loop H b (k + (2 + n)) (ms @ [m]))"
  by (subst drain_loop.simps)
    (simp only: Let_def DNS_TCP_PREFIX_SIZE_def assms(1,2) if_not_P [OF assms(4)] if_not_P [OF leD [OF assms(3)]]
      if_not_P [OF leD [OF assms(5)]])

lemma drain_loop_stop:
  assumes "drop k b = r" "nat_of_be [r ! 0, r ! 1] = n"
  shows "length r < 2 \<Longrightarrow> drain_loop H b k ms = Inr (k, ms)"
    "2 \<le> length r \<Longrightarrow> n = 0 \<Longrightarrow> drain_loop H b k ms = Inl ''empty DNS-over-TCP frame''"
    "2 \<le> length r \<Longrightarrow> n \<noteq> 0 \<Longrightarrow> length r < 2 + n \<Longrightarrow> drain_loop H b k ms = Inr (k, ms)"
  by (subst drain_loop.simps, simp add: Let_def DNS_TCP_PREFIX_SIZE_def assms(1) assms(2) [unfolded One_nat_def])+

lemma drain_loop_error: "drain_loop H b k ms = Inl e \<Longrightarrow> drain_loop H (b @ b2) k ms = Inl e"
proof (induction "length b - k" arbitrary: k ms rule: less_induct)
  case less
  obtain r n where r: "drop k b = r" and n: "nat_of_be [r ! 0, r ! 1] = n" by blast
  note stops = drain_loop_stop [OF r n, of H ms]
  have two: "2 \<le> length r"
  proof (rule ccontr)
    assume "\<not> 2 \<le> length r"
    with less.prems stops(1) show False by simp
  qed
  have r2: "drop k (b @ b2) = r @ b2" using two r by auto
  have n2: "nat_of_be [(r @ b2) ! 0, (r @ b2) ! 1] = n" using n two by (cases r) (auto simp: nth_append)
  show ?case
  proof (cases "n = 0")
    case True
    then show ?thesis using less.prems stops(2) [OF two] drain_loop_stop(2) [OF r2 n2, of H ms] two by simp
  next
    case False
    have long: "2 + n \<le> length r"
    proof (rule ccontr)
      assume "\<not> 2 + n \<le> length r"
      with less.prems stops(3) [OF two False] show False by simp
    qed
    note s1 = drain_loop_step [OF r n two False long, of H ms]
    have s2: "drain_loop H (b @ b2) k ms = (case parse_data_to_dns_message H (take n (drop 2 r)) False of
        Inl e \<Rightarrow> Inl e | Inr m \<Rightarrow> drain_loop H (b @ b2) (k + (2 + n)) (ms @ [m]))"
      using drain_loop_step [OF r2 n2 _ False, of H ms] two long take_frame_append [OF long, of b2] by simp
    have "length b - (k + (2 + n)) < length b - k" using two r by auto
    then show ?thesis using less.prems less.hyps [of "k + (2 + n)"] s1 s2 by (auto split: sum.splits)
  qed
qed

lemma drain_prefix:
  assumes "drain_tcp_messages H (b1 @ b2) = (Inr ms, tail)"
  obtains ms1 ms2 rest where "drain_tcp_messages H b1 = (Inr ms1, rest)" "drain_tcp_messages H (rest @ b2) = (Inr ms2, tail)"
    "ms = ms1 @ ms2"
proof -
  obtain r rest where d: "drain_tcp_messages H b1 = (r, rest)" by fastforce
  have "\<exists>ms1. r = Inr ms1"
  proof (rule ccontr)
    assume "\<nexists>ms1. r = Inr ms1"
    then obtain e where "drain_loop H b1 0 [] = Inl e" using d
      by (cases r) (auto simp: drain_tcp_messages_def split: sum.splits prod.splits)
    from drain_loop_error [OF this, of b2] assms show False by (simp add: drain_tcp_messages_def)
  qed
  then obtain ms1 where ms1: "r = Inr ms1" by blast
  from drain_tcp_messages_chunks [OF d [unfolded ms1], of b2] assms d ms1 that show ?thesis
    by (auto split: prod.splits sum.splits)
qed

definition filtered_encoding :: "'n hickory \<Rightarrow> 'n message \<Rightarrow> bytes \<Rightarrow> bool" where
  "filtered_encoding H m packet = (to_vec H (remove_ipv6_entries m) = Inr packet \<and> length packet < 65536)"

lemma write_filtered_all:
  assumes "list_all2 (filtered_encoding H) ms packets" "\<And>sent data. wr sent data = None"
  shows "write_filtered H wr ms out = (Inr (), out @ concat (map tcp_frame packets))"
  using assms(1)
  by (induction arbitrary: out rule: list_all2_induct)
    (auto simp: filtered_encoding_def to_vec_io_def write_octets_def assms(2) tcp_frame_def)

lemma copy_ipv4_loop_all:
  assumes "drain_tcp_messages H (rest @ concat chunks) = (Inr ms, tail)" "drain_tcp_messages H rest = (Inr [], rest)"
    "list_all2 (filtered_encoding H) ms packets" "[] \<notin> set chunks" "\<And>sent data. wr sent data = None"
  shows "copy_ipv4_loop H wr (map Inr chunks @ [Inr []]) rest copied out
    = (Ready (if tail = [] then Inr (copied + length (concat chunks))
              else Inl (IoError UnexpectedEof ''incomplete DNS-over-TCP response'')), out @ concat (map tcp_frame packets))"
  using assms(1-4)
proof (induction chunks arbitrary: rest ms packets copied out)
  case Nil
  then show ?case by auto
next
  case (Cons chunk chunks)
  from Cons.prems(1) have "drain_tcp_messages H ((rest @ chunk) @ concat chunks) = (Inr ms, tail)" by simp
  then obtain ms1 ms2 rest1 where d: "drain_tcp_messages H (rest @ chunk) = (Inr ms1, rest1)"
    "drain_tcp_messages H (rest1 @ concat chunks) = (Inr ms2, tail)" "ms = ms1 @ ms2"
    by (rule drain_prefix)
  from Cons.prems(3) d(3) obtain packets1 packets2 where p: "packets = packets1 @ packets2"
    "list_all2 (filtered_encoding H) ms1 packets1" "list_all2 (filtered_encoding H) ms2 packets2"
    by (auto simp: list_all2_append1)
  have idle: "drain_tcp_messages H rest1 = (Inr [], rest1)"
    using drain_tcp_messages_chunks [OF d(1), of "[]"] d(1) by (auto split: prod.splits sum.splits)
  have "filter_pending H wr (rest @ chunk) out = (Inr rest1, out @ concat (map tcp_frame packets1))"
    using d(1) write_filtered_all [OF p(2) assms(5)] by (simp add: filter_pending_def)
  then show ?case using Cons.IH [OF d(2) idle p(3)] Cons.prems(4) p(1) by (auto simp: add.assoc)
qed

text \<open>
  C24.  The filter of DNS replies on an IPv4 tunnel works on whole messages, however the octets of the
  resolver are cut: what the proxy handshake had already read and the reads after it may split or join
  frames anywhere.  The client gets exactly the replies in order, each without its IPv6 records; an
  incomplete reply at the end of the stream is reported and no octet of it is passed on.
\<close>

theorem ipv4_dns_stream_filtered:
  assumes frames: "list_all (\<lambda>(p, m). p \<noteq> [] \<and> length p < 65536 \<and> from_vec H p = Inr m) pms"
    and tail: "length tail < 2 \<or> nat_of_be (take 2 tail) \<noteq> 0 \<and> length tail < 2 + nat_of_be (take 2 tail)"
    and stream: "prefetched @ concat chunks = concat (map (tcp_frame \<circ> fst) pms) @ tail" "[] \<notin> set chunks"
    and packets: "list_all2 (filtered_encoding H) (map snd pms) packets"
    and wr: "\<And>sent data. wr sent data = None"
  shows "copy_ipv4_dns_responses H wr (map Inr chunks @ [Inr []]) prefetched
    = (Ready (if tail = [] then Inr (length (concat chunks))
              else Inl (IoError UnexpectedEof ''incomplete DNS-over-TCP response'')), concat (map tcp_frame packets))"
proof -
  from drain_tcp_messages_frames [OF frames tail] have "drain_tcp_messages H (prefetched @ concat chunks) = (Inr (map snd pms), tail)"
    unfolding stream(1) .
  then obtain ms1 ms2 rest where d: "drain_tcp_messages H prefetched = (Inr ms1, rest)"
    "drain_tcp_messages H (rest @ concat chunks) = (Inr ms2, tail)" "map snd pms = ms1 @ ms2"
    by (rule drain_prefix)
  from packets d(3) obtain packets1 packets2 where p: "packets = packets1 @ packets2"
    "list_all2 (filtered_encoding H) ms1 packets1" "list_all2 (filtered_encoding H) ms2 packets2"
    by (auto simp: list_all2_append1)
  have idle: "drain_tcp_messages H rest = (Inr [], rest)"
    using drain_tcp_messages_chunks [OF d(1), of "[]"] d(1) by (auto split: prod.splits sum.splits)
  have "filter_pending H wr prefetched [] = (Inr rest, concat (map tcp_frame packets1))"
    using d(1) write_filtered_all [OF p(2) wr, where out = "[]"] by (simp add: filter_pending_def)
  then show ?thesis
    using copy_ipv4_loop_all [OF d(2) idle p(3) stream(2) wr] p(1) by (simp add: copy_ipv4_dns_responses_def)
qed

text \<open>One reply of which the handshake had read two octets.\<close>

theorem ipv4_dns_stream_filtered_witness:
  "\<exists>packet. to_vec demo_round (remove_ipv6_entries (servfail (demo_query 7 TypeA))) = Inr packet
     \<and> copy_ipv4_dns_responses demo_round (\<lambda>_ _. None) [Inr [3], Inr []] [0, 1] = (Ready (Inr (length [3 :: byte])), tcp_frame packet)"
proof -
  let ?m = "servfail (demo_query 7 TypeA)"
  have 1: "list_all (\<lambda>(p, m). p \<noteq> [] \<and> length p < 65536 \<and> from_vec demo_round p = Inr m) [([3], ?m)]"
    by (simp add: demo_round_def)
  have 2: "[0, 1] @ concat [[3]] = concat (map (tcp_frame \<circ> fst) [([3], ?m)]) @ []" by code_simp
  have 3: "to_vec demo_round (remove_ipv6_entries ?m) = Inr [3]" by code_simp
  then have "list_all2 (filtered_encoding demo_round) (map snd [([3], ?m)]) [[3]]" by (simp add: filtered_encoding_def)
  from ipv4_dns_stream_filtered [OF 1 _ 2 _ this] 3 show ?thesis by auto
qed

section \<open>Relayed datagrams\<close>







section \<open>Replies over a shared connection\<close>

definition datagram_of :: "dns_event \<Rightarrow> bytes option" where
  "datagram_of e = (case e of DsDatagram (Inr d) _ \<Rightarrow> Some d | _ \<Rightarrow> None)"

definition asked :: "'n hickory \<Rightarrow> bytes set \<Rightarrow> 'n pending \<Rightarrow> bool" where
  "asked H seen p = (p_request p \<in> seen \<and> (\<exists>q. from_vec H (p_request p) = Inr q \<and> validate_dns_query q = Inr (p_question p)
     \<and> p_client_id p = msg_id q))"

definition dns_session_ok :: "'n hickory \<Rightarrow> bytes list \<Rightarrow> ('n, 'o) dns_session \<Rightarrow> bool" where
  "dns_session_ok H seen s = ((\<forall>(i, p) \<in> set (pending (ds_tx s)). asked H (set seen) p)
     \<and> (\<forall>w \<in> set (ds_written s). \<exists>request \<in> set seen. replies_to H request w)
     \<and> length (ds_written s) + length (pending (ds_tx s)) \<le> length seen)"

lemma dns_session_ok_mono: "dns_session_ok H seen s \<Longrightarrow> dns_session_ok H (seen @ extra) s"
  by (fastforce simp: dns_session_ok_def asked_def)

lemma delete_length: "map_of al k = Some v \<Longrightarrow> Suc (length (AList.delete k al)) \<le> length al"
  by (induction al) (auto simp: AList.delete_eq le_SucI dest: length_filter_le [THEN le_trans] split: if_splits)

lemma completed_cases:
  assumes "complete H m tx = (r, m', tx')"
  obtains (refused) e where "r = Inl e" "tx' = tx"
    | (accepted) p where "r = Inr ()" "(msg_id m, p) \<in> set (pending tx)" "validate_dns_response H m (msg_id m) (p_question p) = Inr ()"
        "m' = m\<lparr>msg_id := p_client_id p\<rparr>" "set (pending tx') \<subseteq> set (pending tx)"
        "Suc (length (pending tx')) \<le> length (pending tx)"
proof (cases "map_of (pending tx) (msg_id m)")
  case None
  then have "r = Inl ''unsolicited DNS-over-TCP response ID''" "tx' = tx" using assms by (auto simp: complete_def)
  then show ?thesis by (rule refused)
next
  case (Some p)
  show ?thesis
  proof (cases "validate_dns_response H m (msg_id m) (p_question p)")
    case (Inl e)
    then have "r = Inl e" "tx' = tx" using assms Some by (auto simp: complete_def)
    then show ?thesis by (rule refused)
  next
    case (Inr u)
    then have tx': "r = Inr ()" "m' = m\<lparr>msg_id := p_client_id p\<rparr>" "pending tx' = AList.delete (msg_id m) (pending tx)"
      using assms Some by (auto simp: complete_def)
    show ?thesis
      by (rule accepted [OF tx'(1) map_of_SomeD [OF Some] _ tx'(2)])
        (use Inr tx'(3) delete_length [OF Some] in \<open>auto simp: AList.delete_eq\<close>)
  qed
qed

lemma validate_response_reid [simp]:
  "validate_dns_response H (m\<lparr>msg_id := i\<rparr>) i q = validate_dns_response H m (msg_id m) q"
  by (cases "queries m") (simp_all add: validate_dns_response_def)

lemma dns_reply_ok:
  assumes codec: "codec_faithful H" and ok: "dns_session_ok H seen s"
    and run: "dns_reply H write named ipv6 response s = (r, s')"
  shows "dns_session_ok H seen s'"
proof (cases "from_vec H response")
  case (Inl e)
  with run ok show ?thesis by (simp add: dns_reply_def dns_error_def)
next
  case (Inr m)
  obtain c m' tx where c: "complete H m (ds_tx s) = (c, m', tx)" by (cases "complete H m (ds_tx s)")
  from c show ?thesis
  proof (cases rule: completed_cases)
    case (refused e)
    with run ok Inr c show ?thesis by (simp add: dns_reply_def dns_error_def dns_session_ok_def)
  next
    case (accepted p)
    let ?out = "if ipv6 then m' else remove_ipv6_entries m'"
    have kept: "dns_session_ok H seen (s\<lparr>ds_tx := tx\<rparr>)" using ok accepted(5,6) by (auto simp: dns_session_ok_def)
    have "asked H (set seen) p" using ok accepted(2) by (auto simp: dns_session_ok_def)
    then obtain q where q: "p_request p \<in> set seen" "from_vec H (p_request p) = Inr q"
        "validate_dns_query q = Inr (p_question p)" "p_client_id p = msg_id q"
      by (auto simp: asked_def)
    have valid: "validate_dns_response H ?out (msg_id q) (p_question p) = Inr ()"
      using accepted(3) q(4) unfolding accepted(4) by simp
    have reply: "replies_to H (p_request p) packet" if "to_vec H ?out = Inr packet" for packet
      using that codec q valid unfolding replies_to_def codec_faithful_def by blast
    show ?thesis
    proof (cases "r = Inr ()")
      case True
      then obtain packet where "to_vec H ?out = Inr packet" "s' = s\<lparr>ds_tx := tx, ds_written := ds_written s @ [packet]\<rparr>"
        using run Inr c accepted(1) by (auto simp: dns_reply_def dns_error_def rbind_Inr_iff split: sum.splits)
      then show ?thesis using kept reply q(1) ok accepted(6) by (auto simp: dns_session_ok_def)
    next
      case False
      then have "s' = s\<lparr>ds_tx := tx\<rparr>"
        using run Inr c accepted(1) by (auto simp: dns_reply_def dns_error_def split: sum.splits)
      then show ?thesis using kept by simp
    qed
  qed
qed

lemma flush_replies_ok:
  "codec_faithful H \<Longrightarrow> dns_session_ok H seen s \<Longrightarrow> flush_replies H write ipv6 rs s = (r, s') \<Longrightarrow> dns_session_ok H seen s'"
proof (induction rs arbitrary: s)
  case (Cons a rs)
  obtain r1 s1 where d: "dns_reply H write False ipv6 a s = (r1, s1)" by fastforce
  from dns_reply_ok [OF Cons.prems(1,2) d] Cons d show ?case by (auto split: sum.splits)
qed simp

lemma flush_direct_ok:
  "codec_faithful H \<Longrightarrow> dns_session_ok H seen s \<Longrightarrow> flush_direct H write rs s = (r, s') \<Longrightarrow> dns_session_ok H seen s'"
proof (induction rs arbitrary: s)
  case (Cons a rs)
  show ?case
  proof (cases "joined_answer a")
    case (Inl e)
    with Cons.prems show ?thesis by simp
  next
    case (Inr response)
    obtain r1 s1 where d: "dns_reply H write False True response s = (r1, s1)" by fastforce
    from dns_reply_ok [OF Cons.prems(1,2) d] Cons d Inr show ?thesis by (auto split: sum.splits)
  qed
qed simp

lemma update_within: "set (AList.update k v es) \<subseteq> insert (k, v) (set es) \<and> length (AList.update k v es) \<le> Suc (length es)"
  by (induction es) auto

lemma prepare_asked:
  assumes "prepare H data tx = Some (r, tx')"
  shows "set (pending tx') \<subseteq> set (pending tx) \<union> {(i, p). asked H {data} p}
    \<and> length (pending tx') \<le> Suc (length (pending tx))"
proof (cases "tx' = tx")
  case True
  then show ?thesis by auto
next
  case False
  with assms obtain i q question where "from_vec H data = Inr q" "validate_dns_query q = Inr question"
    "pending tx' = AList.update i \<lparr>p_request = data, p_question = question, p_client_id = msg_id q\<rparr> (pending tx)"
    by (auto simp: prepare_def split: sum.splits if_splits option.splits)
  then show ?thesis
    using update_within [of i "\<lparr>p_request = data, p_question = question, p_client_id = msg_id q\<rparr>" "pending tx"]
    by (auto simp: asked_def)
qed

lemma dns_datagram_ok:
  assumes ok: "dns_session_ok H seen s" and run: "dns_datagram H R data queued s = Some (r, s')"
  shows "dns_session_ok H (seen @ [data]) s'"
proof -
  from run obtain p tx where p: "prepare H data (ds_tx s) = Some (p, tx)" by (auto simp: dns_datagram_def split: option.splits)
  have "ds_tx s' = tx \<and> ds_written s' = ds_written s"
    using run p by (auto simp: dns_datagram_def split: sum.splits option.splits prod.splits bool.splits)
  with prepare_asked [OF p] ok show ?thesis by (fastforce simp: dns_session_ok_def asked_def)
qed

lemma dns_turn_ok:
  assumes codec: "codec_faithful H" and ok: "dns_session_ok H seen s" and run: "dns_turn H R write ipv6 ev s = Some (r, s')"
  shows "dns_session_ok H (seen @ (case datagram_of ev of None \<Rightarrow> [] | Some d \<Rightarrow> [d])) s'"
proof (cases ev)
  case (DsDatagram got queued)
  show ?thesis
  proof (cases got)
    case (Inl e)
    with DsDatagram run ok show ?thesis by (simp add: dns_turn_def datagram_of_def)
  next
    case (Inr data)
    show ?thesis
    proof (cases "data = []")
      case True
      with DsDatagram Inr run ok show ?thesis
        using dns_session_ok_mono [OF ok, of "[data]"] by (simp add: dns_turn_def datagram_of_def)
    next
      case False
      with DsDatagram Inr run obtain r1 where "dns_datagram H R data queued s = Some (r1, s')"
        by (auto simp: dns_turn_def Let_def)
      from dns_datagram_ok [OF ok this] DsDatagram Inr show ?thesis by (simp add: datagram_of_def)
    qed
  qed
next
  case (DsDirectDone i a)
  show ?thesis
  proof (cases "joined_answer a")
    case (Inl e)
    with DsDirectDone run ok show ?thesis by (simp add: dns_turn_def datagram_of_def)
  next
    case (Inr response)
    let ?s = "s\<lparr>ds_direct := filter (\<lambda>q. fst q \<noteq> i) (ds_direct s)\<rparr>"
    obtain r1 s1 where d: "dns_reply H write False True response ?s = (r1, s1)" by fastforce
    have "dns_session_ok H seen ?s" using ok by (simp add: dns_session_ok_def)
    from dns_reply_ok [OF codec this d] d Inr DsDirectDone run show ?thesis by (simp add: dns_turn_def Let_def datagram_of_def)
  qed
next
  case (DsUpstream a)
  show ?thesis
  proof (cases a)
    case None
    with DsUpstream run ok show ?thesis by (simp add: dns_turn_def datagram_of_def)
  next
    case (Some response)
    obtain r1 s1 where d: "dns_reply H write True ipv6 response s = (r1, s1)" by fastforce
    from dns_reply_ok [OF codec ok d] d Some DsUpstream run show ?thesis by (simp add: dns_turn_def Let_def datagram_of_def)
  qed
next
  case (DsUpstreamEnd result queued direct)
  obtain r1 s1 where f: "flush_replies H write ipv6 queued s = (r1, s1)" by fastforce
  note ok1 = flush_replies_ok [OF codec ok f]
  obtain r2 s2 where g: "flush_direct H write direct s1 = (r2, s2)" by fastforce
  from ok1 flush_direct_ok [OF codec ok1 g] f g DsUpstreamEnd run show ?thesis
    by (auto simp: dns_turn_def Let_def datagram_of_def split: sum.splits)
qed

text \<open>
  C10.  Whatever the client sends, whichever questions are answered directly, and whatever the proxy
  returns in whatever order, each packet written to the client is a response with the identifier and the
  question of a datagram the client sent before, and there are never more replies than questions.
\<close>

theorem dns_over_tcp_replies_match:
  assumes "codec_faithful H" and "handle_dns_over_tcp_session H R write ipv6 events (dns_session_new o1) = Some (r, s)"
  shows "(\<forall>w \<in> set (ds_written s). \<exists>request \<in> set (List.map_filter datagram_of events). replies_to H request w)
    \<and> length (ds_written s) \<le> length (List.map_filter datagram_of events)"
proof -
  have "dns_session_ok H (seen @ List.map_filter datagram_of events) s"
    if "dns_session_ok H seen s0" "handle_dns_over_tcp_session H R write ipv6 events s0 = Some (r, s)" for seen s0
    using that
  proof (induction events arbitrary: seen s0)
    case Nil
    then show ?case by (simp add: map_filter_def)
  next
    case (Cons ev events)
    from Cons.prems(2) obtain r1 s1 where t: "dns_turn H R write ipv6 ev s0 = Some (r1, s1)" by (auto split: option.splits)
    note ok = dns_turn_ok [OF assms(1) Cons.prems(1) t]
    show ?case
    proof (cases r1)
      case None
      with Cons.IH [OF ok] Cons.prems(2) t show ?thesis by (auto simp: map_filter_simps split: option.splits)
    next
      case (Some a)
      with Cons.prems(2) t have "s = s1" by simp
      with dns_session_ok_mono [OF ok, of "List.map_filter datagram_of events"] show ?thesis
        by (auto simp: map_filter_simps split: option.splits)
    qed
  qed
  from this [of "[]", OF _ assms(2)] show ?thesis
    by (simp add: dns_session_ok_def dns_session_new_def transactions_default_def)
qed

text \<open>A question that goes to the proxy and its reply.\<close>

theorem dns_over_tcp_replies_match_witness:
  "\<exists>s. handle_dns_over_tcp_session demo_round (no_dns_override :: unit dns_override) (\<lambda>_. Inr ()) True
       [DsDatagram (Inr [0, 7]) (Inr ()), DsUpstream (Some [2, 2])] (dns_session_new ()) = Some (Pending, s)
     \<and> ds_written s = [[2, 2]] \<and> replies_to demo_round [0, 7] [2, 2]"
proof -
  let ?q = "queries (demo_query 7 TypeA) ! 0"
  have *: "from_vec demo_round [0, 7] = Inr (demo_query 7 TypeA)" "validate_dns_query (demo_query 7 TypeA) = Inr ?q"
    "from_vec demo_round [2, 2] = Inr demo_answer" "msg_id (demo_query 7 TypeA) = 7" "msg_id demo_answer = 7"
    "validate_dns_response demo_round demo_answer 7 ?q = Inr ()" "to_be_bytes (7 :: u16) = [0, 7]"
    "demo_answer\<lparr>msg_id := 7\<rparr> = demo_answer" "to_vec demo_round demo_answer = Inr [2, 2]"
    "extract_domain_from_dns_message demo_round demo_answer = Inr ''a.example''"
    by code_simp+
  let ?tx = "\<lparr>pending = [(7, \<lparr>p_request = [0, 7], p_question = ?q, p_client_id = 7\<rparr>)]\<rparr>"
  let ?s1 = "(dns_session_new () :: (string, unit) dns_session)\<lparr>ds_tx := ?tx, ds_requests := [[0, 7]]\<rparr>"
  have "prepare demo_round [0, 7] transactions_default = Some (Inr (Some [0, 7]), ?tx)"
    by (simp add: prepare_def transactions_default_def MAX_OUTSTANDING_DNS_QUERIES_def free_id_free *)
  then have 1: "dns_turn demo_round no_dns_override (\<lambda>_. Inr ()) True (DsDatagram (Inr [0, 7]) (Inr ())) (dns_session_new ()) = Some (None, ?s1)"
    by (simp add: dns_turn_def dns_datagram_def dns_session_new_def no_dns_override_def)
  have "complete demo_round demo_answer ?tx = (Inr (), demo_answer, transactions_default)"
    by (simp add: complete_def transactions_default_def *)
  then have 2: "dns_turn demo_round no_dns_override (\<lambda>_. Inr ()) True (DsUpstream (Some [2, 2])) ?s1
      = Some (None, ?s1\<lparr>ds_tx := transactions_default, ds_written := [[2, 2]]\<rparr>)"
    by (simp add: dns_turn_def dns_reply_def dns_error_def dns_session_new_def *)
  have run: "handle_dns_over_tcp_session demo_round (no_dns_override :: unit dns_override) (\<lambda>_. Inr ()) True
      [DsDatagram (Inr [0, 7]) (Inr ()), DsUpstream (Some [2, 2])] (dns_session_new ())
      = Some (Pending, ?s1\<lparr>ds_tx := transactions_default, ds_written := [[2, 2]]\<rparr>)"
    using 1 2 by simp
  from dns_over_tcp_replies_match [OF demo_codec_laws(1) run] have "replies_to demo_round [0, 7] [2, 2]"
    by (simp add: datagram_of_def map_filter_def)
  with run show ?thesis by simp
qed

end
