(* ===== verification/Spec2Isabelle.thy ===== *)
theory Spec2Isabelle
  imports VdnsJournal DnsTransactions UdpgwServer GatewaySession Socks Http Egress UdpBypass
    QueryOrigins Sessions
begin

text \<open>
  A verification development for tun2proxy, a transparent proxy that terminates the TCP and UDP
  sessions of a TUN interface and carries them over SOCKS, HTTP CONNECT, a UDP gateway or, for chosen
  processes, a physical interface.  Paths are relative to the root of the repository.

  \<^bold>\<open>How the program works.\<close>  \<^verbatim>\<open>run\<close> in \<^verbatim>\<open>src/lib.rs\<close> accepts the sessions of an IP stack.  A session counter
  admits it, the process policy says whether its process bypasses the proxy, and the DNS mode, the
  UDP strategy and the destination choose a handler.  DNS is answered by the virtual resolver, which
  hands out fake addresses and remembers their names, by one TCP connection through the proxy, or by
  the resolvers of the physical interface.  Other TCP connections are relayed after the handshake of a
  proxy protocol, and datagrams by a SOCKS association, a pooled connection to the UDP gateway, or a
  pool of physical sockets.  On Windows the routes, DNS servers and interface settings of a session are
  installed and given back as a transaction, and shared DNS questions are attributed to the process
  that caused them by the events of the DNS client.

  \<^bold>\<open>Conventions.\<close>  Fallible code returns a sum with the error on the left.  State is passed explicitly.
  The value None of an operation that the source declares total means that it panics or does not
  return, and theorems say where it does not occur.  Machine integers whose overflow matters are words.
  Tasks that run concurrently are functions, one per critical section, and an inductive relation is
  their interleaving.  The outcomes of system calls, the network and the clock are arguments, over
  which the theorems quantify.  Third-party code is a record of functions given as an argument, and
  what the sources rely on of it is a named predicate on that record.

  \<^bold>\<open>Theories and sources.\<close>

  \<^item> \<^verbatim>\<open>Prelude\<close>: addresses, errors (\<^verbatim>\<open>src/error.rs\<close>), results, octet strings and shared lemmas.

  \<^item> \<^verbatim>\<open>Persistence\<close>: the journal of fake addresses, \<^verbatim>\<open>src/virtual_dns/persistence.rs\<close>, over a file store
    with a script of failures.  An append interrupted at any octet loses no earlier mapping; a rewrite
    is atomic and loads back.

  \<^item> \<^verbatim>\<open>Dns\<close>: \<^verbatim>\<open>src/dns.rs\<close>.  Synthetic replies pass the validation of the same file, following CNAME
    records is sound, and TCP framing is independent of how the octets are cut.

  \<^item> \<^verbatim>\<open>VirtualDns\<close> and \<^verbatim>\<open>VdnsJournal\<close>: \<^verbatim>\<open>src/virtual_dns.rs\<close>, with the LRU map under \<^verbatim>\<open>lru_laws\<close>.  A lookup
    returns and keeps the maps inverse to each other; an address survives fewer allocations than the
    pool has addresses; a restart restores the mappings; a reply carries an address that resolves back.

  \<^item> \<^verbatim>\<open>DnsTransactions\<close>: \<^verbatim>\<open>src/dns_transactions.rs\<close>.  Replies are matched with the query they answer.

  \<^item> \<^verbatim>\<open>ProxyHandler\<close>: \<^verbatim>\<open>src/directions.rs\<close>, \<^verbatim>\<open>src/session_info.rs\<close>, \<^verbatim>\<open>src/proxy_handler.rs\<close> and
    \<^verbatim>\<open>handle_proxy_session\<close>.  The locale \<^verbatim>\<open>proxy_handler\<close> is the contract of the trait, with the lemmas of
    its client; \<^verbatim>\<open>Socks\<close> and \<^verbatim>\<open>Http\<close> interpret it.

  \<^item> \<^verbatim>\<open>Socks\<close> (\<^verbatim>\<open>src/socks.rs\<close>, \<^verbatim>\<open>src/no_proxy.rs\<close>) and \<^verbatim>\<open>Http\<close> (\<^verbatim>\<open>src/http.rs\<close>): the handshakes send what
    the protocol asks for, whatever the cut of the replies, and then hand over exactly the application
    data.  A SOCKS session returns on every input; for HTTP this needs that no announced body length
    wraps, and two theorems describe what happens when it does and when a challenge closes the
    connection.

  \<^item> \<^verbatim>\<open>Udpgw\<close>, \<^verbatim>\<open>GatewaySession\<close> and \<^verbatim>\<open>UdpgwServer\<close>: \<^verbatim>\<open>src/udpgw.rs\<close>, \<^verbatim>\<open>handle_udp_gateway_session\<close> and
    \<^verbatim>\<open>src/bin/udpgw_server.rs\<close>.  The frame reader may be cancelled at any point without losing its place,
    a flow delivers only its own datagrams, and the server never sends a reply of an earlier generation.

  \<^item> \<^verbatim>\<open>WindowsRoutes\<close>, \<^verbatim>\<open>WindowsRestore\<close> and \<^verbatim>\<open>IpHelper\<close>: \<^verbatim>\<open>src/windows_network_config.rs\<close>.  The locale
    \<^verbatim>\<open>network_operations\<close> is the contract of the trait \<^verbatim>\<open>NetworkOperations\<close>, a sublocale shows that the
    IP Helper implementation meets it under \<^verbatim>\<open>win_laws\<close>, and a session restores the machine after
    any events and failures.

  \<^item> \<^verbatim>\<open>Direct\<close> and \<^verbatim>\<open>Egress\<close>: \<^verbatim>\<open>src/direct.rs\<close>.  Sockets are pinned before use, names are resolved by a
    bounded chain of matching replies, and the detected interface is physical.

  \<^item> \<^verbatim>\<open>ProcessPolicy\<close>: \<^verbatim>\<open>src/process_bypass.rs\<close>, \<^verbatim>\<open>src/process_profile.rs\<close> and \<^verbatim>\<open>src/process/\<close>.  A bypass rests
    on a fresh reading of the socket table, and a relay ends when the list decides differently.

  \<^item> \<^verbatim>\<open>UdpBypass\<close>: \<^verbatim>\<open>src/udp_bypass.rs\<close>.  Invariants of the pool under every interleaving, and silence of
    endpoints that maintenance did not confirm.

  \<^item> \<^verbatim>\<open>QueryOrigins\<close>: \<^verbatim>\<open>src/dns_routing/windows.rs\<close>.  A checkpoint waits for all earlier events, and an
    attribution is recent and not contradicted.

  \<^item> \<^verbatim>\<open>DnsRouting\<close>: \<^verbatim>\<open>src/physical_dns.rs\<close> and \<^verbatim>\<open>src/dns_routing.rs\<close>.  A client gets only replies to its own
    questions, in order.

  \<^item> \<^verbatim>\<open>Routing\<close> and \<^verbatim>\<open>Sessions\<close>: \<^verbatim>\<open>src/lib.rs\<close> and \<^verbatim>\<open>src/traffic_status.rs\<close>.  The admission counters, the
    decision for each TCP and UDP session, and the handlers that carry it out.

  \<^bold>\<open>Bounds and termination.\<close>  No definition has fuel.  The loops that may not end are partial functions
  into option: the search for a free address (bounded by the pool, and shown to return), the search for
  a free transaction identifier (bounded by the table of pending requests, and shown to return) and the
  HTTP state machine (shown to return where lengths do not wrap, and not to where one wraps to zero).
  All other recursions are proved to terminate.  Sizes are those of a 64-bit target.  The capacities of
  queues, pools and tables are the constants of the sources.

  \<^bold>\<open>Not modelled.\<close>  ICMP echo, the C and JNI interfaces, service and elevation code, the passing of
  sockets between namespaces and the program entry points are calls into the system or into libraries.
  The declarations of the command line, the accept loops and the spawning of tasks are left out too; the
  steps that the tasks take are modelled.  A timeout is one of the outcomes of the operation it
  guards, a reading of the clock is an argument, and log messages are omitted.  Formatted error texts keep their literal part.
\<close>

end
